(* ===== verification/WS_Prelude.thy ===== *)
theory WS_Prelude
  imports Main "HOL-Library.Word"
begin

text \<open>
  Shared vocabulary of the development: the fault values of C code that reads or writes out of range,
  uses freed memory or fails an assertion, the character classes and string functions of the C library (in the C
  locale) that the sources call, decimal output (the printf conversions of integers) and decimal
  input (strtol, atoi, atol), and the generic facts on lists and words the components share.

  C strings are Isabelle strings (lists of 8-bit characters) without their terminating NUL;
  arbitrary bytes are lists of 8-bit words.
\<close>

named_theorems ws_defs \<open>definitions that component proofs unfold\<close>
named_theorems ws_len \<open>lengths of encoded and formatted text\<close>

type_synonym byte = "8 word"
type_synonym u16 = "16 word"
type_synonym u32 = "32 word"
type_synonym u64 = "64 word"

datatype fault = OOB_Read | OOB_Write | Use_After_Free | Assert_Failed

section \<open>Characters of the C locale\<close>

abbreviation code :: "char \<Rightarrow> nat" where
  "code c \<equiv> of_char c"

definition c_isdigit :: "char \<Rightarrow> bool" where
  "c_isdigit c \<longleftrightarrow> 48 \<le> code c \<and> code c \<le> 57"

definition c_isupper :: "char \<Rightarrow> bool" where
  "c_isupper c \<longleftrightarrow> 65 \<le> code c \<and> code c \<le> 90"

definition c_islower :: "char \<Rightarrow> bool" where
  "c_islower c \<longleftrightarrow> 97 \<le> code c \<and> code c \<le> 122"

definition c_isalnum :: "char \<Rightarrow> bool" where
  "c_isalnum c \<longleftrightarrow> c_isdigit c \<or> c_isupper c \<or> c_islower c"

definition c_isxdigit :: "char \<Rightarrow> bool" where
  "c_isxdigit c \<longleftrightarrow> c_isdigit c \<or> (65 \<le> code c \<and> code c \<le> 70) \<or> (97 \<le> code c \<and> code c \<le> 102)"

definition c_isspace :: "char \<Rightarrow> bool" where
  "c_isspace c \<longleftrightarrow> code c = 32 \<or> (9 \<le> code c \<and> code c \<le> 13)"

definition c_tolower :: "char \<Rightarrow> char" where
  "c_tolower c = (if c_isupper c then char_of (code c + 32) else c)"

lemma code_tolower:
  "code (c_tolower c) = (if c_isupper c then code c + 32 else code c)"
  by (auto simp: c_tolower_def c_isupper_def)

lemma tolower_xdigit [simp]: "c_isxdigit (c_tolower c) = c_isxdigit c"
  by (auto simp: c_isxdigit_def c_isdigit_def code_tolower c_isupper_def)

lemma tolower_not_upper [simp]: "\<not> c_isupper (c_tolower c)"
  by (auto simp: c_isupper_def code_tolower)

lemma tolower_idem [simp]: "c_tolower (c_tolower c) = c_tolower c"
  using tolower_not_upper [of c] by (simp add: c_tolower_def [of "c_tolower c"])

section \<open>C strings\<close>

text \<open>The C string that starts at a buffer: everything before the first NUL.\<close>

definition cstr :: "string \<Rightarrow> string" where
  "cstr s = takeWhile (\<lambda>c. c \<noteq> CHR 0x00) s"

definition no_nul :: "string \<Rightarrow> bool" where
  "no_nul s \<longleftrightarrow> CHR 0x00 \<notin> set s"

lemma cstr_no_nul [simp]: "no_nul s \<Longrightarrow> cstr s = s"
  by (auto simp: no_nul_def cstr_def takeWhile_eq_all_conv)

lemma no_nul_cstr [simp]: "no_nul (cstr s)"
  by (auto simp: no_nul_def cstr_def dest: set_takeWhileD)

text \<open>\<open>strncmp(s, p, n) == 0\<close> for C strings.\<close>

definition strncmp_eq :: "string \<Rightarrow> string \<Rightarrow> nat \<Rightarrow> bool" where
  "strncmp_eq s p n \<longleftrightarrow> take n s = take n p"

lemma strncmp_eq_prefix:
  "strncmp_eq s p (length p) \<longleftrightarrow> (\<exists>r. s = p @ r)"
proof
  assume "strncmp_eq s p (length p)"
  then have "s = p @ drop (length p) s"
    by (metis append_take_drop_id order_refl strncmp_eq_def take_all)
  then show "\<exists>r. s = p @ r" ..
qed (auto simp: strncmp_eq_def)

text \<open>\<open>strcasecmp(s, t) == 0\<close>.\<close>

definition strcasecmp_eq :: "string \<Rightarrow> string \<Rightarrow> bool" where
  "strcasecmp_eq s t \<longleftrightarrow> map c_tolower s = map c_tolower t"

text \<open>\<open>snprintf\<close> into a buffer of \<open>n\<close> bytes keeps at most \<open>n - 1\<close> characters.\<close>

definition snprintf_buf :: "nat \<Rightarrow> string \<Rightarrow> string" where
  "snprintf_buf n s = take (n - 1) s"

text \<open>A pointer printed with the percent-s conversion: the C library prints a null pointer so.\<close>

definition str_or_null :: "string option \<Rightarrow> string" where
  "str_or_null p = (case p of None \<Rightarrow> ''(null)'' | Some s \<Rightarrow> s)"

abbreviation NL :: string where
  "NL \<equiv> [CHR 0x0A]"

section \<open>Decimal output and input\<close>

definition digit_char :: "nat \<Rightarrow> char" where
  "digit_char d = char_of (48 + d)"

fun show_nat :: "nat \<Rightarrow> string" where
  "show_nat n = (if n < 10 then [digit_char n] else show_nat (n div 10) @ [digit_char (n mod 10)])"

declare show_nat.simps [simp del]

definition show_int :: "int \<Rightarrow> string" where
  "show_int i = (if i < 0 then CHR ''-'' # show_nat (nat (- i)) else show_nat (nat i))"

definition dec_step :: "nat \<Rightarrow> char \<Rightarrow> nat" where
  "dec_step acc c = 10 * acc + (code c - 48)"

definition dec_value :: "string \<Rightarrow> nat" where
  "dec_value s = foldl dec_step 0 s"

definition LONG_MAX :: int where "LONG_MAX = 2 ^ 63 - 1"
definition LONG_MIN :: int where "LONG_MIN = - (2 ^ 63)"

definition strtol10 :: "string \<Rightarrow> int" where
  "strtol10 s0 =
     (let s = dropWhile c_isspace s0;
          neg = (s \<noteq> [] \<and> hd s = CHR ''-'');
          s1 = (if s \<noteq> [] \<and> (hd s = CHR ''-'' \<or> hd s = CHR ''+'') then tl s else s);
          v = int (dec_value (takeWhile c_isdigit s1))
      in if neg then max LONG_MIN (- v) else min LONG_MAX v)"

definition c_atol :: "string \<Rightarrow> int" where
  "c_atol s = strtol10 s"

definition c_atoi :: "string \<Rightarrow> int" where
  "c_atoi s = sint (word_of_int (strtol10 s) :: 32 word)"

lemma code_digit_char [simp]: "d < 10 \<Longrightarrow> code (digit_char d) = 48 + d"
  by (simp add: digit_char_def)

lemma isdigit_digit_char [simp]: "d < 10 \<Longrightarrow> c_isdigit (digit_char d)"
  by (simp add: c_isdigit_def)

lemma show_nat_digits: "c \<in> set (show_nat n) \<Longrightarrow> c_isdigit c"
proof (induction n rule: show_nat.induct)
  case (1 n)
  then show ?case
    by (cases "n < 10") (auto simp: show_nat.simps [of n])
qed

lemma show_nat_nonempty [simp]: "show_nat n \<noteq> []"
  by (subst show_nat.simps) simp

lemma dec_value_snoc: "dec_value (s @ [c]) = 10 * dec_value s + (code c - 48)"
  by (simp add: dec_value_def dec_step_def)

lemma dec_value_show_nat [simp]: "dec_value (show_nat n) = n"
proof (induction n rule: show_nat.induct)
  case (1 n)
  show ?case
  proof (cases "n < 10")
    case True
    then show ?thesis
      by (simp add: show_nat.simps [of n] dec_value_def dec_step_def)
  next
    case False
    with 1 show ?thesis
      by (simp add: show_nat.simps [of n] dec_value_snoc)
  qed
qed

lemma digit_not_special:
  "c_isdigit c \<Longrightarrow> \<not> c_isspace c \<and> c \<noteq> CHR ''-'' \<and> c \<noteq> CHR ''+'' \<and> c \<noteq> CHR 0x00"
  by (auto simp: c_isdigit_def c_isspace_def)

lemma show_nat_hd: "c_isdigit (hd (show_nat n))"
  by (rule show_nat_digits [of _ n]) simp

lemma takeWhile_show_nat [simp]: "takeWhile c_isdigit (show_nat n) = show_nat n"
  by (simp add: takeWhile_eq_all_conv show_nat_digits)

lemma dropWhile_show_nat [simp]: "dropWhile c_isspace (show_nat n) = show_nat n"
  using digit_not_special [OF show_nat_hd [of n]]
  by (cases "show_nat n") simp_all

lemma strtol10_show_nat: "int n \<le> LONG_MAX \<Longrightarrow> strtol10 (show_nat n) = int n"
  using digit_not_special [OF show_nat_hd [of n]]
  by (simp add: strtol10_def Let_def)

lemma c_atoi_show_nat:
  assumes "n < 2 ^ 31"
  shows "c_atoi (show_nat n) = int n"
proof -
  have "int n \<le> LONG_MAX" using assms by (simp add: LONG_MAX_def)
  moreover have "sint (word_of_int (int n) :: 32 word) = int n"
    using assms by (subst int_word_sint) simp
  ultimately show ?thesis by (simp add: c_atoi_def strtol10_show_nat)
qed

lemma length_show_nat: "n < 10 ^ k \<Longrightarrow> 0 < k \<Longrightarrow> length (show_nat n) \<le> k"
proof (induction n arbitrary: k rule: show_nat.induct)
  case (1 n)
  show ?case
  proof (cases "n < 10")
    case True
    then show ?thesis using 1 by (simp add: show_nat.simps [of n])
  next
    case False
    with "1.prems" obtain j where k: "k = Suc j" "0 < j"
      by (cases k; cases "k - 1") auto
    then have "n div 10 < 10 ^ j" using "1.prems" by (simp add: div_less_iff_less_mult)
    then have "length (show_nat (n div 10)) \<le> j" using "1.IH" [OF False] k by simp
    then show ?thesis using False k by (simp add: show_nat.simps [of n])
  qed
qed

lemma length_show_long:
  assumes "LONG_MIN \<le> i" and "i \<le> LONG_MAX"
  shows "length (show_int i) \<le> 20"
proof -
  have "nat i < 10 ^ 19" "nat (- i) < 10 ^ 19"
    using assms by (auto simp: LONG_MIN_def LONG_MAX_def)
  then have "length (show_nat (nat i)) \<le> 19" "length (show_nat (nat (- i))) \<le> 19"
    by (simp_all add: length_show_nat)
  then show ?thesis by (simp add: show_int_def)
qed

lemma no_nul_show_nat [simp]: "no_nul (show_nat n)"
  using digit_not_special show_nat_digits by (fastforce simp: no_nul_def)

lemma no_nul_show_int [simp]: "no_nul (show_int i)"
  using no_nul_show_nat by (auto simp: show_int_def no_nul_def)

lemma no_nul_append [simp]: "no_nul (s @ t) \<longleftrightarrow> no_nul s \<and> no_nul t"
  by (auto simp: no_nul_def)

section \<open>Results that may be faults\<close>

definition bind_fault :: "fault + 'a \<Rightarrow> ('a \<Rightarrow> fault + 'b) \<Rightarrow> fault + 'b" where
  "bind_fault r f = (case r of Inl e \<Rightarrow> Inl e | Inr x \<Rightarrow> f x)"

lemma bind_fault_simps [simp]:
  "bind_fault (Inl e) f = Inl e" "bind_fault (Inr x) f = f x" "bind_fault r Inr = r"
  by (simp_all add: bind_fault_def split: sum.split)

lemma bind_fault_Inr:
  "bind_fault r f = Inr y \<longleftrightarrow> (\<exists>x. r = Inr x \<and> f x = Inr y)"
  by (cases r) auto

lemma bind_fault_assoc:
  "bind_fault (bind_fault r f) g = bind_fault r (\<lambda>x. bind_fault (f x) g)"
  by (cases r) simp_all

section \<open>Induction over a list in pieces of equal length\<close>

lemma chunk_induct:
  assumes "n dvd length xs" and "0 < n" and "P []"
    and "\<And>f r. length f = n \<Longrightarrow> n dvd length r \<Longrightarrow> P r \<Longrightarrow> P (f @ r)"
  shows "P xs"
  using assms(1)
proof (induction xs rule: length_induct)
  case (1 xs)
  show ?case
  proof (cases "xs = []")
    case True
    then show ?thesis using assms(3) by simp
  next
    case False
    then have le: "n \<le> length xs" using 1 by (simp add: dvd_imp_le)
    then have "n dvd length (drop n xs)" using 1 by simp
    moreover have "P (drop n xs)" using calculation 1 le assms(2) False by simp
    ultimately have "P (take n xs @ drop n xs)" using le by (intro assms(4)) simp_all
    then show ?thesis by simp
  qed
qed

end
