(* ===== verification/Z85.thy ===== *)
theory Z85
  imports WS_Prelude
begin

text \<open>
  The Z85 codec, z85.c: the division by 85 through a multiplication, the frame encoder and
  decoder, the pointer loops \<open>Z85_encode_unsafe\<close> and \<open>Z85_decode_unsafe\<close>, the plain and the
  padded entry points and their size bounds.

  A buffer is a list, a pointer into it an offset (an \<open>int\<close>, because the decoder moves its end
  pointer backwards), and a read outside the buffer, or outside the static table \<open>base256\<close>, is the
  fault \<open>OOB_Read\<close>. The destination is the list of the bytes written, in order, so the C result
  (the distance the destination pointer moved) is its length. A failed \<open>assert\<close> is
  \<open>Assert_Failed\<close>; the flag \<open>ndebug\<close> says whether the code was compiled with NDEBUG (the
  build scripts do not define it).
\<close>

section \<open>Tables and the division by 85\<close>

definition base85 :: string where
  "base85 = ''0123456789abcdefghijklmnopqrstuvwxyzABCDEFGHIJKLMNOPQRSTUVWXYZ.-:+=^!/*?&<>()[]{}@%$#''"

definition base256 :: "byte list" where
  "base256 =
    [0x00, 0x44, 0x00, 0x54, 0x53, 0x52, 0x48, 0x00,
     0x4B, 0x4C, 0x46, 0x41, 0x00, 0x3F, 0x3E, 0x45,
     0x00, 0x01, 0x02, 0x03, 0x04, 0x05, 0x06, 0x07,
     0x08, 0x09, 0x40, 0x00, 0x49, 0x42, 0x4A, 0x47,
     0x51, 0x24, 0x25, 0x26, 0x27, 0x28, 0x29, 0x2A,
     0x2B, 0x2C, 0x2D, 0x2E, 0x2F, 0x30, 0x31, 0x32,
     0x33, 0x34, 0x35, 0x36, 0x37, 0x38, 0x39, 0x3A,
     0x3B, 0x3C, 0x3D, 0x4D, 0x00, 0x4E, 0x43, 0x00,
     0x00, 0x0A, 0x0B, 0x0C, 0x0D, 0x0E, 0x0F, 0x10,
     0x11, 0x12, 0x13, 0x14, 0x15, 0x16, 0x17, 0x18,
     0x19, 0x1A, 0x1B, 0x1C, 0x1D, 0x1E, 0x1F, 0x20,
     0x21, 0x22, 0x23, 0x4F, 0x00, 0x50, 0x00, 0x00]"

definition DIV85_MAGIC :: u64 where
  "DIV85_MAGIC = 3233857729"

definition DIV85 :: "u32 \<Rightarrow> u32" where
  "DIV85 number = drop_bit 6 (ucast (drop_bit 32 (DIV85_MAGIC * ucast number)))"

text \<open>The constant: \<open>85 * 3233857729 = 2 ^ 38 + 21\<close>, close enough for every 32-bit number.\<close>

lemma magic_div:
  fixes n :: nat
  assumes "n < 2 ^ 32"
  shows "3233857729 * n div 2 ^ 38 = n div 85"
proof (rule div_nat_eqI)
  define q r where "q = n div 85" and "r = n mod 85"
  then have n: "n = 85 * q + r" and r: "r \<le> 84" by auto
  have q: "q \<le> 50529027" using assms n by simp
  show "2 ^ 38 * (n div 85) \<le> 3233857729 * n"
    unfolding q_def [symmetric] n by simp
  show "3233857729 * n < 2 ^ 38 * Suc (n div 85)"
    unfolding q_def [symmetric] n using r q by simp
qed

lemma unat_DIV85: "unat (DIV85 n) = unat n div 85"
proof -
  have n: "unat n < 2 ^ 32" using unsigned_less [of n] by simp
  have u: "unat (ucast n :: u64) = unat n"
    using n by (simp add: unsigned_ucast_eq take_bit_nat_eq_self)
  have p: "unat (DIV85_MAGIC * ucast n) = 3233857729 * unat n"
    using n by (simp add: DIV85_MAGIC_def unat_word_ariths u)
  have "unat (DIV85 n) = drop_bit 6 (take_bit 32 (drop_bit 32 (3233857729 * unat n)))"
    by (simp only: DIV85_def p unat_drop_bit_eq unsigned_ucast_eq) simp
  also have "\<dots> = 3233857729 * unat n div 2 ^ 32 mod 2 ^ 32 div 2 ^ 6"
    by (simp only: drop_bit_eq_div take_bit_eq_mod)
  also have "\<dots> = 3233857729 * unat n div 2 ^ 32 div 2 ^ 6"
    using n by (simp add: less_mult_imp_div_less)
  also have "\<dots> = unat n div 85"
    using magic_div [OF n] by (simp add: div_mult2_eq [symmetric])
  finally show ?thesis .
qed

section \<open>Frames: four bytes, five digits\<close>

unbundle bit_operations_syntax

definition Z85_frame_value :: "byte list \<Rightarrow> u32" where
  "Z85_frame_value src =
     push_bit 24 (ucast (src ! 0)) OR push_bit 16 (ucast (src ! 1)) OR
     push_bit 8 (ucast (src ! 2)) OR ucast (src ! 3)"

definition Z85_encode_frame :: "byte list \<Rightarrow> string" where
  "Z85_encode_frame src =
     (let value = Z85_frame_value src;
          value2 = DIV85 value; dst4 = base85 ! unat (value - value2 * 85); value = value2;
          value2 = DIV85 value; dst3 = base85 ! unat (value - value2 * 85); value = value2;
          value2 = DIV85 value; dst2 = base85 ! unat (value - value2 * 85); value = value2;
          value2 = DIV85 value; dst1 = base85 ! unat (value - value2 * 85);
          dst0 = base85 ! unat value2
      in [dst0, dst1, dst2, dst3, dst4])"

definition base256_at :: "char \<Rightarrow> fault + u32" where
  "base256_at c =
     (let i = unat ((of_nat (code c) - 32 :: u32) AND 127)
      in if i < length base256 then Inr (ucast (base256 ! i)) else Inl OOB_Read)"

definition Z85_decode_frame :: "string \<Rightarrow> fault + byte list" where
  "Z85_decode_frame src =
     bind_fault (base256_at (src ! 0)) (\<lambda>value.
     bind_fault (base256_at (src ! 1)) (\<lambda>d. let value = value * 85 + d in
     bind_fault (base256_at (src ! 2)) (\<lambda>d. let value = value * 85 + d in
     bind_fault (base256_at (src ! 3)) (\<lambda>d. let value = value * 85 + d in
     bind_fault (base256_at (src ! 4)) (\<lambda>d. let value = value * 85 + d in
       Inr [ucast (drop_bit 24 value), ucast (drop_bit 16 value),
            ucast (drop_bit 8 value), ucast value])))))"

lemma length_base85 [simp]: "length base85 = 85"
  by (simp add: base85_def)

lemma length_base256 [simp]: "length base256 = 96"
  by (simp add: base256_def)

text \<open>The two tables are inverse on the 85 digits.\<close>

lemma base256_base85_all:
  "map base256_at base85 = map (\<lambda>i. Inr (of_nat i)) [0..<85]"
  by (simp add: base85_def base256_at_def base256_def upt_conv_Cons)

lemma base256_base85: "i < 85 \<Longrightarrow> base256_at (base85 ! i) = Inr (of_nat i)"
  using arg_cong [OF base256_base85_all, of "\<lambda>xs. xs ! i"] by simp

lemma unat_mod85: "unat (v - DIV85 v * 85) = unat v mod 85"
proof -
  have le: "unat v div 85 * 85 \<le> unat v" by simp
  have lt: "unat v < 2 ^ 32" using unsigned_less [of v] by simp
  have m: "unat (DIV85 v * 85) = unat v div 85 * 85"
    using le lt by (simp add: unat_word_ariths unat_DIV85)
  then have "DIV85 v * 85 \<le> v" by (simp add: word_le_nat_alt)
  then show ?thesis by (simp add: unat_sub m minus_div_mult_eq_mod)
qed

definition digits85 :: "nat \<Rightarrow> nat list" where
  "digits85 n = [n div 85 ^ 4, n div 85 ^ 3 mod 85, n div 85 ^ 2 mod 85, n div 85 mod 85, n mod 85]"

lemma digits85_bound: "n < 2 ^ 32 \<Longrightarrow> d \<in> set (digits85 n) \<Longrightarrow> d < 85"
  by (auto simp: digits85_def)

lemma digits85_horner:
  "digits85 n = [d0, d1, d2, d3, d4] \<Longrightarrow> (((d0 * 85 + d1) * 85 + d2) * 85 + d3) * 85 + d4 = n"
proof -
  assume d: "digits85 n = [d0, d1, d2, d3, d4]"
  define q1 q2 q3 where "q1 = n div 85" and "q2 = q1 div 85" and "q3 = q2 div 85"
  have "n = q1 * 85 + n mod 85" "q1 = q2 * 85 + q1 mod 85"
    "q2 = q3 * 85 + q2 mod 85" "q3 = q3 div 85 * 85 + q3 mod 85"
    by (simp_all add: q1_def q2_def q3_def)
  moreover have "q2 = n div 85 ^ 2" "q3 = n div 85 ^ 3" "q3 div 85 = n div 85 ^ 4"
    by (simp_all add: q1_def q2_def q3_def div_mult2_eq [symmetric])
  moreover have "d0 = n div 85 ^ 4" "d1 = n div 85 ^ 3 mod 85" "d2 = n div 85 ^ 2 mod 85"
    "d3 = q1 mod 85" "d4 = n mod 85"
    using d by (auto simp: digits85_def q1_def)
  ultimately show ?thesis by metis
qed

lemma Z85_encode_frame_digits:
  "Z85_encode_frame src = map ((!) base85) (digits85 (unat (Z85_frame_value src)))"
  by (simp add: Z85_encode_frame_def Let_def unat_mod85 unat_DIV85 digits85_def
      div_mult2_eq [symmetric])

lemma length_Z85_encode_frame [simp]: "length (Z85_encode_frame src) = 5"
  by (simp add: Z85_encode_frame_def Let_def)

lemma Z85_encode_frame_alphabet: "set (Z85_encode_frame src) \<subseteq> set base85"
proof -
  have "unat (Z85_frame_value src) < 2 ^ 32"
    using unsigned_less [of "Z85_frame_value src"] by simp
  from digits85_bound [OF this] show ?thesis
    by (auto simp: Z85_encode_frame_digits)
qed

text \<open>Decoding an encoded frame gives the four bytes back.\<close>

lemma frame_value_bytes:
  assumes "length src = 4"
  shows "[ucast (drop_bit 24 (Z85_frame_value src)), ucast (drop_bit 16 (Z85_frame_value src)),
          ucast (drop_bit 8 (Z85_frame_value src)), ucast (Z85_frame_value src)] = src"
proof -
  obtain a b c d where src: "src = [a, b, c, d]"
    using assms by (auto simp: length_Suc_conv numeral_eq_Suc)
  have "ucast (drop_bit 24 (Z85_frame_value src)) = a"
    "ucast (drop_bit 16 (Z85_frame_value src)) = b"
    "ucast (drop_bit 8 (Z85_frame_value src)) = c"
    "ucast (Z85_frame_value src) = d"
    by (rule bit_word_eqI; auto simp: src Z85_frame_value_def bit_simps dest: bit_imp_le_length)+
  then show ?thesis by (simp add: src)
qed

lemma Z85_decode_digits:
  fixes v :: u32
  assumes "digits85 (unat v) = [d0, d1, d2, d3, d4]" and "\<forall>d \<in> {d0, d1, d2, d3, d4}. d < 85"
  shows "Z85_decode_frame (map ((!) base85) [d0, d1, d2, d3, d4]) =
    Inr [ucast (drop_bit 24 v), ucast (drop_bit 16 v), ucast (drop_bit 8 v), ucast v]"
proof -
  have "(((of_nat d0 * 85 + of_nat d1) * 85 + of_nat d2) * 85 + of_nat d3) * 85 + of_nat d4
      = (of_nat ((((d0 * 85 + d1) * 85 + d2) * 85 + d3) * 85 + d4) :: u32)"
    by simp
  also have "\<dots> = v" using digits85_horner [OF assms(1)] by simp
  finally have v: "v = (((of_nat d0 * 85 + of_nat d1) * 85 + of_nat d2) * 85 + of_nat d3) * 85 + of_nat d4"
    by simp
  show ?thesis
    using assms(2) by (simp add: Z85_decode_frame_def base256_base85 Let_def v)
qed

lemma Z85_decode_encode_frame:
  assumes "length src = 4"
  shows "Z85_decode_frame (Z85_encode_frame src) = Inr src"
proof -
  let ?v = "Z85_frame_value src"
  obtain d0 d1 d2 d3 d4 where d: "digits85 (unat ?v) = [d0, d1, d2, d3, d4]"
    by (simp add: digits85_def)
  have "unat ?v < 2 ^ 32" using unsigned_less [of ?v] by simp
  from digits85_bound [OF this] d have "\<forall>x \<in> {d0, d1, d2, d3, d4}. x < 85" by simp
  from Z85_decode_digits [OF d this] d show ?thesis
    by (simp add: Z85_encode_frame_digits frame_value_bytes [OF assms])
qed

section \<open>The pointer loops\<close>

text \<open>Reading \<open>k\<close> bytes at offset \<open>p\<close> of a buffer.\<close>

definition read_buf :: "'a list \<Rightarrow> int \<Rightarrow> nat \<Rightarrow> fault + 'a list" where
  "read_buf m p k =
     (if 0 \<le> p \<and> p + int k \<le> int (length m) then Inr (take k (drop (nat p) m)) else Inl OOB_Read)"

function Z85_encode_unsafe :: "byte list \<Rightarrow> int \<Rightarrow> int \<Rightarrow> fault + string" where
  "Z85_encode_unsafe m src end =
     (if src = end then Inr []
      else if 0 \<le> src \<and> src + 4 \<le> int (length m)
      then bind_fault (read_buf m src 4) (\<lambda>frame.
           bind_fault (Z85_encode_unsafe m (src + 4) end) (\<lambda>rest.
             Inr (Z85_encode_frame frame @ rest)))
      else Inl OOB_Read)"
  by pat_completeness auto
termination
  by (relation "measure (\<lambda>(m, src, end). nat (int (length m) - src))") auto

function Z85_decode_unsafe :: "string \<Rightarrow> int \<Rightarrow> int \<Rightarrow> fault + byte list" where
  "Z85_decode_unsafe m src end =
     (if src = end then Inr []
      else if 0 \<le> src \<and> src + 5 \<le> int (length m)
      then bind_fault (read_buf m src 5) (\<lambda>frame.
           bind_fault (Z85_decode_frame frame) (\<lambda>dst.
           bind_fault (Z85_decode_unsafe m (src + 5) end) (\<lambda>rest. Inr (dst @ rest))))
      else Inl OOB_Read)"
  by pat_completeness auto
termination
  by (relation "measure (\<lambda>(m, src, end). nat (int (length m) - src))") auto

declare Z85_encode_unsafe.simps [simp del] Z85_decode_unsafe.simps [simp del]

text \<open>The loops over the contents of the buffer, frame by frame.\<close>

fun encode_frames :: "byte list \<Rightarrow> string" where
  "encode_frames (a # b # c # d # r) = Z85_encode_frame [a, b, c, d] @ encode_frames r"
| "encode_frames _ = []"

fun decode_frames :: "string \<Rightarrow> fault + byte list" where
  "decode_frames (a # b # c # d # e # r) =
     bind_fault (Z85_decode_frame [a, b, c, d, e]) (\<lambda>dst.
     bind_fault (decode_frames r) (\<lambda>rest. Inr (dst @ rest)))"
| "decode_frames _ = Inr []"

lemma encode_frames_step:
  assumes "length f = 4"
  shows "encode_frames (f @ r) = Z85_encode_frame f @ encode_frames r"
  using assms by (auto simp: length_Suc_conv numeral_eq_Suc)

lemma decode_frames_step:
  assumes "length f = 5"
  shows "decode_frames (f @ r) =
    bind_fault (Z85_decode_frame f) (\<lambda>dst. bind_fault (decode_frames r) (\<lambda>rest. Inr (dst @ rest)))"
  using assms by (auto simp: length_Suc_conv numeral_eq_Suc)

lemma take_drop_step:
  assumes "p + k * Suc n \<le> length m"
  shows "take (k * Suc n) (drop p m) = take k (drop p m) @ take (k * n) (drop (p + k) m)"
proof -
  have "take (k + k * n) (drop p m) = take k (drop p m) @ take (k * n) (drop k (drop p m))"
    by (rule take_add)
  then show ?thesis by (simp add: add.commute)
qed

text \<open>Over a whole number of frames inside the buffer the pointer loops stop at their end
  pointer, having read nothing else.\<close>

lemma Z85_encode_unsafe_frames:
  "p + 4 * n \<le> length m \<Longrightarrow>
   Z85_encode_unsafe m (int p) (int p + 4 * int n) = Inr (encode_frames (take (4 * n) (drop p m)))"
proof (induction n arbitrary: p)
  case 0
  then show ?case by (simp add: Z85_encode_unsafe.simps)
next
  case (Suc n)
  from Suc.IH [of "p + 4"] Suc.prems
  have "Z85_encode_unsafe m (int p + 4) (int p + 4 * int (Suc n)) =
      Inr (encode_frames (take (4 * n) (drop (p + 4) m)))"
    by (simp add: algebra_simps)
  then show ?case
    using Suc.prems take_drop_step [of p 4 n m]
    by (simp add: Z85_encode_unsafe.simps [of m "int p"] read_buf_def encode_frames_step)
qed

lemma Z85_decode_unsafe_frames:
  "p + 5 * n \<le> length m \<Longrightarrow>
   Z85_decode_unsafe m (int p) (int p + 5 * int n) = decode_frames (take (5 * n) (drop p m))"
proof (induction n arbitrary: p)
  case 0
  then show ?case by (simp add: Z85_decode_unsafe.simps)
next
  case (Suc n)
  from Suc.IH [of "p + 5"] Suc.prems
  have "Z85_decode_unsafe m (int p + 5) (int p + 5 * int (Suc n)) =
      decode_frames (take (5 * n) (drop (p + 5) m))"
    by (simp add: algebra_simps)
  then show ?case
    using Suc.prems take_drop_step [of p 5 n m]
    by (simp add: Z85_decode_unsafe.simps [of m "int p"] read_buf_def decode_frames_step)
qed

section \<open>Codecs made of fixed-width frames\<close>

text \<open>
  The contract between a frame codec and the loops over it: \<open>n\<close> items are encoded as \<open>m\<close> symbols
  of an alphabet, one frame decodes to what was encoded, and the loops treat a buffer frame by
  frame. Clients get the round trip, the length and the alphabet of whole buffers.
\<close>

locale frame_codec =
  fixes n m :: nat
    and enc :: "'a list \<Rightarrow> 'b list" and dec :: "'b list \<Rightarrow> fault + 'a list"
    and encs :: "'a list \<Rightarrow> 'b list" and decs :: "'b list \<Rightarrow> fault + 'a list"
    and alphabet :: "'b set"
  assumes width: "0 < n" "0 < m"
    and enc_length: "length f = n \<Longrightarrow> length (enc f) = m"
    and enc_alphabet: "length f = n \<Longrightarrow> set (enc f) \<subseteq> alphabet"
    and dec_enc: "length f = n \<Longrightarrow> dec (enc f) = Inr f"
    and encs_Nil: "encs [] = []"
    and encs_step: "length f = n \<Longrightarrow> encs (f @ r) = enc f @ encs r"
    and decs_Nil: "decs [] = Inr []"
    and decs_step: "length g = m \<Longrightarrow>
      decs (g @ s) = bind_fault (dec g) (\<lambda>dst. bind_fault (decs s) (\<lambda>rest. Inr (dst @ rest)))"
begin

lemmas frames_induct = chunk_induct [OF _ width(1), consumes 1, case_names Nil Frame]

lemma encs_append: "n dvd length xs \<Longrightarrow> encs (xs @ ys) = encs xs @ encs ys"
  by (induction xs rule: frames_induct) (simp_all add: encs_Nil encs_step)

lemma decs_append: "m dvd length ys \<Longrightarrow>
    decs (ys @ zs) = bind_fault (decs ys) (\<lambda>d. bind_fault (decs zs) (\<lambda>e. Inr (d @ e)))"
  by (induction ys rule: chunk_induct [OF _ width(2), consumes 1])
    (simp_all add: decs_Nil decs_step bind_fault_assoc)

lemma codec_roundtrip: "n dvd length xs \<Longrightarrow> decs (encs xs) = Inr xs"
  by (induction xs rule: frames_induct)
    (simp_all add: encs_Nil decs_Nil encs_step decs_step enc_length dec_enc)

lemma codec_length: "n dvd length xs \<Longrightarrow> length (encs xs) = length xs div n * m"
  by (induction xs rule: frames_induct) (use width in \<open>simp_all add: encs_Nil encs_step enc_length\<close>)

lemma codec_alphabet: "n dvd length xs \<Longrightarrow> set (encs xs) \<subseteq> alphabet"
  by (induction xs rule: frames_induct) (use enc_alphabet in \<open>auto simp: encs_Nil encs_step\<close>)

end

interpretation z85_frames: frame_codec 4 5 Z85_encode_frame Z85_decode_frame encode_frames decode_frames
  "set base85"
  by unfold_locales
    (simp_all add: Z85_encode_frame_alphabet Z85_decode_encode_frame encode_frames_step decode_frames_step)

section \<open>Entry points\<close>

definition c_assert :: "bool \<Rightarrow> bool \<Rightarrow> fault + 'a \<Rightarrow> fault + 'a" where
  "c_assert ndebug cond k = (if ndebug \<or> cond then k else Inl Assert_Failed)"

text \<open>The bounds are computed in \<open>size_t\<close>, whose products wrap around.\<close>

definition Z85_encode_bound :: "u64 \<Rightarrow> u64" where
  "Z85_encode_bound sz = sz * 5 div 4"

definition Z85_decode_bound :: "u64 \<Rightarrow> u64" where
  "Z85_decode_bound sz = sz * 4 div 5"

text \<open>A null source pointer is \<open>None\<close>; \<open>dest\<close> says that the destination pointer is not null.\<close>

definition Z85_encode :: "bool \<Rightarrow> byte list option \<Rightarrow> bool \<Rightarrow> nat \<Rightarrow> fault + string" where
  "Z85_encode ndebug source dest inputSize =
     (case source of
        Some s \<Rightarrow>
          if \<not> dest \<or> inputSize mod 4 \<noteq> 0 then c_assert ndebug False (Inr [])
          else Z85_encode_unsafe s 0 (int inputSize)
      | None \<Rightarrow> c_assert ndebug False (Inr []))"

definition Z85_decode :: "bool \<Rightarrow> string option \<Rightarrow> bool \<Rightarrow> nat \<Rightarrow> fault + byte list" where
  "Z85_decode ndebug source dest inputSize =
     (case source of
        Some s \<Rightarrow>
          if \<not> dest \<or> inputSize mod 5 \<noteq> 0 then c_assert ndebug False (Inr [])
          else Z85_decode_unsafe s 0 (int inputSize)
      | None \<Rightarrow> c_assert ndebug False (Inr []))"

definition Z85_encode_with_padding_bound :: "u64 \<Rightarrow> u64" where
  "Z85_encode_with_padding_bound sz =
     (if sz = 0 then 0
      else let sz = Z85_encode_bound sz in sz + (5 - sz mod 5) mod 5 + 1)"

definition Z85_decode_with_padding_bound :: "string option \<Rightarrow> u64 \<Rightarrow> fault + u64" where
  "Z85_decode_with_padding_bound source sz =
     (case source of
        None \<Rightarrow> Inr 0
      | Some s \<Rightarrow>
          if sz = 0 then Inr 0
          else bind_fault (read_buf s 0 1) (\<lambda>c.
            let pad = (of_nat (code (c ! 0)) - 48 :: byte);
                bound = Z85_decode_bound (sz - 1)
            in if 3 < (ucast pad - 1 :: u32) then Inr 0
               else if bound + ucast pad < 4 then Inr 0
               else Inr (bound + ucast pad - 4)))"

definition Z85_encode_with_padding ::
    "bool \<Rightarrow> byte list option \<Rightarrow> bool \<Rightarrow> nat \<Rightarrow> fault + string" where
  "Z85_encode_with_padding ndebug source dest inputSize =
     (let tailBytes = inputSize mod 4;
          end = int inputSize - int tailBytes
      in c_assert ndebug (source \<noteq> None \<and> dest)
        (case source of
           None \<Rightarrow> Inr []
         | Some s \<Rightarrow>
             if \<not> dest \<or> inputSize = 0 then Inr []
             else
               let count = (if tailBytes = 0 then CHR ''4'' else char_of (48 + tailBytes)) in
               bind_fault (Z85_encode_unsafe s 0 end) (\<lambda>body.
                 if tailBytes = 0 then Inr (count # body)
                 else bind_fault (read_buf s end tailBytes) (\<lambda>t.
                      let tailBuf = t @ replicate (4 - tailBytes) 0 in
                      bind_fault (Z85_encode_unsafe tailBuf 0 4) (\<lambda>last.
                        Inr (count # body @ last))))))"

text \<open>The count digit as the unsigned 64-bit \<open>size_t\<close> of \<open>(source++)[0] - '0'\<close>.\<close>

definition count_word :: "char \<Rightarrow> u64" where
  "count_word c = word_of_int (sint (of_nat (code c) :: byte) - 48)"

definition Z85_decode_with_padding ::
    "bool \<Rightarrow> string option \<Rightarrow> bool \<Rightarrow> nat \<Rightarrow> fault + byte list" where
  "Z85_decode_with_padding ndebug source dest inputSize =
     c_assert ndebug (source \<noteq> None \<and> dest \<and> (inputSize = 0 \<or> (inputSize - 1) mod 5 = 0))
       (case source of
          None \<Rightarrow> Inr []
        | Some s \<Rightarrow>
            if \<not> dest \<or> inputSize = 0 \<or> (inputSize - 1) mod 5 \<noteq> 0 then Inr []
            else bind_fault (read_buf s 0 1) (\<lambda>c.
              let tailBytes = count_word (c ! 0) in
              if 3 < tailBytes - 1 then c_assert ndebug False (Inr [])
              else
                let end = int inputSize - 5 in
                bind_fault (if 1 \<noteq> end then Z85_decode_unsafe s 1 end else Inr []) (\<lambda>body.
                bind_fault (Z85_decode_unsafe s end (end + 5)) (\<lambda>tailBuf.
                  Inr (body @ take (unat tailBytes) tailBuf)))))"

section \<open>What the padded codec computes\<close>

text \<open>
  The format: a digit that counts the bytes of the last frame (1 to 4), then the frames of the
  message filled up with zero bytes.
\<close>

definition tail_count :: "nat \<Rightarrow> nat" where
  "tail_count n = (if n mod 4 = 0 then 4 else n mod 4)"

definition pad4 :: "byte list \<Rightarrow> byte list" where
  "pad4 s = s @ replicate (4 - tail_count (length s)) 0"

definition z85_text :: "byte list \<Rightarrow> string" where
  "z85_text s = (if s = [] then [] else char_of (48 + tail_count (length s)) # encode_frames (pad4 s))"

lemma tail_count_Suc: "tail_count (Suc m) = Suc (m mod 4)"
  by (simp add: tail_count_def mod_Suc)

lemma tail_count_bounds: "1 \<le> tail_count n \<and> tail_count n \<le> 4"
  by (auto simp: tail_count_def)

lemma dvd_length_pad4 [simp]: "4 dvd length (pad4 s)"
  unfolding pad4_def tail_count_def by simp presburger

lemma Z85_encode_unsafe_whole:
  assumes "length s = 4 * n"
  shows "Z85_encode_unsafe s 0 (4 * int n) = Inr (encode_frames s)"
  using Z85_encode_unsafe_frames [of 0 n s] assms by simp

lemma Z85_encode_body:
  "Z85_encode_unsafe s 0 (int (length s) - int (length s mod 4)) =
     Inr (encode_frames (take (4 * (length s div 4)) s))"
proof -
  have "int (length s) - int (length s mod 4) = 4 * int (length s div 4)" by presburger
  moreover have "4 * (length s div 4) \<le> length s" by simp
  ultimately show ?thesis using Z85_encode_unsafe_frames [of 0 "length s div 4" s] by simp
qed

lemma read_tail:
  "read_buf s (int (length s) - int (length s mod 4)) (length s mod 4) =
     Inr (drop (4 * (length s div 4)) s)"
proof -
  define p k where "p = 4 * (length s div 4)" and "k = length s mod 4"
  then have len: "length s = p + k" by simp
  then have "read_buf s (int (length s) - int k) k = Inr (drop p s)"
    by (simp add: read_buf_def)
  then show ?thesis by (simp only: p_def k_def)
qed

lemma encode_frames_split:
  "encode_frames (take (4 * (length s div 4)) s) @
   encode_frames (drop (4 * (length s div 4)) s @ r) = encode_frames (s @ r)"
proof -
  have "4 dvd length (take (4 * (length s div 4)) s)" by simp
  from z85_frames.encs_append [OF this, of "drop (4 * (length s div 4)) s @ r"]
  show ?thesis by (metis append.assoc append_take_drop_id)
qed

lemma Z85_encode_with_padding_text:
  "Z85_encode_with_padding nd (Some s) True (length s) = Inr (z85_text s)"
proof (cases "length s mod 4 = 0")
  case True
  then have "4 * (length s div 4) = length s" by presburger
  with Z85_encode_body [of s] True have "Z85_encode_unsafe s 0 (int (length s)) = Inr (encode_frames s)"
    by simp
  with True show ?thesis
    by (simp add: Z85_encode_with_padding_def c_assert_def z85_text_def pad4_def tail_count_def
        char_of_def bit_simps)
next
  case False
  let ?k = "length s mod 4" and ?t = "drop (4 * (length s div 4)) s"
  have "length ?t = ?k" by (simp add: minus_mult_div_eq_mod)
  moreover have "?k < 4" by simp
  ultimately have "length (?t @ replicate (4 - ?k) 0) = 4 * 1" by simp
  from Z85_encode_unsafe_whole [OF this] have
    "Z85_encode_unsafe (?t @ replicate (4 - ?k) 0) 0 4 = Inr (encode_frames (?t @ replicate (4 - ?k) 0))"
    by simp
  with False show ?thesis
    by (simp add: Z85_encode_with_padding_def c_assert_def Let_def Z85_encode_body read_tail
        z85_text_def pad4_def tail_count_def encode_frames_split)
qed

text \<open>The count digit read as an unsigned 64-bit number, as the decoder does.\<close>

lemma sint_byte_of_nat:
  assumes "n < 256"
  shows "sint (of_nat n :: byte) = (if n < 128 then int n else int n - 256)"
proof -
  have "sint (word_of_int (int n) :: byte) = (int n + 128) mod 256 - 128"
    by (subst int_word_sint) simp
  also have "\<dots> = (if n < 128 then int n else int n - 256)"
  proof (cases "n < 128")
    case True
    then show ?thesis by (simp add: mod_pos_pos_trivial)
  next
    case False
    have "(int n + 128) mod 256 = ((int n - 128) + 256) mod 256"
      by (simp add: add.commute)
    also have "\<dots> = int n - 128" using assms False by (simp only: mod_add_self2) simp
    finally show ?thesis using False by simp
  qed
  finally show ?thesis by simp
qed

lemma sint_byte_of_code:
  "sint (of_nat (code c) :: byte) = (if code c < 128 then int (code c) else int (code c) - 256)"
  by (rule sint_byte_of_nat) simp

lemma small_word_of_int:
  assumes "- 1000 < i" and "i < 1000"
  shows "(3 :: u64) < word_of_int i \<longleftrightarrow> i < 0 \<or> 3 < i"
proof (cases "i < 0")
  case True
  have "i mod 2 ^ 64 = (i + 2 ^ 64) mod 2 ^ 64" by (simp only: mod_add_self2)
  also have "\<dots> = i + 2 ^ 64" using True assms by (intro mod_pos_pos_trivial) simp_all
  finally have "uint (word_of_int i :: u64) = i + 2 ^ 64"
    by (simp add: uint_word_of_int)
  then show ?thesis using True assms by (simp add: word_less_def)
next
  case False
  then have "uint (word_of_int i :: u64) = i"
    using assms by (simp add: uint_word_of_int)
  then show ?thesis using False assms by (simp add: word_less_def)
qed

lemma count_digit_check:
  "3 < count_word c - 1 \<longleftrightarrow> \<not> (49 \<le> code c \<and> code c \<le> 52)"
proof -
  define i n where "i = sint (of_nat (code c) :: byte) - 48" and "n = code c"
  have c: "n < 256" by (simp add: n_def)
  have i: "i = (if n < 128 then int n else int n - 256) - 48"
    by (simp add: i_def n_def sint_byte_of_code)
  have "(word_of_int i :: u64) - 1 = word_of_int (i - 1)" by simp
  moreover have "- 1000 < i - 1" "i - 1 < 1000" using i c by (auto split: if_splits)
  ultimately have "3 < (word_of_int i :: u64) - 1 \<longleftrightarrow> i - 1 < 0 \<or> 3 < i - 1"
    using small_word_of_int by metis
  also have "\<dots> \<longleftrightarrow> \<not> (49 \<le> n \<and> n \<le> 52)" using i c by (auto split: if_splits)
  finally show ?thesis by (simp only: i_def n_def count_word_def)
qed

lemma count_digit_value:
  assumes "49 \<le> code c" and "code c \<le> 52"
  shows "unat (count_word c) = code c - 48"
proof -
  have "sint (of_nat (code c) :: byte) - 48 = int (code c - 48)"
    using assms by (simp add: sint_byte_of_code)
  moreover have "code c - 48 < 2 ^ 64" using assms by simp
  ultimately show ?thesis by (simp add: count_word_def unat_of_nat)
qed

lemma length_Z85_decode_frame: "Z85_decode_frame f = Inr d \<Longrightarrow> length d = 4"
  by (auto simp: Z85_decode_frame_def bind_fault_Inr Let_def)

lemma length_decode_frames:
  "decode_frames t = Inr d \<Longrightarrow> length d = 4 * (length t div 5)"
  by (induction t arbitrary: d rule: decode_frames.induct)
    (auto simp: bind_fault_Inr div_add_self1 dest!: length_Z85_decode_frame)

lemma Z85_decode_with_padding_text:
  assumes "length body = 5 * Suc k"
  shows "Z85_decode_with_padding nd (Some (c # body)) True (Suc (length body)) =
    (if 49 \<le> code c \<and> code c \<le> 52
     then bind_fault (decode_frames body) (\<lambda>d. Inr (take (4 * k + (code c - 48)) d))
     else c_assert nd False (Inr []))"
proof (cases "49 \<le> code c \<and> code c \<le> 52")
  case False
  then show ?thesis
    using assms by (auto simp: Z85_decode_with_padding_def c_assert_def read_buf_def Let_def
      count_digit_check)
next
  case True
  let ?t = "c # body" and ?n = "code c - 48"
  have b: "Z85_decode_unsafe ?t 1 (1 + 5 * int k) = decode_frames (take (5 * k) body)"
    using Z85_decode_unsafe_frames [of 1 k ?t] assms by simp
  have l: "Z85_decode_unsafe ?t (1 + 5 * int k) (6 + 5 * int k) = decode_frames (drop (5 * k) body)"
    using Z85_decode_unsafe_frames [of "1 + 5 * k" 1 ?t] assms by simp
  have "5 dvd length (take (5 * k) body)" using assms by simp
  from z85_frames.decs_append [OF this, of "drop (5 * k) body"]
  have split: "decode_frames body = bind_fault (decode_frames (take (5 * k) body)) (\<lambda>d.
      bind_fault (decode_frames (drop (5 * k) body)) (\<lambda>e. Inr (d @ e)))"
    by simp
  have len: "decode_frames (take (5 * k) body) = Inr d \<Longrightarrow> length d = 4 * k" for d
    using length_decode_frames assms by fastforce
  have "Z85_decode_with_padding nd (Some ?t) True (Suc (length body)) =
      bind_fault (decode_frames (take (5 * k) body)) (\<lambda>d.
      bind_fault (decode_frames (drop (5 * k) body)) (\<lambda>e. Inr (d @ take ?n e)))"
    using True assms b l
    by (cases "k = 0") (simp_all add: Z85_decode_with_padding_def c_assert_def read_buf_def
        count_digit_check count_digit_value)
  also have "\<dots> = bind_fault (decode_frames body) (\<lambda>d. Inr (take (4 * k + ?n) d))"
    unfolding split
    by (cases "decode_frames (take (5 * k) body)"; cases "decode_frames (drop (5 * k) body)")
      (simp_all add: len)
  finally show ?thesis using True by simp
qed

lemma z85_text_Cons:
  assumes "s \<noteq> []"
  shows "z85_text s = char_of (48 + tail_count (length s)) # encode_frames (pad4 s)"
    and "length (encode_frames (pad4 s)) = 5 * Suc ((length s - 1) div 4)"
    and "4 * ((length s - 1) div 4) + tail_count (length s) = length s"
    and "take (length s) (pad4 s) = s"
proof -
  obtain m where m: "length s = Suc m" using assms by (cases s) simp_all
  show "z85_text s = char_of (48 + tail_count (length s)) # encode_frames (pad4 s)"
    using assms by (simp add: z85_text_def)
  show t: "4 * ((length s - 1) div 4) + tail_count (length s) = length s"
    by (simp add: m tail_count_Suc)
  have "length (pad4 s) = 4 * Suc ((length s - 1) div 4)"
    using t tail_count_bounds [of "length s"] by (simp add: pad4_def)
  then show "length (encode_frames (pad4 s)) = 5 * Suc ((length s - 1) div 4)"
    by (simp add: z85_frames.codec_length)
  show "take (length s) (pad4 s) = s" by (simp add: pad4_def)
qed

lemma code_count_digit [simp]: "code (char_of (48 + tail_count n)) = 48 + tail_count n"
  using tail_count_bounds [of n] by simp

lemma Z85_decode_z85_text:
  assumes "s \<noteq> []"
  shows "Z85_decode_with_padding nd (Some (z85_text s)) True (length (z85_text s)) = Inr s"
  using z85_text_Cons [OF assms] tail_count_bounds [of "length s"]
    Z85_decode_with_padding_text [OF z85_text_Cons(2) [OF assms]]
  by (simp add: z85_frames.codec_roundtrip)

lemma z85_text_alphabet: "set (z85_text s) \<subseteq> set base85"
proof (cases "s = []")
  case False
  have "tail_count (length s) \<in> {1, 2, 3, 4}" using tail_count_bounds [of "length s"] by auto
  moreover have "\<forall>k \<in> {1, 2, 3, 4}. char_of (48 + k :: nat) \<in> set base85"
    by (simp add: base85_def char_of_def bit_0 bit_numeral_rec)
  ultimately have "char_of (48 + tail_count (length s)) \<in> set base85" by blast
  then show ?thesis
    using False z85_frames.codec_alphabet [OF dvd_length_pad4] by (simp add: z85_text_Cons)
qed (simp add: z85_text_def)

text \<open>The bounds as numbers, for sizes whose products fit \<open>size_t\<close>.\<close>

definition padded_size :: "nat \<Rightarrow> nat" where
  "padded_size n = (if n = 0 then 0 else let s = n * 5 div 4 in s + (5 - s mod 5) mod 5 + 1)"

lemma unat_size: "n < 2 ^ 64 \<Longrightarrow> unat (of_nat n :: u64) = n"
  by (simp add: unsigned_of_nat take_bit_nat_eq_self)

lemma unat_size_eq: "unat w = n \<Longrightarrow> w = of_nat n" for w :: u64
  by auto

lemma unat_encode_bound:
  assumes "n * 5 < 2 ^ 64"
  shows "unat (Z85_encode_bound (of_nat n)) = n * 5 div 4"
proof -
  have "of_nat n * 5 = (of_nat (n * 5) :: u64)" by simp
  then show ?thesis using unat_size [OF assms] by (simp only: Z85_encode_bound_def unat_div_distrib) simp
qed

lemma unat_decode_bound:
  assumes "n * 4 < 2 ^ 64"
  shows "unat (Z85_decode_bound (of_nat n)) = n * 4 div 5"
proof -
  have "of_nat n * 4 = (of_nat (n * 4) :: u64)" by simp
  then show ?thesis using unat_size [OF assms] by (simp only: Z85_decode_bound_def unat_div_distrib) simp
qed

lemma unat_padding_bound:
  assumes "n * 5 < 2 ^ 64"
  shows "unat (Z85_encode_with_padding_bound (of_nat n)) = padded_size n"
proof (cases "n = 0")
  case False
  let ?s = "n * 5 div 4" and ?w = "Z85_encode_bound (of_nat n)"
  have w: "?w = of_nat ?s" using unat_encode_bound [OF assms] by (rule unat_size_eq)
  have "unat (of_nat n :: u64) = n" using assms by (intro unat_size) simp
  then have "(of_nat n :: u64) \<noteq> 0" using False by (metis unsigned_0)
  moreover have "(of_nat ?s :: u64) mod 5 = of_nat (?s mod 5)"
  proof -
    have "unat ((of_nat ?s :: u64) mod 5) = ?s mod 5"
      using unat_encode_bound [OF assms] unfolding w by (simp add: unat_mod_distrib)
    then show ?thesis by (rule unat_size_eq)
  qed
  moreover have "(5 - of_nat (?s mod 5)) mod 5 = (of_nat ((5 - ?s mod 5) mod 5) :: u64)"
  proof -
    have "5 - of_nat (?s mod 5) = (of_nat (5 - ?s mod 5) :: u64)" by (simp add: of_nat_diff)
    moreover have "unat ((of_nat (5 - ?s mod 5) :: u64) mod 5) = (5 - ?s mod 5) mod 5"
      using unat_size [of "5 - ?s mod 5"] by (simp only: unat_mod_distrib) simp
    ultimately show ?thesis using unat_size_eq by metis
  qed
  ultimately have "Z85_encode_with_padding_bound (of_nat n) = of_nat (padded_size n)"
    using False by (simp add: Z85_encode_with_padding_bound_def padded_size_def Let_def w)
  moreover have "padded_size n < 2 ^ 64"
  proof -
    have "?s < 2 ^ 62" using assms by simp
    moreover have "(5 - ?s mod 5) mod 5 < 5" by simp
    ultimately show ?thesis using False unfolding padded_size_def Let_def by simp
  qed
  ultimately show ?thesis using unat_size by metis
qed (simp add: Z85_encode_with_padding_bound_def padded_size_def)

lemma padded_size_Suc: "padded_size (Suc m) = 5 * Suc (m div 4) + 1"
proof -
  define a b where "a = m div 4" and "b = m mod 4"
  then have m: "m = 4 * a + b" by simp
  have "b < 4" by (simp add: b_def)
  then have "Suc m * 5 div 4 = 5 * a + 5 * Suc b div 4"
    unfolding m by presburger
  moreover have "b = 0 \<or> b = 1 \<or> b = 2 \<or> b = 3" using \<open>b < 4\<close> by linarith
  ultimately show ?thesis
    by (elim disjE; simp add: padded_size_def Let_def a_def [symmetric] mod_Suc)
qed

lemma length_z85_text [ws_len]: "length (z85_text s) = padded_size (length s)"
proof (cases "s = []")
  case False
  obtain m where m: "length s = Suc m" using False by (cases s) simp_all
  with z85_text_Cons [OF False] show ?thesis by (simp add: padded_size_Suc)
qed (simp add: z85_text_def padded_size_def)

lemma frame_value_sum:
  fixes a b c d :: byte
  shows "Z85_frame_value [a,b,c,d] = push_bit 24 (ucast a) + push_bit 16 (ucast b) + push_bit 8 (ucast c) + ucast d"
proof -
  have "push_bit 24 (ucast a) AND (push_bit 16 (ucast b) :: u32) = 0"
    "(push_bit 24 (ucast a) OR push_bit 16 (ucast b)) AND (push_bit 8 (ucast c) :: u32) = 0"
    "(push_bit 24 (ucast a) OR push_bit 16 (ucast b) OR push_bit 8 (ucast c)) AND (ucast d :: u32) = 0"
    by (rule bit_word_eqI; auto simp: bit_simps dest: bit_imp_le_length)+
  then show ?thesis
    by (simp add: Z85_frame_value_def disjunctive_add_eq_or or.assoc)
qed

lemma frame_value_positional:
  "unat (Z85_frame_value [a, b, c, d]) = ((unat a * 256 + unat b) * 256 + unat c) * 256 + unat d"
proof -
  have lt: "unat a < 256" "unat b < 256" "unat c < 256" "unat d < 256"
    using unsigned_less [of a] unsigned_less [of b] unsigned_less [of c] unsigned_less [of d] by simp_all
  have u: "unat (ucast x :: u32) = unat x" if "unat (x :: byte) < 256" for x
    using that by (simp add: unsigned_ucast_eq take_bit_nat_eq_self)
  have w: "(ucast x :: u32) = of_nat (unat x)" for x :: byte by simp
  have "Z85_frame_value [a, b, c, d] =
      (of_nat (((unat a * 256 + unat b) * 256 + unat c) * 256 + unat d) :: u32)"
    by (simp add: frame_value_sum push_bit_eq_mult algebra_simps)
  moreover have "((unat a * 256 + unat b) * 256 + unat c) * 256 + unat d < 2 ^ 32"
    using lt by simp
  ultimately show ?thesis by (simp only: unsigned_of_nat) (simp add: take_bit_nat_eq_self)
qed

section \<open>Safety of the decoder on arbitrary text\<close>

text \<open>Characters the table lookup can index without leaving \<open>base256\<close>.\<close>

definition printable :: "char \<Rightarrow> bool" where
  "printable c \<longleftrightarrow> 32 \<le> code c \<and> code c < 128"

lemma base85_printable: "c \<in> set base85 \<Longrightarrow> printable c"
  by (auto simp: base85_def printable_def)

lemma base256_at_printable: "printable c \<Longrightarrow> \<exists>v. base256_at c = Inr v"
proof -
  assume c: "printable c"
  then have "(of_nat (code c) - 32 :: u32) = of_nat (code c - 32)"
    by (simp add: printable_def of_nat_diff)
  moreover have "unat ((of_nat (code c - 32) :: u32) AND 127) = (code c - 32) mod 128"
  proof -
    have "(of_nat (code c - 32) :: u32) AND 127 = take_bit 7 (of_nat (code c - 32))"
      by (simp add: take_bit_eq_mask mask_numeral)
    then have "unat ((of_nat (code c - 32) :: u32) AND 127) = take_bit 7 (take_bit 32 (code c - 32))"
      by (simp only: unsigned_take_bit_eq unsigned_of_nat) simp
    then have "unat ((of_nat (code c - 32) :: u32) AND 127) = take_bit 7 (code c - 32)"
      by (simp add: take_bit_take_bit del: take_bit_of_nat)
    then show ?thesis by (simp add: take_bit_eq_mod)
  qed
  moreover have "(code c - 32) mod 128 = code c - 32" "code c - 32 < 96"
    using c by (auto simp: printable_def)
  ultimately have "unat ((of_nat (code c) - 32 :: u32) AND 127) < 96" by simp
  then show ?thesis by (simp add: base256_at_def Let_def)
qed

lemma Z85_decode_frame_printable:
  "list_all printable [a, b, c, d, e] \<Longrightarrow> \<exists>dst. Z85_decode_frame [a, b, c, d, e] = Inr dst"
  by (auto simp: Z85_decode_frame_def Let_def dest!: base256_at_printable)

lemma decode_frames_printable: "list_all printable t \<Longrightarrow> \<exists>d. decode_frames t = Inr d"
proof (induction t rule: decode_frames.induct)
  case (1 a b c d e r)
  then obtain rest where "decode_frames r = Inr rest" by auto
  moreover obtain dst where "Z85_decode_frame [a, b, c, d, e] = Inr dst"
    using 1 Z85_decode_frame_printable by force
  ultimately show ?case by simp
qed simp_all

lemma ucast_byte: "(ucast w :: u32) = of_nat (unat w)" for w :: byte
  by simp

lemma count_byte_check:
  "3 < (ucast (of_nat (code c) - 48 :: byte) - 1 :: u32) \<longleftrightarrow> \<not> (49 \<le> code c \<and> code c \<le> 52)"
proof -
  define n where "n = code c"
  have n: "n < 256" by (simp add: n_def)
  define p where "p = (if 48 \<le> n then n - 48 else n + 208)"
  have pn: "(n + 208) mod 256 = p"
  proof (cases "48 \<le> n")
    case True
    then have "n + 208 = (n - 48) + 256" by simp
    then show ?thesis using True n by (simp only: mod_add_self2) (simp add: p_def)
  qed (simp add: p_def)
  have "(of_nat n - 48 :: byte) = of_nat (n + 208)" by simp
  then have "unat (of_nat n - 48 :: byte) = (n + 208) mod 256"
    by (simp only: unsigned_of_nat) (simp add: take_bit_eq_mod)
  then have u: "(ucast (of_nat n - 48 :: byte) :: u32) = of_nat p"
    using ucast_byte [of "of_nat n - 48"] by (simp only: pn)
  have p: "p < 256" using n by (auto simp: p_def)
  show ?thesis
  proof (cases "p = 0")
    case True
    then have "n = 48" using n by (auto simp: p_def split: if_splits)
    then show ?thesis by (simp add: n_def [symmetric])
  next
    case False
    then have "(of_nat p - 1 :: u32) = of_nat (p - 1)" by (simp add: of_nat_diff)
    moreover have "unat (of_nat (p - 1) :: u32) = p - 1"
      using p by (simp only: unsigned_of_nat) (simp add: take_bit_nat_eq_self)
    ultimately have "3 < (of_nat p - 1 :: u32) \<longleftrightarrow> 3 < p - 1"
      by (simp add: word_less_nat_alt)
    moreover have "3 < p - 1 \<longleftrightarrow> \<not> (49 \<le> n \<and> n \<le> 52)"
      using n False by (auto simp: p_def split: if_splits)
    ultimately show ?thesis using u by (simp only: n_def)
  qed
qed

lemma count_byte_value:
  assumes "49 \<le> code c" and "code c \<le> 52"
  shows "unat (of_nat (code c) - 48 :: byte) = code c - 48"
proof -
  have "(of_nat (code c) - 48 :: byte) = of_nat (code c - 48)" using assms by (simp add: of_nat_diff)
  then show ?thesis using assms by (simp only: unsigned_of_nat) (simp add: take_bit_nat_eq_self)
qed

lemma Z85_decode_with_padding_bound_text:
  assumes "length body * 4 < 2 ^ 63"
  obtains b where "Z85_decode_with_padding_bound (Some (c # body)) (of_nat (Suc (length body))) = Inr b"
    and "unat b = (if 49 \<le> code c \<and> code c \<le> 52 then length body * 4 div 5 + (code c - 48) - 4 else 0)"
proof -
  let ?n = "length body" and ?pad = "of_nat (code c) - 48 :: byte"
  have "unat (of_nat (Suc ?n) :: u64) = Suc ?n" by (rule unat_size) (use assms in simp)
  then have nz: "(of_nat (Suc ?n) :: u64) \<noteq> 0" by (metis unsigned_0 nat.distinct(2))
  have b: "Z85_decode_with_padding_bound (Some (c # body)) (of_nat (Suc ?n)) =
      (if 49 \<le> code c \<and> code c \<le> 52 then
         if Z85_decode_bound (of_nat ?n) + ucast ?pad < 4 then Inr 0 else Inr (Z85_decode_bound (of_nat ?n) + ucast ?pad - 4)
       else Inr 0)"
    using nz by (simp add: Z85_decode_with_padding_bound_def read_buf_def Let_def count_byte_check)
  show thesis
  proof (cases "49 \<le> code c \<and> code c \<le> 52")
    case True
    let ?w = "Z85_decode_bound (of_nat ?n) + (ucast ?pad :: u64)"
    have "unat (ucast ?pad :: u64) = code c - 48"
      using count_byte_value [of c] True by (auto simp: unsigned_ucast_eq intro!: take_bit_nat_eq_self)
    moreover have "unat (Z85_decode_bound (of_nat ?n)) = ?n * 4 div 5" by (rule unat_decode_bound) (use assms in simp)
    moreover have "?n * 4 div 5 < 2 ^ 62" using assms by simp
    moreover have "code c - 48 \<le> 4" using True by arith
    ultimately have "unat (Z85_decode_bound (of_nat ?n)) = ?n * 4 div 5"
      "unat (ucast ?pad :: u64) = code c - 48" and "?n * 4 div 5 + (code c - 48) < 2 ^ 64" by simp_all
    then have w: "unat ?w = ?n * 4 div 5 + (code c - 48)"
      by (simp only: unat_word_ariths(1) len_of_numeral_defs mod_less) simp
    show thesis
    proof (cases "?w < 4")
      case small: True
      then have "?n * 4 div 5 + (code c - 48) < 4" using w by (simp add: word_less_nat_alt)
      then show thesis using that [of 0] b True small by simp
    next
      case False
      then have "unat (?w - 4) = unat ?w - 4" by (simp add: unat_sub not_less)
      then show thesis using that [of "?w - 4"] b True False w by simp
    qed
  qed (use that [of 0] b in auto)
qed

lemma Z85_decode_bound_z85_text:
  assumes "p \<noteq> []" and "length p * 5 < 2 ^ 62"
  obtains b where "Z85_decode_with_padding_bound (Some (z85_text p)) (of_nat (length (z85_text p))) = Inr b"
    and "unat b = length p"
proof -
  obtain c body where t: "z85_text p = c # body" using z85_text_Cons(1) [OF assms(1)] by (cases "z85_text p") auto
  obtain m where m: "length p = Suc m" using assms(1) by (cases p) simp_all
  then have body: "length body = 5 * Suc (m div 4)"
    using length_z85_text [of p] by (simp add: t padded_size_Suc)
  have small: "length body * 4 < 2 ^ 63" using assms(2) unfolding body m by simp
  obtain b where b: "Z85_decode_with_padding_bound (Some (c # body)) (of_nat (Suc (length body))) = Inr b"
      "unat b = (if 49 \<le> code c \<and> code c \<le> 52 then length body * 4 div 5 + (code c - 48) - 4 else 0)"
    by (rule Z85_decode_with_padding_bound_text [OF small])
  have dec: "Z85_decode_with_padding True (Some (c # body)) True (Suc (length body)) = Inr p"
    using Z85_decode_z85_text [OF assms(1), of True] by (simp add: t)
  have digit: "49 \<le> code c \<and> code c \<le> 52"
    using dec Z85_decode_with_padding_text [OF body, of True c] assms(1) by (auto simp: c_assert_def split: if_splits)
  with dec Z85_decode_with_padding_text [OF body, of True c]
  obtain d where d: "decode_frames body = Inr d" "p = take (4 * (m div 4) + (code c - 48)) d"
    by (auto simp: bind_fault_Inr)
  have "length d = 4 * (m div 4) + 4" using length_decode_frames [OF d(1)] body by simp
  moreover have "code c - 48 \<le> 4" using digit by arith
  ultimately have "length p = 4 * (m div 4) + (code c - 48)" by (simp add: d(2))
  then have "unat b = length p" using b(2) digit body by simp
  with b(1) show thesis using that by (simp add: t)
qed

lemma Z85_decode_with_padding_single:
  "Z85_decode_with_padding nd (Some [c]) True 1 =
    (if 49 \<le> code c \<and> code c \<le> 52 then Inl OOB_Read else c_assert nd False (Inr []))"
  by (auto simp: Z85_decode_with_padding_def c_assert_def read_buf_def Let_def count_digit_check
      Z85_decode_unsafe.simps [of "[c]" 1])

section \<open>Properties of the codec\<close>

text \<open>C32: the multiplication and shifts of DIV85 are division by 85 on every 32-bit number.\<close>

theorem DIV85_is_division: "DIV85 number = number div 85"
  by (simp add: word_unat_eq_iff unat_DIV85 unat_div_distrib)

text \<open>A frame of four bytes is written as the five base-85 digits, most significant first, of
  the big-endian number the bytes stand for.\<close>

theorem Z85_encode_frame_positional:
  "\<exists>ds. Z85_encode_frame [a, b, c, d] = map ((!) base85) ds \<and> length ds = 5 \<and> list_all (\<lambda>i. i < 85) ds \<and>
    foldl (\<lambda>n i. n * 85 + i) 0 ds = foldl (\<lambda>n x. n * 256 + unat x) 0 [a, b, c, d]"
proof -
  let ?v = "unat (Z85_frame_value [a, b, c, d])"
  obtain d0 d1 d2 d3 d4 where d: "digits85 ?v = [d0, d1, d2, d3, d4]"
    by (simp add: digits85_def)
  have "?v < 2 ^ 32" using unsigned_less [of "Z85_frame_value [a, b, c, d]"] by simp
  then have "list_all (\<lambda>i. i < 85) (digits85 ?v)"
    using digits85_bound by (simp add: list_all_iff)
  then show ?thesis
    using digits85_horner [OF d] d
    by (intro exI [of _ "digits85 ?v"])
      (simp add: Z85_encode_frame_digits frame_value_positional algebra_simps)
qed

text \<open>C15: padded round trip. Every non-empty message whose size can be multiplied by five in
  \<open>size_t\<close> is encoded without a fault, to exactly as many characters as
  \<open>Z85_encode_with_padding_bound\<close> promises, all of them Z85 digits, and the decoder gives the message
  back.\<close>

theorem Z85_padding_roundtrip:
  assumes "msg \<noteq> []" and "length msg * 5 < 2 ^ 64"
  shows "\<exists>t. Z85_encode_with_padding nd (Some msg) True (length msg) = Inr t \<and>
    length t = unat (Z85_encode_with_padding_bound (of_nat (length msg))) \<and> set t \<subseteq> set base85 \<and>
    Z85_decode_with_padding nd (Some t) True (length t) = Inr msg"
  using Z85_encode_with_padding_text length_z85_text z85_text_alphabet Z85_decode_z85_text [OF assms(1)]
    unat_padding_bound [OF assms(2)] by metis

theorem Z85_padding_roundtrip_witness:
  "\<exists>t. Z85_encode_with_padding False (Some [0x86, 0x4F, 0xD2, 0x6F, 0xB5]) True 5 = Inr t \<and> length t = 11 \<and>
    Z85_decode_with_padding False (Some t) True 11 = Inr [0x86, 0x4F, 0xD2, 0x6F, 0xB5]"
proof -
  let ?m = "[0x86, 0x4F, 0xD2, 0x6F, 0xB5] :: byte list"
  have l: "length ?m = 5" "unat (Z85_encode_with_padding_bound (of_nat 5)) = 11"
    by (simp, subst unat_padding_bound) (simp_all add: padded_size_def Let_def)
  from Z85_padding_roundtrip [of ?m False] show ?thesis unfolding l by fastforce
qed

text \<open>C33: the plain codec on every size. A message of a whole number of frames survives \<open>Z85_encode\<close> and
  \<open>Z85_decode\<close>, with the sizes of the two bounds. A size that is no multiple of four, or of five for
  the decoder, is refused: without assertions nothing is written and 0 returned, as z85.h says; with
  them the program aborts.\<close>

theorem Z85_plain_roundtrip:
  "(if length msg mod 4 = 0
    then length msg * 5 < 2 ^ 64 \<longrightarrow>
      (\<exists>t. Z85_encode nd (Some msg) True (length msg) = Inr t \<and> length t = unat (Z85_encode_bound (of_nat (length msg))) \<and>
        Z85_decode nd (Some t) True (length t) = Inr msg \<and> unat (Z85_decode_bound (of_nat (length t))) = length msg)
    else Z85_encode nd (Some msg) True (length msg) = (if nd then Inr [] else Inl Assert_Failed)) \<and>
   (length txt mod 5 \<noteq> 0 \<longrightarrow> Z85_decode nd (Some txt) True (length txt) = (if nd then Inr [] else Inl Assert_Failed))"
proof (intro conjI)
  show "if length msg mod 4 = 0
    then length msg * 5 < 2 ^ 64 \<longrightarrow>
      (\<exists>t. Z85_encode nd (Some msg) True (length msg) = Inr t \<and> length t = unat (Z85_encode_bound (of_nat (length msg))) \<and>
        Z85_decode nd (Some t) True (length t) = Inr msg \<and> unat (Z85_decode_bound (of_nat (length t))) = length msg)
    else Z85_encode nd (Some msg) True (length msg) = (if nd then Inr [] else Inl Assert_Failed)"
  proof (cases "length msg mod 4 = 0")
    case True
    then obtain n where n: "length msg = 4 * n" by (auto simp: mod_eq_0_iff_dvd elim: dvdE)
    then have t: "length (encode_frames msg) = 5 * n" by (simp add: z85_frames.codec_length)
    have "Z85_decode_unsafe (encode_frames msg) 0 (int (5 * n)) = Inr msg"
      using Z85_decode_unsafe_frames [of 0 n "encode_frames msg"] t n by (simp add: z85_frames.codec_roundtrip)
    then show ?thesis
      using True Z85_encode_unsafe_whole [OF n] n t unat_encode_bound [of "4 * n"] unat_decode_bound [of "5 * n"]
      by (auto simp: Z85_encode_def Z85_decode_def)
  qed (simp add: Z85_encode_def c_assert_def)
  show "length txt mod 5 \<noteq> 0 \<longrightarrow> Z85_decode nd (Some txt) True (length txt) = (if nd then Inr [] else Inl Assert_Failed)"
    by (simp add: Z85_decode_def c_assert_def)
qed

theorem Z85_plain_roundtrip_witness:
  "(\<exists>t. Z85_encode False (Some [1, 2, 3, 4]) True 4 = Inr t \<and> length t = 5 \<and>
     Z85_decode False (Some t) True 5 = Inr [1, 2, 3, 4]) \<and> Z85_decode True (Some ''abcd'') True 4 = Inr []"
proof -
  have l: "length ([1, 2, 3, 4] :: byte list) = 4" "unat (Z85_encode_bound (of_nat 4)) = 5"
    by (simp, subst unat_encode_bound) simp_all
  have "(4 :: nat) mod 4 = 0" "(4 :: nat) * 5 < 2 ^ 64" by simp_all
  with Z85_plain_roundtrip [of "[1, 2, 3, 4]" False] have
    "\<exists>t. Z85_encode False (Some [1, 2, 3, 4]) True 4 = Inr t \<and> length t = 5 \<and> Z85_decode False (Some t) True (length t) = Inr [1, 2, 3, 4]"
    unfolding l by auto
  moreover have "Z85_decode True (Some ''abcd'') True 4 = Inr []"
  proof -
    have "length ''abcd'' = 4" "length ''abcd'' mod 5 \<noteq> 0" by simp_all
    then show ?thesis using Z85_plain_roundtrip [of "[]" True "''abcd''"] by metis
  qed
  ultimately show ?thesis by metis
qed



text \<open>The bounds do wrap around: for \<open>2 ^ 62\<close> bytes the encoder would write more than the bound.\<close>

theorem Z85_bound_wraps:
  "Z85_encode_bound (2 ^ 62) = 2 ^ 60" "padded_size (2 ^ 62) = 5 * 2 ^ 60 + 1 + (5 - 5 * 2 ^ 60 mod 5) mod 5"
  by (simp_all add: Z85_encode_bound_def padded_size_def)

text \<open>C35: the decoder on printable text of at least one frame and a whole number of frames. With a count
  digit from 1 to 4 no read leaves the text or the table, no assertion fails, and exactly as many
  bytes are written as the bound computes. With any other first character nothing is written and 0
  returned without assertions, and the program aborts with them.\<close>

theorem Z85_decode_total:
  assumes "length body = 5 * Suc k" and "list_all printable body" and "length body * 4 < 2 ^ 63"
  shows "if 49 \<le> code c \<and> code c \<le> 52
    then \<exists>d. Z85_decode_with_padding nd (Some (c # body)) True (Suc (length body)) = Inr d \<and>
      length d = 4 * k + (code c - 48) \<and> Z85_decode_with_padding_bound (Some (c # body)) (of_nat (Suc (length body))) = Inr (of_nat (length d))
    else Z85_decode_with_padding nd (Some (c # body)) True (Suc (length body)) = (if nd then Inr [] else Inl Assert_Failed)"
proof (cases "49 \<le> code c \<and> code c \<le> 52")
  case True
  obtain d where d: "decode_frames body = Inr d" using decode_frames_printable [OF assms(2)] ..
  have "length d = 4 * k + 4" using length_decode_frames [OF d] assms(1) by simp
  then moreover have "code c - 48 \<le> 4" using True by arith
  ultimately have l: "length (take (4 * k + (code c - 48)) d) = 4 * k + (code c - 48)" by simp
  obtain b where b: "Z85_decode_with_padding_bound (Some (c # body)) (of_nat (Suc (length body))) = Inr b"
      "unat b = (if 49 \<le> code c \<and> code c \<le> 52 then length body * 4 div 5 + (code c - 48) - 4 else 0)"
    by (rule Z85_decode_with_padding_bound_text [OF assms(3)])
  have "unat b = 4 * k + (code c - 48)" using b(2) True assms(1) by simp
  then have "b = of_nat (4 * k + (code c - 48))" by (rule unat_size_eq)
  then show ?thesis using True l d b(1) Z85_decode_with_padding_text [OF assms(1), of nd c] by simp
next
  case False
  then show ?thesis using Z85_decode_with_padding_text [OF assms(1), of nd c] by (auto simp: c_assert_def)
qed

theorem Z85_decode_total_witness:
  "(\<exists>d. Z85_decode_with_padding False (Some ''1 ~~~~'') True 6 = Inr d \<and> length d = 1) \<and>
   Z85_decode_with_padding False (Some ''9World'') True 6 = Inl Assert_Failed"
proof -
  have p: "list_all printable '' ~~~~''" "list_all printable ''World''" by (simp_all add: printable_def)
  have "\<exists>d. Z85_decode_with_padding False (Some ''1 ~~~~'') True (Suc (length '' ~~~~'')) = Inr d \<and> length d = 1"
    using Z85_decode_total [OF _ p(1), of 0 "CHR ''1''" False] by auto
  moreover have "Z85_decode_with_padding False (Some ''9World'') True (Suc (length ''World'')) = Inl Assert_Failed"
    using Z85_decode_total [OF _ p(2), of 0 "CHR ''9''" False] by simp
  ultimately show ?thesis by (simp add: eval_nat_numeral)
qed

text \<open>C36: a one-character text with a valid count digit passes every check of the decoder, whose end
  pointer then lies before its start pointer: the loop runs out of the text. Both the assertion and
  the guard test the size modulo 5 only.\<close>

theorem Z85_decode_single_digit_overruns:
  "c \<in> set ''1234'' \<Longrightarrow> Z85_decode_with_padding nd (Some [c]) True 1 = Inl OOB_Read"
  using Z85_decode_with_padding_single [of nd c] by auto

theorem Z85_decode_single_digit_overruns_witness:
  "Z85_decode_with_padding True (Some ''4'') True 1 = Inl OOB_Read"
  using Z85_decode_single_digit_overruns [of "CHR ''4''" True] by simp

end
