(* ===== verification/Searest_Nodelist.thy ===== *)
theory Searest_Nodelist
  imports WS_Prelude "HOL-Library.Sublist"
begin

text \<open>
  The node list of the REST framework, searest_nodelist.c, with the structures it works on
  (searest.h). The linked list is a list in order of the \<open>next\<close> pointers; a node pointer is its
  position. Every function of the file takes the list's mutex for its whole body, so each is one
  atomic step here. A callback and the opaque data pointer of a node are type parameters and
  an optional number.
\<close>

type_synonym ptr = "nat option"

record 'cb srn =
  num :: u32
  disabled :: bool
  root :: string
  cb :: 'cb
  nud :: ptr
  last_atime :: int
  acount :: u64

record ('cb, 'acb) sri =
  addr_cb :: "'acb option"
  mhd_srv :: bool
  https_cert :: "string option"
  https_key :: "string option"
  https_ca :: "string option"
  ssl_flag :: bool
  internal_select :: bool
  inactivity_timeout :: int
  conn_limit :: u32
  min_url_len :: int
  max_url_len :: int
  max_content_length :: u64
  nodelist_head :: "'cb srn list"

section \<open>Operations\<close>

fun find_from :: "nat \<Rightarrow> 'cb srn list \<Rightarrow> string \<Rightarrow> nat option" where
  "find_from i [] rootname = None"
| "find_from i (cursor # next) rootname =
     (let nodelen = length (root cursor)
      in if strncmp_eq rootname (root cursor) nodelen then Some i
         else find_from (Suc i) next rootname)"

definition searest_node_find :: "('cb, 'acb) sri \<Rightarrow> string \<Rightarrow> nat option" where
  "searest_node_find ws rootname = find_from 0 (nodelist_head ws) rootname"

definition searest_node_len :: "'cb srn \<Rightarrow> nat" where
  "searest_node_len n = length (root n)"

definition update_node :: "('cb srn \<Rightarrow> 'cb srn) \<Rightarrow> nat \<Rightarrow> ('cb, 'acb) sri \<Rightarrow> ('cb, 'acb) sri" where
  "update_node f i ws =
     ws\<lparr>nodelist_head := (nodelist_head ws)[i := f (nodelist_head ws ! i)]\<rparr>"

definition searest_node_set_access :: "int \<Rightarrow> nat \<Rightarrow> ('cb, 'acb) sri \<Rightarrow> ('cb, 'acb) sri" where
  "searest_node_set_access now =
     update_node (\<lambda>n. n\<lparr>last_atime := now, acount := acount n + 1\<rparr>)"

definition searest_node_set_disabled :: "('cb, 'acb) sri \<Rightarrow> string \<Rightarrow> int \<times> ('cb, 'acb) sri" where
  "searest_node_set_disabled ws rootname =
     (case searest_node_find ws rootname of
        None \<Rightarrow> (1, ws)
      | Some i \<Rightarrow> (0, update_node (\<lambda>n. n\<lparr>disabled := True\<rparr>) i ws))"

definition searest_node_set_enabled :: "('cb, 'acb) sri \<Rightarrow> string \<Rightarrow> int \<times> ('cb, 'acb) sri" where
  "searest_node_set_enabled ws rootname =
     (case searest_node_find ws rootname of
        None \<Rightarrow> (1, ws)
      | Some i \<Rightarrow> (0, update_node (\<lambda>n. n\<lparr>disabled := False\<rparr>) i ws))"

definition searest_node_is_disabled :: "'cb srn \<Rightarrow> bool" where
  "searest_node_is_disabled n = disabled n"

definition searest_node_add ::
    "('cb, 'acb) sri \<Rightarrow> string option \<Rightarrow> 'cb option \<Rightarrow> ptr \<Rightarrow> int \<times> ('cb, 'acb) sri" where
  "searest_node_add ws rootname func node_user_data =
     (case rootname of None \<Rightarrow> (1, ws)
      | Some r \<Rightarrow>
        (case func of None \<Rightarrow> (2, ws)
         | Some f \<Rightarrow>
            let n = (if nodelist_head ws = [] then 1 else num (last (nodelist_head ws)) + 1);
                node = \<lparr>num = n, disabled = False, root = r, cb = f, nud = node_user_data,
                        last_atime = 0, acount = 0\<rparr>
            in (0, ws\<lparr>nodelist_head := nodelist_head ws @ [node]\<rparr>)))"

definition searest_node_destroy_all :: "('cb, 'acb) sri \<Rightarrow> 'cb srn list" where
  \<comment> \<open>the nodes freed, in the order of the loop; the head pointer itself is left as it is\<close>
  "searest_node_destroy_all ws = nodelist_head ws"

definition searest_node_count :: "('cb, 'acb) sri \<Rightarrow> u32" where
  "searest_node_count ws = fold (\<lambda>cursor retval. num cursor) (nodelist_head ws) 0"

section \<open>Routing tables\<close>

text \<open>
  What the request handler relies on: looking a URL up gives the first entry whose root is a prefix
  of it. A table whose roots are pairwise no prefixes of each other routes every URL to the one
  entry it belongs to, whatever the order of the entries.
\<close>

definition prefix_free :: "string list \<Rightarrow> bool" where
  "prefix_free rs \<longleftrightarrow> (\<forall>i < length rs. \<forall>j < length rs. i \<noteq> j \<longrightarrow> \<not> prefix (rs ! i) (rs ! j))"

locale route_table =
  fixes lookup :: "'t \<Rightarrow> string \<Rightarrow> nat option" and roots :: "'t \<Rightarrow> string list"
  assumes lookup_iff: "lookup t u = Some i \<longleftrightarrow>
      i < length (roots t) \<and> prefix (roots t ! i) u \<and> (\<forall>j < i. \<not> prefix (roots t ! j) u)"
begin

lemma lookup_None: "lookup t u = None \<longleftrightarrow> (\<forall>r \<in> set (roots t). \<not> prefix r u)"
proof
  assume none: "lookup t u = None"
  show "\<forall>r \<in> set (roots t). \<not> prefix r u"
  proof (rule ccontr)
    assume "\<not> (\<forall>r \<in> set (roots t). \<not> prefix r u)"
    then have ex: "\<exists>i. i < length (roots t) \<and> prefix (roots t ! i) u"
      by (auto simp: in_set_conv_nth)
    define i where "i = (LEAST i. i < length (roots t) \<and> prefix (roots t ! i) u)"
    from LeastI_ex [OF ex] have "i < length (roots t) \<and> prefix (roots t ! i) u"
      unfolding i_def .
    moreover have "\<forall>j < i. \<not> prefix (roots t ! j) u"
      using not_less_Least [of _ "\<lambda>i. i < length (roots t) \<and> prefix (roots t ! i) u"] calculation
      unfolding i_def by (meson less_trans)
    ultimately show False using none lookup_iff [of t u i] by simp
  qed
next
  assume no: "\<forall>r \<in> set (roots t). \<not> prefix r u"
  show "lookup t u = None"
  proof (cases "lookup t u")
    case (Some i)
    then have "i < length (roots t)" "prefix (roots t ! i) u" by (simp_all add: lookup_iff)
    then show ?thesis using no nth_mem by blast
  qed
qed

lemma lookup_prefix_free:
  assumes "prefix_free (roots t)" and "i < length (roots t)" and "prefix (roots t ! i) u"
  shows "lookup t u = Some i"
proof -
  have "\<not> prefix (roots t ! j) u" if "j < i" for j
    using that assms prefix_same_cases unfolding prefix_free_def by (metis less_trans nat_neq_iff)
  with assms show ?thesis by (simp add: lookup_iff)
qed

end

lemma find_from_iff:
  "find_from k ns u = Some i \<longleftrightarrow>
    k \<le> i \<and> i - k < length ns \<and> prefix (root (ns ! (i - k))) u \<and>
    (\<forall>j < i - k. \<not> prefix (root (ns ! j)) u)"
proof (induction ns arbitrary: k)
  case (Cons n ns)
  have pre: "strncmp_eq u (root n) (length (root n)) \<longleftrightarrow> prefix (root n) u"
    by (auto simp: strncmp_eq_prefix prefix_def)
  show ?case
  proof (cases "prefix (root n) u")
    case True
    then show ?thesis by (auto simp: pre Let_def) (metis less_Suc_eq_0_disj nth_Cons_0 diff_is_0_eq le_antisym not_gr_zero)
  next
    case False
    have split: "(\<forall>j < i - k. \<not> prefix (root ((n # ns) ! j)) u) \<longleftrightarrow>
        (\<forall>j < i - Suc k. \<not> prefix (root (ns ! j)) u)" if "Suc k \<le> i"
    proof -
      have "i - k = Suc (i - Suc k)" using that by simp
      then show ?thesis using False by (auto simp: less_Suc_eq_0_disj)
    qed
    have "i = k \<Longrightarrow> prefix (root ((n # ns) ! (i - k))) u \<Longrightarrow> False" using False by simp
    moreover have "Suc k \<le> i \<Longrightarrow> (n # ns) ! (i - k) = ns ! (i - Suc k)"
      by (simp add: nth_Cons')
    ultimately show ?thesis
      using False split by (auto simp: pre Let_def Cons.IH dest: le_neq_implies_less)
  qed
qed simp

interpretation nodes: route_table searest_node_find "\<lambda>ws. map root (nodelist_head ws)"
  by unfold_locales (auto simp: searest_node_find_def find_from_iff)

section \<open>Registration\<close>

text \<open>The nodes are numbered from 1 in the order of their registration.\<close>

definition nodes_numbered :: "('cb, 'acb) sri \<Rightarrow> bool" where
  "nodes_numbered ws \<longleftrightarrow>
     (\<forall>i < length (nodelist_head ws). num (nodelist_head ws ! i) = of_nat (Suc i))"

lemma node_add_Some:
  "searest_node_add ws (Some r) (Some f) ud = (0, ws\<lparr>nodelist_head := nodelist_head ws @
     [\<lparr>num = (if nodelist_head ws = [] then 1 else num (last (nodelist_head ws)) + 1), disabled = False,
       root = r, cb = f, nud = ud, last_atime = 0, acount = 0\<rparr>]\<rparr>)"
  by (simp add: searest_node_add_def Let_def)

lemma nodes_numbered_last:
  assumes "nodes_numbered ws" and "nodelist_head ws \<noteq> []"
  shows "num (last (nodelist_head ws)) = of_nat (length (nodelist_head ws))"
proof -
  have "num (nodelist_head ws ! (length (nodelist_head ws) - 1)) =
      of_nat (Suc (length (nodelist_head ws) - 1))"
    using assms unfolding nodes_numbered_def by (metis diff_less length_greater_0_conv zero_less_one)
  then show ?thesis using assms(2) by (simp add: last_conv_nth flip: of_nat_Suc)
qed

lemma nodes_numbered_add:
  assumes "nodes_numbered ws"
  shows "nodes_numbered (snd (searest_node_add ws r f ud))"
proof (cases "r = None \<or> f = None")
  case False
  then obtain r' f' where "r = Some r'" "f = Some f'" by auto
  with assms nodes_numbered_last [OF assms] show ?thesis
    by (auto simp: node_add_Some nodes_numbered_def nth_append less_Suc_eq)
qed (use assms in \<open>auto simp: searest_node_add_def split: option.split\<close>)

lemma node_count_last:
  "searest_node_count ws = (if nodelist_head ws = [] then 0 else num (last (nodelist_head ws)))"
proof -
  have "fold (\<lambda>cursor retval. num cursor) ns k = (if ns = [] then k else num (last ns))"
    for ns :: "'a srn list" and k
    by (induction ns arbitrary: k) auto
  then show ?thesis by (simp add: searest_node_count_def)
qed

lemma nodes_numbered_count:
  "nodes_numbered ws \<Longrightarrow> searest_node_count ws = of_nat (length (nodelist_head ws))"
  by (auto simp: node_count_last nodes_numbered_last)

lemma update_node_simps [simp]:
  "length (nodelist_head (update_node f i ws)) = length (nodelist_head ws)"
  by (simp add: update_node_def)

lemma roots_set_access [simp]:
  "map root (nodelist_head (searest_node_set_access now i ws)) = map root (nodelist_head ws)"
  by (cases "i < length (nodelist_head ws)")
    (auto simp: searest_node_set_access_def update_node_def map_update list_update_beyond
      intro!: list_update_same_conv [THEN iffD2])

text \<open>C30: registering nodes. Whatever is registered, in whatever order, the nodes stay numbered from
  1, a rejected registration changes nothing, and the count is the number of nodes.\<close>

theorem node_registration:
  assumes "nodes_numbered ws" and "searest_node_add ws rootname func ud = (z, ws')"
  shows "nodes_numbered ws' \<and> searest_node_count ws' = of_nat (length (nodelist_head ws')) \<and>
    (z \<noteq> 0 \<longrightarrow> ws' = ws) \<and>
    (z = 0 \<longrightarrow> map root (nodelist_head ws') = map root (nodelist_head ws) @ [the rootname])"
proof -
  have "nodes_numbered ws'" using nodes_numbered_add [OF assms(1), of rootname func ud] assms(2) by simp
  then show ?thesis
    using assms(2) nodes_numbered_count
    by (auto simp: searest_node_add_def Let_def split: option.splits)
qed

theorem node_registration_witness:
  "\<exists>ws'. searest_node_add
      \<lparr>addr_cb = (None :: unit option), mhd_srv = False, https_cert = None, https_key = None, https_ca = None,
       ssl_flag = False, internal_select = False, inactivity_timeout = 0, conn_limit = 1020,
       min_url_len = 11, max_url_len = 139, max_content_length = 20, nodelist_head = []\<rparr>
      (Some ''/config/'') (Some True) None = (0, ws') \<and> searest_node_count ws' = 1"
proof -
  let ?ws = "\<lparr>addr_cb = (None :: unit option), mhd_srv = False, https_cert = None, https_key = None, https_ca = None,
       ssl_flag = False, internal_select = False, inactivity_timeout = 0, conn_limit = 1020,
       min_url_len = 11, max_url_len = 139, max_content_length = 20, nodelist_head = []\<rparr>"
  obtain ws' where a: "searest_node_add ?ws (Some ''/config/'') (Some True) None = (0, ws')"
    by (simp add: searest_node_add_def)
  have "nodes_numbered ?ws" by (simp add: nodes_numbered_def)
  from node_registration [OF this a] a show ?thesis
    by (auto simp: searest_node_add_def Let_def)
qed

end
