(* ===== verification/Searest.thy ===== *)
theory Searest
  imports Searest_Nodelist
begin

text \<open>
  The REST framework over libmicrohttpd, searest.c: the per-request record \<open>srci_t\<close> and its
  accessors, the access handler \<open>uhd_request_started\<close> (called once for the headers, then once per
  piece of upload data, then once more to answer), the completion handler, the connection filter
  and the configuration and life cycle of a server instance.

  libmicrohttpd is not part of the sources. A connection carries what the code asks it for (the
  peer address, the header lookup, the result of queueing a response); starting the daemon is a
  parameter. Allocation is assumed to succeed. The callbacks of the application work on a state of
  type \<open>'w\<close>, the data behind the \<open>sri_user_data\<close> pointer.
\<close>

datatype mhd_result = MHD_NO | MHD_YES

definition METHOD_GET :: int where "METHOD_GET = 1"
definition METHOD_POST :: int where "METHOD_POST = 2"
definition METHOD_PUT :: int where "METHOD_PUT = 3"
definition METHOD_DEL :: int where "METHOD_DEL = 4"
definition METHOD_OPT :: int where "METHOD_OPT = 5"

definition MHD_HTTP_OK :: int where "MHD_HTTP_OK = 200"
definition MHD_HTTP_BAD_REQUEST :: int where "MHD_HTTP_BAD_REQUEST = 400"
definition MHD_HTTP_NOT_FOUND :: int where "MHD_HTTP_NOT_FOUND = 404"
definition MHD_HTTP_METHOD_NOT_ALLOWED :: int where "MHD_HTTP_METHOD_NOT_ALLOWED = 405"
definition MHD_HTTP_SERVICE_UNAVAILABLE :: int where "MHD_HTTP_SERVICE_UNAVAILABLE = 503"

lemmas http_codes = MHD_HTTP_OK_def MHD_HTTP_BAD_REQUEST_def MHD_HTTP_NOT_FOUND_def
  MHD_HTTP_METHOD_NOT_ALLOWED_def MHD_HTTP_SERVICE_UNAVAILABLE_def

lemmas method_codes = METHOD_GET_def METHOD_POST_def METHOD_PUT_def METHOD_DEL_def METHOD_OPT_def

section \<open>Requests\<close>

text \<open>Null pointers to strings are \<open>None\<close>; the upload buffer is empty while its pointer is null.\<close>

record srci =
  ip :: "string option"
  method_type :: int
  url :: string
  urllen :: int
  accept :: "string option"
  auth :: "string option"
  content_length :: u64
  post_data :: string
  post_data_len :: u64
  content_type :: "string option"
  allow :: "string option"
  cors :: bool
  return_code :: int
  return_page :: "string option"

definition srci_zero :: srci where
  "srci_zero = \<lparr>ip = None, method_type = 0, url = [], urllen = 0, accept = None, auth = None,
     content_length = 0, post_data = [], post_data_len = 0, content_type = None, allow = None,
     cors = False, return_code = 0, return_page = None\<rparr>"

definition srci_get_client_ip :: "srci \<Rightarrow> string option" where
  "srci_get_client_ip ri = ip ri"

definition srci_get_browser_auth :: "srci \<Rightarrow> string option" where
  "srci_get_browser_auth ri = auth ri"

definition srci_browser_requests_text :: "srci \<Rightarrow> bool" where
  "srci_browser_requests_text ri =
     (case accept ri of None \<Rightarrow> False | Some a \<Rightarrow> strcasecmp_eq a ''text/plain'')"

definition srci_browser_requests_xml :: "srci \<Rightarrow> bool" where
  "srci_browser_requests_xml ri =
     (case accept ri of None \<Rightarrow> False | Some a \<Rightarrow> strcasecmp_eq a ''application/xml'')"

definition srci_browser_requests_json :: "srci \<Rightarrow> bool" where
  "srci_browser_requests_json ri =
     (case accept ri of None \<Rightarrow> False | Some a \<Rightarrow> strcasecmp_eq a ''application/json'')"

definition srci_get_method_type :: "srci \<Rightarrow> int" where
  "srci_get_method_type ri = method_type ri"

definition srci_set_response_content_type :: "srci \<Rightarrow> string \<Rightarrow> srci" where
  "srci_set_response_content_type ri ct = ri\<lparr>content_type := Some ct\<rparr>"

definition srci_set_response_allow :: "srci \<Rightarrow> string \<Rightarrow> srci" where
  "srci_set_response_allow ri a = ri\<lparr>allow := Some a\<rparr>"

definition srci_set_response_cors :: "srci \<Rightarrow> srci" where
  "srci_set_response_cors ri = ri\<lparr>cors := True\<rparr>"

definition srci_get_post_data_ptr :: "srci \<Rightarrow> string" where
  "srci_get_post_data_ptr ri = post_data ri"

definition srci_get_post_data_size :: "srci \<Rightarrow> u64" where
  "srci_get_post_data_size ri = post_data_len ri"

definition srci_set_return_code :: "srci \<Rightarrow> int \<Rightarrow> srci" where
  "srci_set_return_code ri c = ri\<lparr>return_code := c\<rparr>"

text \<open>A node callback: URL tail, its length, the request, the node's pointer, the application state.\<close>

type_synonym 'w node_cb = "string \<Rightarrow> int \<Rightarrow> srci \<Rightarrow> ptr \<Rightarrow> 'w \<Rightarrow> string option \<times> srci \<times> 'w"
type_synonym 'w conn_cb = "string \<Rightarrow> 'w \<Rightarrow> mhd_result \<times> 'w"
type_synonym 'w server_instance = "('w node_cb, 'w conn_cb) sri"

section \<open>Connections\<close>

datatype sin_family = AF_INET | AF_INET6 | AF_OTHER

text \<open>
  What libmicrohttpd and the C library know of a connection: whether there is connection info and
  in it an address, the address family, the text \<open>inet_ntop\<close> prints for it, the header lookup
  and whether a response can be queued.
\<close>

record connection =
  con_info :: bool
  con_addr :: "(sin_family \<times> string) option"
  con_header :: "string \<Rightarrow> string option"
  con_queue :: mhd_result

record response =
  status :: int
  body :: string
  headers :: "(string \<times> string) list"

definition client_ip_str :: "connection \<Rightarrow> string option" where
  "client_ip_str con =
     (if \<not> con_info con then None
      else case con_addr con of None \<Rightarrow> None
         | Some (AF_INET, text) \<Rightarrow> Some text
         | Some (AF_INET6, text) \<Rightarrow> Some text
         | Some (AF_OTHER, text) \<Rightarrow> None)"

definition process_request ::
    "int \<Rightarrow> 'w server_instance \<Rightarrow> srci \<Rightarrow> 'w \<Rightarrow> string option \<times> srci \<times> 'w server_instance \<times> 'w" where
  "process_request now ws ri w =
     (case searest_node_find ws (url ri) of
        None \<Rightarrow>
          let ri = ri\<lparr>return_code := MHD_HTTP_NOT_FOUND, return_page := Some ''node not found''\<rparr>
          in (return_page ri, ri, ws, w)
      | Some i \<Rightarrow>
          let n = nodelist_head ws ! i in
          if searest_node_is_disabled n then
            let ri = ri\<lparr>return_code := MHD_HTTP_SERVICE_UNAVAILABLE, return_page := Some ''node not enabled''\<rparr>
            in (return_page ri, ri, ws, w)
          else
            let nlen = searest_node_len n;
                (page, ri, w) = cb n (drop nlen (url ri)) (urllen ri - int nlen) ri (nud n) w;
                ri = ri\<lparr>return_page := page\<rparr>
            in (return_page ri, ri, searest_node_set_access now i ws, w))"

definition method_of :: "string \<Rightarrow> int option" where
  "method_of m =
     (if m = ''GET'' then Some METHOD_GET
      else if m = ''POST'' then Some METHOD_POST
      else if m = ''PUT'' then Some METHOD_PUT
      else if m = ''DELETE'' then Some METHOD_DEL
      else if m = ''OPTIONS'' then Some METHOD_OPT
      else None)"

text \<open>The first call for a request: the result and the record left in \<open>*con_cls\<close>.\<close>

definition request_headers ::
    "('cb, 'acb) sri \<Rightarrow> connection \<Rightarrow> string \<Rightarrow> string \<Rightarrow> mhd_result \<times> srci" where
  "request_headers ws con u m =
     (let ri = srci_zero\<lparr>url := u, urllen := int (length u)\<rparr>
      in if urllen ri < min_url_len ws then (MHD_NO, ri)
         else if max_url_len ws < urllen ri then (MHD_NO, ri)
         else if length m < 3 then (MHD_NO, ri)
         else if 7 < length m then (MHD_NO, ri)
         else
           let ri = ri\<lparr>ip := client_ip_str con\<rparr>;
               ri = ri\<lparr>accept := con_header con ''Accept''\<rparr>;
               ri = ri\<lparr>auth := con_header con ''Authorization''\<rparr>;
               clh = con_header con ''Content-Length'';
               ri = (case clh of None \<Rightarrow> ri | Some s \<Rightarrow> ri\<lparr>content_length := word_of_int (c_atol s)\<rparr>)
           in if clh \<noteq> None \<and> max_content_length ws < content_length ri then (MHD_NO, ri)
              else case method_of m of
                     None \<Rightarrow> (MHD_NO, ri)
                   | Some t \<Rightarrow> (MHD_YES, ri\<lparr>method_type := t\<rparr>))"

definition response_headers :: "srci \<Rightarrow> (string \<times> string) list" where
  "response_headers ri =
     (case content_type ri of None \<Rightarrow> [] | Some t \<Rightarrow> [(''Content-Type'', t)]) @
     (case allow ri of None \<Rightarrow> [] | Some a \<Rightarrow> [(''Allow'', a)]) @
     (if cors ri then [(''Access-Control-Allow-Origin'', ''*'')] else [])"

text \<open>What one call of the access handler leaves behind.\<close>

record 'w handler_result =
  ret :: mhd_result
  con_cls :: "srci option"
  upload_left :: u64
  queued :: "response option"
  instance_of :: "'w server_instance"
  world :: 'w

definition uhd_request_started ::
    "int \<Rightarrow> 'w server_instance \<Rightarrow> connection \<Rightarrow> string option \<Rightarrow> string option \<Rightarrow> string option \<Rightarrow>
     string \<Rightarrow> srci option \<Rightarrow> 'w \<Rightarrow> 'w handler_result" where
  "uhd_request_started now ws con u m v upload cls w =
     (let blobsize = (of_nat (length upload) :: u64);
          unchanged = (\<lambda>r c. \<lparr>ret = r, con_cls = c, upload_left = blobsize, queued = None,
                              instance_of = ws, world = w\<rparr>)
      in case (u, m, v) of
           (Some url', Some m', Some _) \<Rightarrow>
             (case cls of
                None \<Rightarrow> (let (r, ri) = request_headers ws con url' m' in unchanged r (Some ri))
              | Some ri \<Rightarrow>
                  if blobsize \<noteq> 0 then
                    let newbufsize = post_data_len ri + blobsize in
                    if content_length ri < newbufsize then unchanged MHD_NO (Some ri)
                    else \<lparr>ret = MHD_YES,
                          con_cls = Some (ri\<lparr>post_data := post_data ri @ upload,
                                            post_data_len := post_data_len ri + blobsize\<rparr>),
                          upload_left = 0, queued = None, instance_of = ws, world = w\<rparr>
                  else if post_data_len ri < content_length ri then unchanged MHD_NO (Some ri)
                  else
                    let (page, ri, ws', w') = process_request now ws ri w in
                    (case page of
                       None \<Rightarrow> \<lparr>ret = MHD_NO, con_cls = Some ri, upload_left = blobsize, queued = None,
                                instance_of = ws', world = w'\<rparr>
                     | Some p \<Rightarrow>
                         let ri = (if return_code ri = 0 then ri\<lparr>return_code := MHD_HTTP_OK\<rparr> else ri);
                             resp = \<lparr>status = return_code ri, body = cstr p, headers = response_headers ri\<rparr>
                         in \<lparr>ret = con_queue con, con_cls = Some ri, upload_left = blobsize,
                             queued = Some resp, instance_of = ws', world = w'\<rparr>))
         | _ \<Rightarrow> unchanged MHD_NO cls)"

text \<open>The strings freed when a request is completed, and the null pointer left in \<open>*con_cls\<close>.\<close>

definition uhd_request_completed :: "srci option \<Rightarrow> string list \<times> srci option" where
  "uhd_request_completed cls =
     (case cls of None \<Rightarrow> ([], None)
      | Some ri \<Rightarrow>
          (List.map_filter id [ip ri, Some (url ri), accept ri, auth ri, Some (post_data ri),
             content_type ri, allow ri, return_page ri], None))"

definition uhd_logger :: "string \<Rightarrow> srci option" where
  "uhd_logger uri = None"

definition uhd_client_connect ::
    "'w server_instance \<Rightarrow> (sin_family \<times> string) option \<Rightarrow> 'w \<Rightarrow> mhd_result \<times> 'w" where
  "uhd_client_connect ws addr w =
     (case addr of None \<Rightarrow> (MHD_NO, w)
      | Some (family, text) \<Rightarrow>
          (case addr_cb ws of None \<Rightarrow> (MHD_YES, w)
           | Some acb \<Rightarrow> if family = AF_OTHER then (MHD_NO, w) else acb text w))"

section \<open>Server instances\<close>

text \<open>The options handed to the daemon, and what starting it answers, are the daemon's business.\<close>

datatype mhd_option =
    OPT_SOCK_ADDR "string option" u16
  | OPT_URI_LOG_CALLBACK
  | OPT_NOTIFY_COMPLETED
  | OPT_CONNECTION_TIMEOUT int
  | OPT_CONNECTION_LIMIT u32
  | OPT_HTTPS_MEM_CERT string
  | OPT_HTTPS_MEM_KEY string
  | OPT_HTTPS_MEM_TRUST string

record daemon_config =
  thread_per_connection :: bool
  use_ssl :: bool
  options :: "mhd_option list"

definition FD_SETSIZE :: u32 where "FD_SETSIZE = 1024"

definition searest_new :: "int \<Rightarrow> int \<Rightarrow> u64 \<Rightarrow> ('cb, 'acb) sri" where
  "searest_new urlmin urlmax contentmax =
     \<lparr>addr_cb = None, mhd_srv = False, https_cert = None, https_key = None, https_ca = None,
      ssl_flag = False, internal_select = False, inactivity_timeout = 0,
      conn_limit = FD_SETSIZE - 4, min_url_len = urlmin, max_url_len = urlmax,
      max_content_length = contentmax, nodelist_head = []\<rparr>"

definition searest_set_https_cert :: "('cb, 'acb) sri \<Rightarrow> string \<Rightarrow> ('cb, 'acb) sri" where
  "searest_set_https_cert ws cert = ws\<lparr>https_cert := Some cert, ssl_flag := True\<rparr>"

definition searest_set_https_key :: "('cb, 'acb) sri \<Rightarrow> string \<Rightarrow> ('cb, 'acb) sri" where
  "searest_set_https_key ws key = ws\<lparr>https_key := Some key, ssl_flag := True\<rparr>"

definition searest_set_https_ca :: "('cb, 'acb) sri \<Rightarrow> string \<Rightarrow> ('cb, 'acb) sri" where
  "searest_set_https_ca ws ca = ws\<lparr>https_ca := Some ca, ssl_flag := True\<rparr>"

definition searest_set_conn_limit :: "('cb, 'acb) sri \<Rightarrow> u32 \<Rightarrow> ('cb, 'acb) sri" where
  "searest_set_conn_limit ws limit = ws\<lparr>conn_limit := limit\<rparr>"

definition searest_set_inactivity_timeout :: "('cb, 'acb) sri \<Rightarrow> int \<Rightarrow> ('cb, 'acb) sri" where
  "searest_set_inactivity_timeout ws t = ws\<lparr>inactivity_timeout := t\<rparr>"

definition searest_set_internal_select :: "('cb, 'acb) sri \<Rightarrow> ('cb, 'acb) sri" where
  "searest_set_internal_select ws = ws\<lparr>internal_select := True\<rparr>"

definition searest_set_addr_cb :: "('cb, 'acb) sri \<Rightarrow> 'acb \<Rightarrow> ('cb, 'acb) sri" where
  "searest_set_addr_cb ws func = ws\<lparr>addr_cb := Some func\<rparr>"

definition daemon_options :: "('cb, 'acb) sri \<Rightarrow> string option \<Rightarrow> u16 \<Rightarrow> mhd_option list" where
  "daemon_options ws ip4addr port =
     [OPT_SOCK_ADDR ip4addr port, OPT_URI_LOG_CALLBACK, OPT_NOTIFY_COMPLETED,
      OPT_CONNECTION_TIMEOUT (inactivity_timeout ws), OPT_CONNECTION_LIMIT (conn_limit ws)] @
     (case (https_cert ws, https_key ws) of
        (Some cert, Some key) \<Rightarrow>
          [OPT_HTTPS_MEM_CERT cert, OPT_HTTPS_MEM_KEY key] @
          (case https_ca ws of None \<Rightarrow> [] | Some ca \<Rightarrow> [OPT_HTTPS_MEM_TRUST ca])
      | _ \<Rightarrow> [])"

definition searest_start ::
    "(daemon_config \<Rightarrow> bool) \<Rightarrow> ('cb, 'acb) sri \<Rightarrow> string option \<Rightarrow> u16 \<Rightarrow> int \<times> ('cb, 'acb) sri" where
  "searest_start start_daemon ws ip4addr port =
     (if searest_node_count ws = 0 then (1, ws)
      else
        let ws = ws\<lparr>mhd_srv := start_daemon \<lparr>thread_per_connection = \<not> internal_select ws,
              use_ssl = ssl_flag ws, options = daemon_options ws ip4addr port\<rparr>\<rparr>
        in if mhd_srv ws then (0, ws) else (2, ws))"

definition searest_stop :: "('cb, 'acb) sri \<Rightarrow> ('cb, 'acb) sri" where
  "searest_stop ws = ws\<lparr>mhd_srv := False\<rparr>"

text \<open>What is freed with an instance: its nodes, its certificate strings.\<close>

definition searest_del :: "('cb, 'acb) sri \<Rightarrow> 'cb srn list \<times> string list" where
  "searest_del ws =
     (let ws = searest_stop ws
      in (searest_node_destroy_all ws,
          List.map_filter id [https_cert ws, https_key ws, https_ca ws]))"

section \<open>Admission of a request\<close>

lemma srci_zero_sel [simp]:
  "content_length srci_zero = 0" "post_data srci_zero = []" "post_data_len srci_zero = 0"
  "return_code srci_zero = 0" "content_type srci_zero = None" "allow srci_zero = None"
  "\<not> cors srci_zero"
  by (simp_all add: srci_zero_def)

text \<open>The record the first call leaves for an admitted request.\<close>

definition admitted :: "connection \<Rightarrow> string \<Rightarrow> int \<Rightarrow> srci" where
  "admitted con u t = srci_zero\<lparr>url := u, urllen := int (length u), ip := client_ip_str con,
     accept := con_header con ''Accept'', auth := con_header con ''Authorization'',
     content_length := (case con_header con ''Content-Length'' of None \<Rightarrow> 0
                        | Some s \<Rightarrow> word_of_int (c_atol s)),
     method_type := t\<rparr>"

lemma request_headers_YES:
  "request_headers ws con u m = (MHD_YES, ri) \<longleftrightarrow>
     min_url_len ws \<le> int (length u) \<and> int (length u) \<le> max_url_len ws \<and>
     3 \<le> length m \<and> length m \<le> 7 \<and>
     (\<forall>s. con_header con ''Content-Length'' = Some s \<longrightarrow>
        (word_of_int (c_atol s) :: u64) \<le> max_content_length ws) \<and>
     (\<exists>t. method_of m = Some t \<and> ri = admitted con u t)"
  by (auto simp: request_headers_def Let_def admitted_def srci_zero_def not_less not_le
      split: option.splits)

lemma admitted_sel [simp]:
  "url (admitted con u t) = u" "urllen (admitted con u t) = int (length u)"
  "method_type (admitted con u t) = t" "ip (admitted con u t) = client_ip_str con"
  "post_data (admitted con u t) = []" "post_data_len (admitted con u t) = 0"
  "return_code (admitted con u t) = 0" "content_type (admitted con u t) = None"
  "allow (admitted con u t) = None" "\<not> cors (admitted con u t)"
  "content_length (admitted con u t) =
     (case con_header con ''Content-Length'' of None \<Rightarrow> 0 | Some s \<Rightarrow> word_of_int (c_atol s))"
  by (simp_all add: admitted_def srci_zero_def)

section \<open>Uploads\<close>

text \<open>
  A request as libmicrohttpd drives it, quoted at lines 172-197 of searest.c: one call after the
  headers, one per piece of upload data, and a last one with none, each only after MHD_YES.
\<close>

fun deliver :: "(srci option \<Rightarrow> string \<Rightarrow> 'w handler_result) \<Rightarrow> srci \<Rightarrow> string list \<Rightarrow> 'w handler_result" where
  "deliver h ri [] = h (Some ri) []"
| "deliver h ri (piece # pieces) =
     (let r = h (Some ri) piece
      in case (ret r, con_cls r) of
           (MHD_YES, Some ri') \<Rightarrow> deliver h ri' pieces
         | _ \<Rightarrow> r)"

definition serve_request ::
    "int \<Rightarrow> 'w server_instance \<Rightarrow> connection \<Rightarrow> string \<Rightarrow> string \<Rightarrow> string \<Rightarrow> string list \<Rightarrow> 'w \<Rightarrow>
     'w handler_result" where
  "serve_request now ws con u m v pieces w =
     (let h = (\<lambda>cls upload. uhd_request_started now ws con (Some u) (Some m) (Some v) upload cls w);
          r = h None []
      in case (ret r, con_cls r) of
           (MHD_YES, Some ri) \<Rightarrow> deliver h ri pieces
         | _ \<Rightarrow> r)"

text \<open>What every call keeps of the record: the bytes gathered are counted, and bounded.\<close>

definition upload_inv :: "('cb, 'acb) sri \<Rightarrow> srci \<Rightarrow> bool" where
  "upload_inv ws ri \<longleftrightarrow> unat (post_data_len ri) = length (post_data ri) \<and>
     post_data_len ri \<le> content_length ri \<and> content_length ri \<le> max_content_length ws"

lemma upload_inv_headers:
  assumes "request_headers ws con u m = (MHD_YES, ri)"
  shows "upload_inv ws ri"
  using assms by (auto simp: request_headers_YES upload_inv_def split: option.splits)

definition gather :: "srci \<Rightarrow> string \<Rightarrow> srci" where
  "gather ri piece = ri\<lparr>post_data := post_data ri @ piece,
     post_data_len := post_data_len ri + of_nat (length piece)\<rparr>"

lemma gather_sel [simp]:
  "post_data (gather ri piece) = post_data ri @ piece"
  "content_length (gather ri piece) = content_length ri"
  "(gather ri piece)\<lparr>post_data := d, post_data_len := n\<rparr> = ri\<lparr>post_data := d, post_data_len := n\<rparr>"
  by (simp_all add: gather_def)

lemma unat_gathered:
  assumes "upload_inv ws ri" and "max_content_length ws < 2 ^ 63" and "length piece < 2 ^ 63"
  shows "unat (post_data_len ri + (of_nat (length piece) :: u64)) = length (post_data ri) + length piece"
proof -
  have "post_data_len ri < 2 ^ 63" using assms(1,2) by (auto simp: upload_inv_def)
  then have "unat (post_data_len ri) < 2 ^ 63" by (simp add: word_less_nat_alt)
  moreover have "unat (of_nat (length piece) :: u64) = length piece"
    using assms(3) by (simp add: unsigned_of_nat take_bit_nat_eq_self)
  ultimately show ?thesis
    using assms by (subst unat_add_lem [THEN iffD1]) (auto simp: upload_inv_def)
qed

lemma upload_piece:
  assumes inv: "upload_inv ws ri" and "max_content_length ws < 2 ^ 63"
    and "length piece < 2 ^ 63" and "piece \<noteq> []"
  shows "uhd_request_started now ws con (Some u) (Some m) (Some v) piece (Some ri) w =
    (if length (post_data ri) + length piece \<le> unat (content_length ri)
     then \<lparr>ret = MHD_YES, con_cls = Some (gather ri piece), upload_left = 0, queued = None,
           instance_of = ws, world = w\<rparr>
     else \<lparr>ret = MHD_NO, con_cls = Some ri, upload_left = of_nat (length piece), queued = None,
           instance_of = ws, world = w\<rparr>)"
proof -
  have "unat (of_nat (length piece) :: u64) \<noteq> 0"
    using assms(3,4) by (simp add: unsigned_of_nat take_bit_nat_eq_self)
  then have "(of_nat (length piece) :: u64) \<noteq> 0"
    by (simp add: unat_eq_zero)
  moreover have "content_length ri < post_data_len ri + of_nat (length piece) \<longleftrightarrow>
      \<not> length (post_data ri) + length piece \<le> unat (content_length ri)"
    using unat_gathered [OF assms(1-3)] by (simp add: word_less_nat_alt not_le)
  ultimately show ?thesis
    by (auto simp: uhd_request_started_def Let_def gather_def)
qed

lemma upload_inv_gather:
  assumes "upload_inv ws ri" and "max_content_length ws < 2 ^ 63" and "length piece < 2 ^ 63"
    and "length (post_data ri) + length piece \<le> unat (content_length ri)"
  shows "upload_inv ws (gather ri piece)"
  using assms unat_gathered [OF assms(1-3)]
  by (auto simp: upload_inv_def gather_def word_le_nat_alt)

lemma upload_short:
  assumes "upload_inv ws ri" and "length (post_data ri) \<noteq> unat (content_length ri)"
  shows "uhd_request_started now ws con (Some u) (Some m) (Some v) [] (Some ri) w =
    \<lparr>ret = MHD_NO, con_cls = Some ri, upload_left = 0, queued = None, instance_of = ws, world = w\<rparr>"
proof -
  have "post_data_len ri < content_length ri"
    using assms by (auto simp: upload_inv_def word_less_nat_alt word_le_nat_alt)
  then show ?thesis by (simp add: uhd_request_started_def Let_def)
qed

lemma deliver_pieces:
  fixes ws :: "'w server_instance" and w :: 'w and now con u m v
  defines "h \<equiv> \<lambda>cls upload. uhd_request_started now ws con (Some u) (Some m) (Some v) upload cls w"
  assumes "upload_inv ws ri" and "max_content_length ws < 2 ^ 63"
    and "\<forall>piece \<in> set pieces. piece \<noteq> [] \<and> length piece < 2 ^ 63"
  shows "if length (post_data ri) + length (concat pieces) = unat (content_length ri)
    then deliver h ri pieces = h (Some (ri\<lparr>post_data := post_data ri @ concat pieces,
                                          post_data_len := content_length ri\<rparr>)) []
    else ret (deliver h ri pieces) = MHD_NO \<and> queued (deliver h ri pieces) = None \<and>
         instance_of (deliver h ri pieces) = ws \<and> world (deliver h ri pieces) = w"
  using assms(2,4)
proof (induction pieces arbitrary: ri)
  case Nil
  show ?case
  proof (cases "length (post_data ri) = unat (content_length ri)")
    case True
    then have "post_data_len ri = content_length ri" using Nil by (simp add: upload_inv_def word_unat_eq_iff)
    then have "ri\<lparr>post_data := post_data ri, post_data_len := content_length ri\<rparr> = ri" by simp
    then show ?thesis using True by simp
  qed (use Nil in \<open>simp add: h_def upload_short\<close>)
next
  case (Cons piece pieces)
  then have p: "piece \<noteq> []" "length piece < 2 ^ 63" by simp_all
  note step = upload_piece [OF Cons.prems(1) assms(3) p(2) p(1)]
  show ?case
  proof (cases "length (post_data ri) + length piece \<le> unat (content_length ri)")
    case True
    have inv: "upload_inv ws (gather ri piece)"
      by (rule upload_inv_gather [OF Cons.prems(1) assms(3) p(2) True])
    have eq: "deliver h ri (piece # pieces) = deliver h (gather ri piece) pieces"
      using step True by (simp add: h_def)
    show ?thesis
      using Cons.IH [OF inv] Cons.prems(2) unfolding eq by (simp add: add.assoc)
  next
    case False
    then show ?thesis using step by (simp add: h_def)
  qed
qed

lemma serve_request_pieces:
  assumes "request_headers ws con u m = (MHD_YES, ri)" and "max_content_length ws < 2 ^ 63"
    and "\<forall>piece \<in> set pieces. piece \<noteq> [] \<and> length piece < 2 ^ 63"
  shows "if length (concat pieces) = unat (content_length ri)
    then serve_request now ws con u m v pieces w =
         uhd_request_started now ws con (Some u) (Some m) (Some v) []
           (Some (ri\<lparr>post_data := concat pieces, post_data_len := content_length ri\<rparr>)) w
    else (let r = serve_request now ws con u m v pieces w
          in ret r = MHD_NO \<and> queued r = None \<and> instance_of r = ws \<and> world r = w)"
proof -
  have "post_data ri = []" using assms(1) by (auto simp: request_headers_YES)
  moreover have "serve_request now ws con u m v pieces w =
      deliver (\<lambda>cls upload. uhd_request_started now ws con (Some u) (Some m) (Some v) upload cls w) ri pieces"
    using assms(1) by (simp add: serve_request_def uhd_request_started_def Let_def)
  ultimately show ?thesis
    using deliver_pieces [OF upload_inv_headers [OF assms(1)] assms(2,3), of now con u m v w]
    by (simp add: Let_def)
qed

text \<open>C16: an upload is taken whole or not at all. However the body is cut into pieces, the final
  call of the handler sees their concatenation when its length is the announced Content-Length;
  when the client sent more or less, the connection is refused, nothing is queued and the
  application is never called.\<close>

theorem upload_assembly:
  assumes "request_headers ws con u m = (MHD_YES, ri)" and "max_content_length ws < 2 ^ 63"
    and "\<forall>piece \<in> set pieces. piece \<noteq> [] \<and> length piece < 2 ^ 63"
  shows "if length (concat pieces) = unat (content_length ri)
    then serve_request now ws con u m v pieces w =
         uhd_request_started now ws con (Some u) (Some m) (Some v) []
           (Some (ri\<lparr>post_data := concat pieces, post_data_len := content_length ri\<rparr>)) w
    else (let r = serve_request now ws con u m v pieces w
          in ret r = MHD_NO \<and> queued r = None \<and> instance_of r = ws \<and> world r = w)"
  by (rule serve_request_pieces [OF assms])

definition sample_connection :: "string \<Rightarrow> connection" where
  "sample_connection len = \<lparr>con_info = True, con_addr = Some (AF_INET, ''192.0.2.7''),
     con_header = (\<lambda>h. if h = ''Content-Length'' then Some len else None), con_queue = MHD_YES\<rparr>"

theorem upload_assembly_witness:
  "let ws = searest_new 11 139 20 :: unit server_instance;
       r = serve_request 0 ws (sample_connection ''5'') ''/config/all'' ''POST'' ''1.1'' [''ab'', ''cde''] ()
   in ret r = MHD_YES \<and> map_option status (queued r) = Some 404"
proof -
  let ?ws = "searest_new 11 139 20 :: unit server_instance"
  let ?con = "sample_connection ''5''"
  let ?ri = "admitted ?con ''/config/all'' METHOD_POST"
  have five: "c_atol ''5'' = 5"
    by (simp add: c_atol_def strtol10_def c_isspace_def c_isdigit_def dec_value_def dec_step_def LONG_MAX_def)
  then have h: "request_headers ?ws ?con ''/config/all'' ''POST'' = (MHD_YES, ?ri)"
    by (simp add: request_headers_YES searest_new_def sample_connection_def method_of_def)
  have l: "content_length ?ri = 5" using five by (simp add: sample_connection_def)
  show ?thesis
    using upload_assembly [OF h, of "[''ab'', ''cde'']" 0 "''1.1''" "()"] l
    by (simp add: Let_def searest_new_def uhd_request_started_def process_request_def
        searest_node_find_def sample_connection_def MHD_HTTP_NOT_FOUND_def)
qed

text \<open>A negative Content-Length is refused: read as a \<open>size_t\<close> it exceeds every limit that
  fits a signed long.\<close>

theorem negative_content_length_refused:
  assumes "con_header con ''Content-Length'' = Some s" and "c_atol s < 0"
    and "max_content_length ws < 2 ^ 63"
  shows "fst (request_headers ws con u m) = MHD_NO"
proof -
  have "LONG_MIN \<le> c_atol s" by (auto simp: c_atol_def strtol10_def Let_def LONG_MIN_def LONG_MAX_def)
  then have "uint (word_of_int (c_atol s) :: u64) = c_atol s + 2 ^ 64"
    using assms(2) mod_add_self2 [of "c_atol s" "2 ^ 64"] mod_pos_pos_trivial [of "c_atol s + 2 ^ 64" "2 ^ 64"]
    by (simp add: uint_word_of_int LONG_MIN_def)
  then have "\<not> (word_of_int (c_atol s) :: u64) \<le> max_content_length ws"
    using assms(3) \<open>LONG_MIN \<le> c_atol s\<close> by (simp add: word_le_def word_less_def LONG_MIN_def)
  then show ?thesis
    using assms(1) request_headers_YES [of ws con u m "snd (request_headers ws con u m)"]
    by (cases "request_headers ws con u m"; cases "fst (request_headers ws con u m)") auto
qed

theorem negative_content_length_refused_witness:
  "fst (request_headers (searest_new 11 139 20 :: unit server_instance)
      (sample_connection ''-1'') ''/config/all'' ''POST'') = MHD_NO"
  by (rule negative_content_length_refused [of _ "''-1''"])
    (simp_all add: sample_connection_def searest_new_def c_atol_def strtol10_def c_isspace_def
      c_isdigit_def dec_value_def dec_step_def LONG_MIN_def)

section \<open>Node callbacks\<close>

text \<open>
  What the handler relies on from a registered callback: it returns a page, sets a status, and
  leaves the rest of the request record alone. The handler then queues exactly that page.
\<close>

definition answered :: "srci \<Rightarrow> string option \<times> srci \<times> 'w \<Rightarrow> bool" where
  "answered ri r \<longleftrightarrow>
     fst r \<noteq> None \<and> (\<exists>k. k \<noteq> 0 \<and> fst (snd r) = srci_set_return_code ri k)"

lemma answeredI [simp]: "k \<noteq> 0 \<Longrightarrow> answered ri (Some p, srci_set_return_code ri k, w)"
  by (auto simp: answered_def)

locale node_callback =
  fixes f :: "'w node_cb"
  assumes answers: "answered ri (f u n ri ud w)"
begin

definition page :: "string \<Rightarrow> int \<Rightarrow> srci \<Rightarrow> ptr \<Rightarrow> 'w \<Rightarrow> string" where
  "page u n ri ud w = the (fst (f u n ri ud w))"

definition code_set :: "string \<Rightarrow> int \<Rightarrow> srci \<Rightarrow> ptr \<Rightarrow> 'w \<Rightarrow> int" where
  "code_set u n ri ud w = return_code (fst (snd (f u n ri ud w)))"

definition after :: "string \<Rightarrow> int \<Rightarrow> srci \<Rightarrow> ptr \<Rightarrow> 'w \<Rightarrow> 'w" where
  "after u n ri ud w = snd (snd (f u n ri ud w))"

lemma callback_eq:
  "f u n ri ud w = (Some (page u n ri ud w), ri\<lparr>return_code := code_set u n ri ud w\<rparr>, after u n ri ud w)"
  "code_set u n ri ud w \<noteq> 0"
  using answers [of ri u n ud w]
  by (cases "f u n ri ud w", auto simp: page_def code_set_def after_def answered_def srci_set_return_code_def)+

lemma queued_page:
  assumes "searest_node_find ws (url ri) = Some i" and "cb (nodelist_head ws ! i) = f"
    and "\<not> disabled (nodelist_head ws ! i)" and "content_length ri \<le> post_data_len ri"
    and "content_type ri = None" and "allow ri = None" and "\<not> cors ri"
  shows "\<exists>u n ud. u = drop (length (root (nodelist_head ws ! i))) (url ri) \<and>
    n = urllen ri - int (length (root (nodelist_head ws ! i))) \<and>
    ud = nud (nodelist_head ws ! i) \<and>
    uhd_request_started now ws con (Some x) (Some m) (Some v) [] (Some ri) w =
    \<lparr>ret = con_queue con,
     con_cls = Some (ri\<lparr>return_code := code_set u n ri ud w, return_page := Some (page u n ri ud w)\<rparr>),
     upload_left = 0,
     queued = Some \<lparr>status = code_set u n ri ud w, body = cstr (page u n ri ud w), headers = []\<rparr>,
     instance_of = searest_node_set_access now i ws, world = after u n ri ud w\<rparr>"
  using assms callback_eq(2)
  by (simp add: uhd_request_started_def process_request_def callback_eq(1) Let_def
      searest_node_is_disabled_def searest_node_len_def response_headers_def not_less)

text \<open>A whole request to an enabled node, in pieces that add up to its Content-Length.\<close>

lemma served:
  assumes "request_headers ws con u m = (MHD_YES, ri)" and "max_content_length ws < 2 ^ 63"
    and "\<forall>piece \<in> set pieces. piece \<noteq> [] \<and> length piece < 2 ^ 63"
    and "length (concat pieces) = unat (content_length ri)"
    and "searest_node_find ws u = Some i" and "cb (nodelist_head ws ! i) = f"
    and "\<not> disabled (nodelist_head ws ! i)"
  shows "\<exists>ri' t n ud. ri' = ri\<lparr>post_data := concat pieces, post_data_len := content_length ri\<rparr> \<and>
    t = drop (length (root (nodelist_head ws ! i))) u \<and>
    n = int (length u) - int (length (root (nodelist_head ws ! i))) \<and> ud = nud (nodelist_head ws ! i) \<and>
    queued (serve_request now ws con u m v pieces w) =
      Some \<lparr>status = return_code (fst (snd (f t n ri' ud w))), body = cstr (the (fst (f t n ri' ud w))), headers = []\<rparr> \<and>
    ret (serve_request now ws con u m v pieces w) = con_queue con \<and>
    instance_of (serve_request now ws con u m v pieces w) = searest_node_set_access now i ws \<and>
    world (serve_request now ws con u m v pieces w) = snd (snd (f t n ri' ud w))"
proof -
  let ?ri = "ri\<lparr>post_data := concat pieces, post_data_len := content_length ri\<rparr>"
  have adm: "url ri = u" "urllen ri = int (length u)" "content_type ri = None" "allow ri = None" "\<not> cors ri"
    using assms(1) by (auto simp: request_headers_YES)
  have "serve_request now ws con u m v pieces w =
      uhd_request_started now ws con (Some u) (Some m) (Some v) [] (Some ?ri) w"
    using serve_request_pieces [OF assms(1-3), of now v w] assms(4) by simp
  moreover have "\<exists>t n ud. t = drop (length (root (nodelist_head ws ! i))) (url ?ri) \<and>
    n = urllen ?ri - int (length (root (nodelist_head ws ! i))) \<and> ud = nud (nodelist_head ws ! i) \<and>
    uhd_request_started now ws con (Some u) (Some m) (Some v) [] (Some ?ri) w =
    \<lparr>ret = con_queue con,
     con_cls = Some (?ri\<lparr>return_code := code_set t n ?ri ud w, return_page := Some (page t n ?ri ud w)\<rparr>),
     upload_left = 0,
     queued = Some \<lparr>status = code_set t n ?ri ud w, body = cstr (page t n ?ri ud w), headers = []\<rparr>,
     instance_of = searest_node_set_access now i ws, world = after t n ?ri ud w\<rparr>"
    by (rule queued_page) (use adm assms(5-7) in simp_all)
  ultimately show ?thesis using adm by (auto simp: code_set_def page_def after_def)
qed

end

end
