(* ===== verification/WS_Redis.thy ===== *)
theory WS_Redis
  imports WS_Prelude
begin

text \<open>
  The redis handle shared by the server's threads, rai.c, and the interface of hiredis it wraps.

  Redis and hiredis are not part of the sources: a value of \<open>'c hiredis\<close> is a parameter of
  every definition that talks to redis. A context of type \<open>'c\<close> stands for the connection
  together with the database behind it; a command is its argument vector, as hiredis splits the
  format string (an interpolated string stays one argument). A missing reply is \<open>None\<close>.

  What the code relies on is stated as predicates over a view of the database (the live keys with
  their values), used as hypotheses by name: \<open>redis_laws\<close>, the documented effect of the four
  commands the server sends, with failures allowed, and \<open>redis_up\<close>, that replies do arrive.
\<close>

datatype redisReply =
    REDIS_REPLY_STRING string
  | REDIS_REPLY_ARRAY "redisReply list"
  | REDIS_REPLY_INTEGER int
  | REDIS_REPLY_NIL
  | REDIS_REPLY_STATUS string
  | REDIS_REPLY_ERROR string

definition REDIS_ERR_IO :: int where "REDIS_ERR_IO = 1"
definition REDIS_ERR_OTHER :: int where "REDIS_ERR_OTHER = 2"
definition REDIS_ERR_EOF :: int where "REDIS_ERR_EOF = 3"
definition REDIS_ERR_PROTOCOL :: int where "REDIS_ERR_PROTOCOL = 4"
definition REDIS_ERR_OOM :: int where "REDIS_ERR_OOM = 5"

lemmas redis_err_codes = REDIS_ERR_IO_def REDIS_ERR_OTHER_def REDIS_ERR_EOF_def
  REDIS_ERR_PROTOCOL_def REDIS_ERR_OOM_def

record 'c hiredis =
  hi_command :: "'c \<Rightarrow> string list \<Rightarrow> redisReply option \<times> 'c"
  hi_connect :: "string \<Rightarrow> u16 \<Rightarrow> 'c option"
  hi_connect_unix :: "string \<Rightarrow> 'c option"
  hi_err :: "'c \<Rightarrow> int"
  hi_errstr :: "'c \<Rightarrow> string"
  hi_strerror :: "'c \<Rightarrow> string"

section \<open>The handle\<close>

record 'c rai =
  ctx :: "'c option"
  rl :: bool
  connected :: bool

definition rai_zero :: "'c rai" where
  "rai_zero = \<lparr>ctx = None, rl = False, connected = False\<rparr>"

text \<open>
  The mutex is its locked flag. A thread waits in \<open>rai_lock\<close> while the flag is set; the
  interleaving of threads is the subject of the concurrency theory, where an acquire step is
  possible only on a free mutex.
\<close>

definition rai_lock :: "'c rai \<Rightarrow> 'c rai" where
  "rai_lock r = r\<lparr>rl := True\<rparr>"

definition rai_unlock :: "'c rai \<Rightarrow> 'c rai" where
  "rai_unlock r = r\<lparr>rl := False\<rparr>"

text \<open>\<open>mutex_ok\<close> is the success of initialising the mutex.\<close>

definition rai_connect ::
    "'c hiredis \<Rightarrow> bool \<Rightarrow> 'c rai \<Rightarrow> string \<Rightarrow> u16 \<Rightarrow> int \<times> 'c rai" where
  "rai_connect api mutex_ok r dest port =
     (if connected r \<or> ctx r \<noteq> None then (-1, r)
      else if \<not> mutex_ok then (-2, r)
      else
        let r = r\<lparr>rl := False\<rparr>;
            r = r\<lparr>ctx := (if port \<noteq> 0 then hi_connect api dest port else hi_connect_unix api dest)\<rparr>
        in case ctx r of
             None \<Rightarrow> (-3, r)
           | Some c \<Rightarrow>
               if hi_err api c \<noteq> 0 then (-4, r\<lparr>ctx := None\<rparr>)
               else (0, r\<lparr>connected := True\<rparr>))"

definition rai_is_connected :: "'c rai \<Rightarrow> bool" where
  "rai_is_connected r = connected r"

definition rai_disconnect :: "'c rai \<Rightarrow> 'c rai" where
  "rai_disconnect r =
     (let r = rai_lock r;
          r = (if ctx r \<noteq> None then r\<lparr>ctx := None\<rparr> else r);
          r = r\<lparr>connected := False\<rparr>
      in rai_unlock r)"

text \<open>
  \<open>redisCommand(rc->c, ...)\<close>. Requests are served only between a successful connect and the
  disconnect after the daemon has stopped, so the context is not null there
  (\<open>rai_connect_codes\<close>).
\<close>

definition redisCommand ::
    "'c hiredis \<Rightarrow> 'c rai \<Rightarrow> string list \<Rightarrow> redisReply option \<times> 'c rai" where
  "redisCommand api r argv =
     (case ctx r of None \<Rightarrow> (None, r)
      | Some c \<Rightarrow> (let (reply, c') = hi_command api c argv in (reply, r\<lparr>ctx := Some c'\<rparr>)))"

lemma redisCommand_keeps [simp]:
  "rl (snd (redisCommand api r argv)) = rl r"
  "connected (snd (redisCommand api r argv)) = connected r"
  "ctx (snd (redisCommand api r argv)) = None \<longleftrightarrow> ctx r = None"
  by (simp_all add: redisCommand_def split: option.split prod.split)

lemma redisCommand_Some:
  "ctx r = Some c \<Longrightarrow>
   redisCommand api r argv = (fst (hi_command api c argv), r\<lparr>ctx := Some (snd (hi_command api c argv))\<rparr>)"
  by (simp add: redisCommand_def split: prod.split)

text \<open>A handle is either fully connected or not at all.\<close>

definition rai_inv :: "'c rai \<Rightarrow> bool" where
  "rai_inv r \<longleftrightarrow> (connected r \<longleftrightarrow> ctx r \<noteq> None)"

text \<open>C31: the return codes of \<open>rai_connect\<close>, as its comment lists them: -1 exactly on a handle in
  use, which is left alone; otherwise 0 exactly when the mutex, the connection and its error field
  are all fine. The handle is connected afterwards only for 0 (or if it was before), and connecting
  or disconnecting never leaves a half-open handle.\<close>

theorem rai_connect_codes:
  assumes "rai_inv r" and "rai_connect api mutex_ok r dest port = (z, r')"
  shows "rai_inv r' \<and> rai_inv (rai_disconnect r') \<and> z \<in> {0, -1, -2, -3, -4} \<and>
    (z = -1 \<longleftrightarrow> rai_is_connected r) \<and> (z = -1 \<longrightarrow> r' = r) \<and>
    (z = 0 \<longleftrightarrow> \<not> rai_is_connected r \<and> rai_is_connected r') \<and>
    (z = 0 \<longrightarrow> (\<exists>c. ctx r' = Some c \<and> hi_err api c = 0 \<and> \<not> rl r' \<and>
       Some c = (if port \<noteq> 0 then hi_connect api dest port else hi_connect_unix api dest)))"
  using assms
  by (auto simp: rai_connect_def rai_inv_def rai_disconnect_def rai_lock_def rai_unlock_def
      rai_is_connected_def Let_def split: if_splits option.splits)

theorem rai_connect_codes_witness:
  "let api = \<lparr>hi_command = (\<lambda>c argv. (None, c)), hi_connect = (\<lambda>d p. Some p), hi_connect_unix = (\<lambda>d. None),
         hi_err = (\<lambda>c. if c = 6379 then 0 else 1), hi_errstr = (\<lambda>c. []), hi_strerror = (\<lambda>c. [])\<rparr>;
       (z, r) = rai_connect api True rai_zero ''127.0.0.1'' 6379
   in z = 0 \<and> rai_inv r \<and> rai_inv (rai_disconnect r)"
proof -
  define api :: "u16 hiredis" where
    "api = \<lparr>hi_command = (\<lambda>c argv. (None, c)), hi_connect = (\<lambda>d p. Some p), hi_connect_unix = (\<lambda>d. None),
       hi_err = (\<lambda>c. if c = 6379 then 0 else 1), hi_errstr = (\<lambda>c. []), hi_strerror = (\<lambda>c. [])\<rparr>"
  obtain z r where zr: "rai_connect api True rai_zero ''127.0.0.1'' 6379 = (z, r)" by fastforce
  have "rai_inv (rai_zero :: u16 rai)" by (simp add: rai_inv_def rai_zero_def)
  from rai_connect_codes [OF this zr] have "rai_inv r \<and> rai_inv (rai_disconnect r)" by blast
  moreover have "z = 0"
    using zr by (auto simp: rai_connect_def rai_zero_def api_def Let_def)
  ultimately show ?thesis using zr by (simp add: api_def)
qed

section \<open>The documented commands\<close>

text \<open>
  The normal effect of the commands the server sends, on the live keys and their values: GET,
  DEL, INCR, and SET with an optional lifetime (EX) and the option that keeps an existing value
  (NX).
\<close>

definition incr_value :: "string option \<Rightarrow> int option" where
  "incr_value v = (case v of None \<Rightarrow> Some 1
     | Some s \<Rightarrow> if show_int (strtol10 s) = s \<and> strtol10 s < LONG_MAX then Some (strtol10 s + 1) else None)"

definition redis_get :: "(string \<rightharpoonup> string) \<Rightarrow> string \<Rightarrow> redisReply" where
  "redis_get db k = (case db k of None \<Rightarrow> REDIS_REPLY_NIL | Some v \<Rightarrow> REDIS_REPLY_STRING v)"

fun redis_do :: "(string \<rightharpoonup> string) \<Rightarrow> string list \<Rightarrow> redisReply \<times> (string \<rightharpoonup> string)" where
  "redis_do db [cmd, k] =
     (if cmd = ''GET'' then (redis_get db k, db)
      else if cmd = ''DEL'' then (REDIS_REPLY_INTEGER (if db k = None then 0 else 1), db(k := None))
      else if cmd = ''INCR'' then
        (case incr_value (db k) of None \<Rightarrow> (REDIS_REPLY_ERROR ''ERR'', db)
         | Some n \<Rightarrow> (REDIS_REPLY_INTEGER n, db(k \<mapsto> show_int n)))
      else (REDIS_REPLY_ERROR ''ERR'', db))"
| "redis_do db (cmd # k # v # opts) =
     (if cmd = ''SET'' then
        if ''NX'' \<in> set opts \<and> db k \<noteq> None then (REDIS_REPLY_NIL, db)
        else (REDIS_REPLY_STATUS ''OK'', db(k \<mapsto> v))
      else (REDIS_REPLY_ERROR ''ERR'', db))"
| "redis_do db argv = (REDIS_REPLY_ERROR ''ERR'', db)"

definition set_options :: "string list \<Rightarrow> bool" where
  "set_options opts \<longleftrightarrow> opts = [] \<or> opts = [''NX''] \<or>
     (\<exists>n > 0. opts = [''EX'', show_int n] \<or> opts = [''EX'', show_int n, ''NX''])"

definition supported :: "string list \<Rightarrow> bool" where
  "supported argv \<longleftrightarrow>
     (\<exists>k. argv = [''GET'', k] \<or> argv = [''DEL'', k] \<or> argv = [''INCR'', k]) \<or>
     (\<exists>k v opts. argv = [''SET'', k, v] @ opts \<and> set_options opts)"

lemma supported_simps [simp]:
  "supported [''GET'', k]" "supported [''DEL'', k]" "supported [''INCR'', k]"
  "supported (''SET'' # k # v # opts) \<longleftrightarrow> set_options opts"
  by (auto simp: supported_def)

lemma set_options_simps [simp]:
  "set_options []" "set_options [''NX'']"
  "0 < n \<Longrightarrow> set_options [''EX'', show_int n]" "0 < n \<Longrightarrow> set_options [''EX'', show_int n, ''NX'']"
  by (auto simp: set_options_def)

lemma NX_not_number: "show_int n \<noteq> ''NX''"
proof
  assume "show_int n = ''NX''"
  then have "show_nat (nat n) = ''NX''" "\<not> n < 0" by (auto simp: show_int_def split: if_splits)
  then have "CHR ''N'' \<in> set (show_nat (nat n))" by simp
  from show_nat_digits [OF this] show False by (simp add: c_isdigit_def)
qed

text \<open>
  \<open>redis_contract\<close>: a reply reports the documented effect; an error reply means no effect; with
  no reply at all (a lost connection) the command was executed or it was not.
  \<open>redis_up\<close>: every command is answered, and normally.
\<close>

definition redis_contract :: "'c hiredis \<Rightarrow> ('c \<Rightarrow> string \<rightharpoonup> string) \<Rightarrow> bool" where
  "redis_contract api view \<longleftrightarrow>
     (\<forall>c argv. supported argv \<longrightarrow>
        (let (reply, c') = hi_command api c argv; (normal, db') = redis_do (view c) argv
         in reply = Some normal \<and> view c' = db' \<or>
            (\<exists>e. reply = Some (REDIS_REPLY_ERROR e)) \<and> view c' = view c \<or>
            reply = None \<and> (view c' = view c \<or> view c' = db')))"

definition redis_up :: "'c hiredis \<Rightarrow> ('c \<Rightarrow> string \<rightharpoonup> string) \<Rightarrow> bool" where
  "redis_up api view \<longleftrightarrow>
     (\<forall>c argv. supported argv \<longrightarrow>
        fst (hi_command api c argv) = Some (fst (redis_do (view c) argv)) \<and>
        view (snd (hi_command api c argv)) = snd (redis_do (view c) argv))"

lemma redis_contractD:
  assumes "redis_contract api view" and "supported argv" and "ctx r = Some c"
    and "redisCommand api r argv = (reply, r')"
  obtains c' where "r' = r\<lparr>ctx := Some c'\<rparr>"
    and "reply = Some (fst (redis_do (view c) argv)) \<and> view c' = snd (redis_do (view c) argv) \<or>
      (\<exists>e. reply = Some (REDIS_REPLY_ERROR e)) \<and> view c' = view c \<or>
      reply = None \<and> (view c' = view c \<or> view c' = snd (redis_do (view c) argv))"
proof
  show "r' = r\<lparr>ctx := Some (snd (hi_command api c argv))\<rparr>"
    using assms(3,4) by (auto simp: redisCommand_Some)
  have "reply = fst (hi_command api c argv)"
    using assms(3,4) by (auto simp: redisCommand_Some)
  then show "reply = Some (fst (redis_do (view c) argv)) \<and>
        view (snd (hi_command api c argv)) = snd (redis_do (view c) argv) \<or>
      (\<exists>e. reply = Some (REDIS_REPLY_ERROR e)) \<and> view (snd (hi_command api c argv)) = view c \<or>
      reply = None \<and> (view (snd (hi_command api c argv)) = view c \<or>
        view (snd (hi_command api c argv)) = snd (redis_do (view c) argv))"
    using assms(1,2) by (auto simp: redis_contract_def Let_def split_beta)
qed

lemma redis_upD:
  assumes "redis_up api view" and "supported argv" and "ctx r = Some c"
  obtains c' where "redisCommand api r argv = (Some (fst (redis_do (view c) argv)), r\<lparr>ctx := Some c'\<rparr>)"
    and "view c' = snd (redis_do (view c) argv)"
  using assms by (auto simp: redis_up_def redisCommand_Some)

text \<open>The plainest redis: the database is the context, and it is always up.\<close>

definition plain_redis :: "(string \<rightharpoonup> string) hiredis" where
  "plain_redis = \<lparr>hi_command = (\<lambda>db argv. (Some (fst (redis_do db argv)), snd (redis_do db argv))),
     hi_connect = (\<lambda>dest port. Some Map.empty), hi_connect_unix = (\<lambda>dest. Some Map.empty),
     hi_err = (\<lambda>db. 0), hi_errstr = (\<lambda>db. []), hi_strerror = (\<lambda>db. [])\<rparr>"

lemma plain_redis_up: "redis_up plain_redis (\<lambda>db. db)"
  by (simp add: redis_up_def plain_redis_def)

lemma plain_redis_contract: "redis_contract plain_redis (\<lambda>db. db)"
  by (simp add: redis_contract_def plain_redis_def split_beta)

text \<open>A redis that never answers, though it obeys the contract.\<close>

definition dead_redis :: "(string \<rightharpoonup> string) hiredis" where
  "dead_redis = plain_redis\<lparr>hi_command := (\<lambda>db argv. (None, db)), hi_err := (\<lambda>db. REDIS_ERR_EOF)\<rparr>"

lemma dead_redis_contract: "redis_contract dead_redis (\<lambda>db. db)"
  by (simp add: redis_contract_def dead_redis_def split_beta)

end
