(* ===== verification/WS_State.thy ===== *)
theory WS_State
  imports WS_Redis
begin

text \<open>
  The state the server's parts share: the event log of webstore_log.c, the run-time data
  \<open>wsrt_t\<close> of webstore_ops.h and the global flags of webstore.c, with the reaction to a redis
  failure that sets them.
\<close>

section \<open>The event log\<close>

text \<open>
  The log file is null until it is opened; the lines of an open file are kept. The file pointer is
  not reset when the log is closed, so a later use of it is a use of a closed file: \<open>Dangling\<close>.
  Successive readings of the clock are the formatted time stamps \<open>clock 0\<close>, \<open>clock 1\<close>, and so on.
\<close>

datatype log_file = Null | Open "string list" | Closed "string list" | Dangling

record logger =
  g_lf :: log_file
  clock :: "nat \<Rightarrow> string"
  reads :: nat

definition WSLOG_INFO :: int where "WSLOG_INFO = 1"
definition WSLOG_WARN :: int where "WSLOG_WARN = 2"
definition WSLOG_ERR :: int where "WSLOG_ERR = 3"
definition WSLOG_CRIT :: int where "WSLOG_CRIT = 4"

lemmas wslog_codes = WSLOG_INFO_def WSLOG_WARN_def WSLOG_ERR_def WSLOG_CRIT_def

definition level_str :: "int \<Rightarrow> string option" where
  "level_str level =
     (if level = WSLOG_INFO then Some ''INF''
      else if level = WSLOG_WARN then Some ''WRN''
      else if level = WSLOG_ERR then Some ''ERR''
      else if level = WSLOG_CRIT then Some ''CRT''
      else None)"

definition append_line :: "log_file \<Rightarrow> string \<Rightarrow> log_file" where
  "append_line f line = (case f of Open lines \<Rightarrow> Open (lines @ [line]) | _ \<Rightarrow> Dangling)"

definition log_add :: "int \<Rightarrow> string \<Rightarrow> logger \<Rightarrow> logger" where
  "log_add level msg l =
     (if g_lf l = Null then l
      else case level_str level of
             None \<Rightarrow> l
           | Some name \<Rightarrow>
               l\<lparr>g_lf := append_line (g_lf l) (clock l (reads l) @ '' '' @ name @ '' '' @ msg),
                 reads := reads l + 1\<rparr>)"

text \<open>\<open>contents\<close>: what \<open>fopen\<close> in append mode finds in the file, if it can be opened.\<close>

definition log_open :: "string list option \<Rightarrow> logger \<Rightarrow> int \<times> logger" where
  "log_open contents l =
     (case contents of None \<Rightarrow> (-1, l\<lparr>g_lf := Null\<rparr>)
      | Some lines \<Rightarrow> (0, l\<lparr>g_lf := Open lines\<rparr>))"

definition log_close :: "logger \<Rightarrow> logger" where
  "log_close l = (case g_lf l of
      Null \<Rightarrow> l
    | Open lines \<Rightarrow> l\<lparr>g_lf := Closed lines\<rparr>
    | _ \<Rightarrow> l\<lparr>g_lf := Dangling\<rparr>)"

definition log_flush :: "logger \<Rightarrow> logger" where
  "log_flush l = (case g_lf l of
      Null \<Rightarrow> l
    | Open lines \<Rightarrow> l
    | _ \<Rightarrow> l\<lparr>g_lf := Dangling\<rparr>)"

definition log_lines :: "logger \<Rightarrow> string list" where
  "log_lines l = (case g_lf l of Open lines \<Rightarrow> lines | Closed lines \<Rightarrow> lines | _ \<Rightarrow> [])"

text \<open>The log only grows while the server runs: a sequence of entries.\<close>

fun log_entries :: "(int \<times> string) list \<Rightarrow> logger \<Rightarrow> logger" where
  "log_entries [] l = l"
| "log_entries ((level, msg) # es) l = log_entries es (log_add level msg l)"

lemma log_entries_append: "log_entries (es @ fs) l = log_entries fs (log_entries es l)"
  by (induction es l rule: log_entries.induct) simp_all

lemma log_add_Null [simp]: "g_lf l = Null \<Longrightarrow> log_add level msg l = l"
  by (simp add: log_add_def)

lemma log_add_clock [simp]: "clock (log_add level msg l) = clock l"
  by (simp add: log_add_def split: option.split)

definition entry_line :: "(nat \<Rightarrow> string) \<Rightarrow> nat \<Rightarrow> int \<times> string \<Rightarrow> string" where
  "entry_line clk i e = clk i @ '' '' @ the (level_str (fst e)) @ '' '' @ snd e"

definition known_level :: "int \<times> string \<Rightarrow> bool" where
  "known_level e \<longleftrightarrow> fst e \<in> {1..4}"

lemma known_level_str: "known_level e \<longleftrightarrow> level_str (fst e) \<noteq> None"
  by (auto simp: known_level_def level_str_def wslog_codes)

text \<open>An open log keeps what it has and gains one line per entry of a known level, in the order
  of the calls, each stamped by its own reading of the clock; entries of other levels are dropped.\<close>

theorem log_appends:
  assumes "g_lf l = Open lines"
  shows "g_lf (log_entries es l) =
    Open (lines @ map (\<lambda>(i, e). entry_line (clock l) i e) (enumerate (reads l) (filter known_level es)))"
  using assms
proof (induction es arbitrary: l lines)
  case (Cons e es)
  obtain level msg where e: "e = (level, msg)" by (cases e)
  show ?case
  proof (cases "known_level e")
    case False
    then have "level_str level = None" using e by (simp add: known_level_str)
    then have "log_add level msg l = l" by (simp add: log_add_def)
    then show ?thesis using Cons e False by simp
  next
    case True
    then obtain name where n: "level_str level = Some name" using e by (auto simp: known_level_str)
    have l': "g_lf (log_add level msg l) = Open (lines @ [entry_line (clock l) (reads l) e])"
      "reads (log_add level msg l) = Suc (reads l)"
      using Cons.prems n e by (simp_all add: log_add_def append_line_def entry_line_def)
    show ?thesis using Cons.IH [OF l'(1)] True e l'(2) by simp
  qed
qed simp

theorem log_appends_witness:
  "g_lf (log_entries [(1, ''a''), (9, ''b''), (3, ''c'')] \<lparr>g_lf = Open [''old''], clock = (\<lambda>i. ''t''), reads = 0\<rparr>) =
    Open [''old'', ''t INF a'', ''t ERR c'']"
  using log_appends [of "\<lparr>g_lf = Open [''old''], clock = (\<lambda>i. ''t''), reads = 0\<rparr>" "[''old'']"
      "[(1, ''a''), (9, ''b''), (3, ''c'')]"]
  by (simp add: known_level_def entry_line_def level_str_def wslog_codes)

section \<open>Run-time data and global flags\<close>

record 'c wsrt =
  rc :: "'c rai"
  multithreaded :: bool
  reqperiod :: int
  reqcount :: int
  max_post_data_size :: int
  expiration :: int
  immutable :: bool
  bar :: bool

record 'c server =
  g_rt :: "'c wsrt"
  g_redis_error :: bool
  g_shutdown :: bool
  g_log :: logger

definition shutting_down :: "'c server \<Rightarrow> bool" where
  "shutting_down w = g_shutdown w"

abbreviation upd_rc :: "('c rai \<Rightarrow> 'c rai) \<Rightarrow> 'c server \<Rightarrow> 'c server" where
  "upd_rc f w \<equiv> w\<lparr>g_rt := (g_rt w)\<lparr>rc := f (rc (g_rt w))\<rparr>\<rparr>"

definition add_log :: "int \<Rightarrow> string \<Rightarrow> 'c server \<Rightarrow> 'c server" where
  "add_log level msg w = w\<lparr>g_log := log_add level msg (g_log w)\<rparr>"

text \<open>A command on the shared handle, as part of a step of the server.\<close>

definition redis_cmd :: "'c hiredis \<Rightarrow> string list \<Rightarrow> 'c server \<Rightarrow> redisReply option \<times> 'c server" where
  "redis_cmd api argv w =
     (let (reply, r) = redisCommand api (rc (g_rt w)) argv
      in (reply, w\<lparr>g_rt := (g_rt w)\<lparr>rc := r\<rparr>\<rparr>))"

definition handle_redis_error :: "'c hiredis \<Rightarrow> 'c server \<Rightarrow> 'c server" where
  "handle_redis_error api w =
     (case ctx (rc (g_rt w)) of
        None \<Rightarrow> w
      | Some c \<Rightarrow>
          let err = hi_err api c;
              named = (\<lambda>etype. add_log WSLOG_ERR (etype @ '': '' @ hi_errstr api c) w);
              w = (if err = REDIS_ERR_IO then add_log WSLOG_ERR (''REDIS_ERR_IO: '' @ hi_strerror api c) w
                   else if err = REDIS_ERR_EOF then named ''REDIS_ERR_EOF''
                   else if err = REDIS_ERR_PROTOCOL then named ''REDIS_ERR_PROTOCOL''
                   else if err = REDIS_ERR_OOM then named ''REDIS_ERR_OOM''
                   else if err = REDIS_ERR_OTHER then named ''REDIS_ERR_OTHER''
                   else named ''UNKNOWN'')
          in w\<lparr>g_redis_error := True, g_shutdown := True\<rparr>)"

definition lock_if :: "'c server \<Rightarrow> 'c server" where
  "lock_if w = (if multithreaded (g_rt w) then upd_rc rai_lock w else w)"

definition unlock_if :: "'c server \<Rightarrow> 'c server" where
  "unlock_if w = (if multithreaded (g_rt w) then upd_rc rai_unlock w else w)"

text \<open>The database a server works on, seen through a view of redis.\<close>

definition db :: "('c \<Rightarrow> string \<rightharpoonup> string) \<Rightarrow> 'c server \<Rightarrow> string \<rightharpoonup> string" where
  "db view w = (case ctx (rc (g_rt w)) of None \<Rightarrow> Map.empty | Some c \<Rightarrow> view c)"

definition online :: "'c server \<Rightarrow> bool" where
  "online w \<longleftrightarrow> ctx (rc (g_rt w)) \<noteq> None"

text \<open>The settings no request may change.\<close>

definition settings :: "'c server \<Rightarrow> bool \<times> int \<times> int \<times> int \<times> int \<times> bool \<times> bool" where
  "settings w = (multithreaded (g_rt w), reqperiod (g_rt w), reqcount (g_rt w),
     max_post_data_size (g_rt w), expiration (g_rt w), immutable (g_rt w), bar (g_rt w))"

lemma settings_eq:
  "settings w = settings w' \<Longrightarrow>
     multithreaded (g_rt w) = multithreaded (g_rt w') \<and> reqperiod (g_rt w) = reqperiod (g_rt w') \<and>
     reqcount (g_rt w) = reqcount (g_rt w') \<and> max_post_data_size (g_rt w) = max_post_data_size (g_rt w') \<and>
     expiration (g_rt w) = expiration (g_rt w') \<and> immutable (g_rt w) = immutable (g_rt w') \<and>
     bar (g_rt w) = bar (g_rt w')"
  by (simp add: settings_def)

lemma add_log_simps [simp]:
  "g_rt (add_log level msg w) = g_rt w" "g_shutdown (add_log level msg w) = g_shutdown w"
  "g_redis_error (add_log level msg w) = g_redis_error w"
  "db view (add_log level msg w) = db view w" "online (add_log level msg w) = online w"
  "settings (add_log level msg w) = settings w"
  by (simp_all add: add_log_def db_def online_def settings_def)

lemma lock_simps [simp]:
  "db view (lock_if w) = db view w" "online (lock_if w) = online w"
  "settings (lock_if w) = settings w" "g_shutdown (lock_if w) = g_shutdown w"
  "g_log (lock_if w) = g_log w" "g_redis_error (lock_if w) = g_redis_error w"
  "db view (unlock_if w) = db view w" "online (unlock_if w) = online w"
  "settings (unlock_if w) = settings w" "g_shutdown (unlock_if w) = g_shutdown w"
  "g_log (unlock_if w) = g_log w" "g_redis_error (unlock_if w) = g_redis_error w"
  by (simp_all add: lock_if_def unlock_if_def rai_lock_def rai_unlock_def db_def online_def settings_def)

lemma handle_redis_error_simps [simp]:
  "rc (g_rt (handle_redis_error api w)) = rc (g_rt w)"
  "db view (handle_redis_error api w) = db view w" "online (handle_redis_error api w) = online w"
  "settings (handle_redis_error api w) = settings w"
  by (simp_all add: handle_redis_error_def Let_def db_def online_def settings_def add_log_def
      split: option.split)

lemma handle_redis_error_flags:
  "online w \<Longrightarrow> g_redis_error (handle_redis_error api w) \<and> g_shutdown (handle_redis_error api w)"
  by (auto simp: handle_redis_error_def online_def Let_def)

lemma redis_cmd_simps [simp]:
  "online (snd (redis_cmd api argv w)) = online w" "settings (snd (redis_cmd api argv w)) = settings w"
  "g_shutdown (snd (redis_cmd api argv w)) = g_shutdown w"
  "g_redis_error (snd (redis_cmd api argv w)) = g_redis_error w"
  "g_log (snd (redis_cmd api argv w)) = g_log w"
  "rl (rc (g_rt (snd (redis_cmd api argv w)))) = rl (rc (g_rt w))"
  by (simp_all add: redis_cmd_def redisCommand_def online_def settings_def
      split: prod.split option.split)

text \<open>A command under the contract: its effect on the database and the reply that reports it.\<close>

lemma redis_cmd_contract:
  assumes "redis_contract api view" and "supported argv" and "online w"
    and "redis_cmd api argv w = (reply, w')"
  shows "reply = Some (fst (redis_do (db view w) argv)) \<and> db view w' = snd (redis_do (db view w) argv) \<or>
     (\<exists>e. reply = Some (REDIS_REPLY_ERROR e)) \<and> db view w' = db view w \<or>
     reply = None \<and> (db view w' = db view w \<or> db view w' = snd (redis_do (db view w) argv))"
proof -
  obtain c where c: "ctx (rc (g_rt w)) = Some c" using assms(3) by (auto simp: online_def)
  obtain r' where r': "redisCommand api (rc (g_rt w)) argv = (reply, r')" "w' = w\<lparr>g_rt := (g_rt w)\<lparr>rc := r'\<rparr>\<rparr>"
    using assms(4) by (auto simp: redis_cmd_def Let_def split: prod.splits)
  from redis_contractD [OF assms(1,2) c r'(1)] show ?thesis
    by (metis (mono_tags, lifting) c r'(2) db_def option.simps(5) rai.select_convs(1) rai.surjective
        rai.update_convs(1) server.select_convs(1) server.surjective server.update_convs(1)
        wsrt.select_convs(1) wsrt.surjective wsrt.update_convs(1))
qed

lemma redis_cmd_up:
  assumes "redis_up api view" and "supported argv" and "online w"
  obtains w' where "redis_cmd api argv w = (Some (fst (redis_do (db view w) argv)), w')"
    and "db view w' = snd (redis_do (db view w) argv)"
proof -
  obtain c where c: "ctx (rc (g_rt w)) = Some c" using assms(3) by (auto simp: online_def)
  from redis_upD [OF assms(1,2) c] obtain c' where
    "redisCommand api (rc (g_rt w)) argv =
       (Some (fst (redis_do (view c) argv)), (rc (g_rt w))\<lparr>ctx := Some c'\<rparr>)"
    "view c' = snd (redis_do (view c) argv)" by blast
  then show ?thesis using c by (intro that) (auto simp: redis_cmd_def db_def)
qed

text \<open>A server to evaluate examples on.\<close>

definition sample_server :: "bool \<Rightarrow> bool \<Rightarrow> (string \<rightharpoonup> string) server" where
  "sample_server imm burn =
     \<lparr>g_rt = \<lparr>rc = \<lparr>ctx = Some Map.empty, rl = False, connected = True\<rparr>, multithreaded = True,
        reqperiod = 60, reqcount = 2, max_post_data_size = 20971520, expiration = 3600,
        immutable = imm, bar = burn\<rparr>,
      g_redis_error = False, g_shutdown = False,
      g_log = \<lparr>g_lf = Open [], clock = show_nat, reads = 0\<rparr>\<rparr>"

lemma sample_server_simps [simp]:
  "online (sample_server imm burn)" "expiration (g_rt (sample_server imm burn)) = 3600"
  "db view (sample_server imm burn) = view Map.empty"
  "immutable (g_rt (sample_server imm burn)) = imm" "bar (g_rt (sample_server imm burn)) = burn"
  "\<not> g_shutdown (sample_server imm burn)" "\<not> rl (rc (g_rt (sample_server imm burn)))"
  "multithreaded (g_rt (sample_server imm burn))" "reqcount (g_rt (sample_server imm burn)) = 2"
  "reqperiod (g_rt (sample_server imm burn)) = 60"
  "max_post_data_size (g_rt (sample_server imm burn)) = 20971520"
  by (simp_all add: sample_server_def online_def db_def)

end
