(* ===== verification/WS_Conn.thy ===== *)
theory WS_Conn
  imports WS_State Searest
begin

text \<open>
  Admission of connections by address, webstore_conn.c and \<open>ws_addr_check\<close> of webstore_uhd.c: a
  counter per address in redis, with the period as its lifetime. The result 1 allows and 0 denies.
\<close>

definition ip_key :: "string \<Rightarrow> string" where
  "ip_key addr = ''IPS:'' @ addr"

definition save_ip :: "'c hiredis \<Rightarrow> string \<Rightarrow> bool \<Rightarrow> int \<Rightarrow> 'c server \<Rightarrow> 'c server" where
  "save_ip api addr found period w =
     (let (reply, w) =
        (if \<not> found then redis_cmd api [''SET'', ip_key addr, ''1'', ''EX'', show_int period] w
         else redis_cmd api [''INCR'', ip_key addr] w)
      in case reply of None \<Rightarrow> handle_redis_error api w | Some _ \<Rightarrow> w)"

definition check_ip :: "'c hiredis \<Rightarrow> string \<Rightarrow> 'c server \<Rightarrow> int \<times> 'c server" where
  "check_ip api addr w =
     (let (reply, w) = redis_cmd api [''GET'', ip_key addr] w
      in case reply of
           None \<Rightarrow> (0, handle_redis_error api w)
         | Some REDIS_REPLY_NIL \<Rightarrow>
             let w = add_log WSLOG_INFO (addr @ '' new connection allowed (count: 1)'') w
             in (1, save_ip api addr False (reqperiod (g_rt w)) w)
         | Some (REDIS_REPLY_STRING s) \<Rightarrow>
             let count = c_atoi (cstr s) in
             if count < reqcount (g_rt w) then
               let w = add_log WSLOG_INFO
                     (addr @ '' new connection allowed (count: '' @ show_int (count + 1) @ '')'') w
               in (1, save_ip api addr True (reqperiod (g_rt w)) w)
             else
               (0, add_log WSLOG_INFO
                     (addr @ '' new connection denied (count: '' @ show_int (count + 1) @ '')'') w)
         | Some _ \<Rightarrow> (0, w))"

definition allow_ip :: "'c hiredis \<Rightarrow> string \<Rightarrow> 'c server \<Rightarrow> int \<times> 'c server" where
  "allow_ip api addr w =
     (let w = lock_if w;
          (retval, w) = check_ip api addr w
      in (retval, unlock_if w))"

definition ws_addr_check :: "'c hiredis \<Rightarrow> 'c server conn_cb" where
  "ws_addr_check api inc_ip w =
     (if inc_ip = ''127.0.0.1'' then (MHD_YES, w)
      else
        let (z, w) = allow_ip api inc_ip w
        in if z = 0 then (MHD_NO, w) else (MHD_YES, w))"

section \<open>Effect of one connection\<close>

lemma redis_cmd_upE:
  assumes "redis_up api view" and "supported argv" and "online w"
  shows "\<exists>w'. redis_cmd api argv w = (Some (fst (redis_do (db view w) argv)), w') \<and>
    db view w' = snd (redis_do (db view w) argv) \<and> online w' \<and> settings w' = settings w \<and>
    g_shutdown w' = g_shutdown w"
proof -
  obtain w' where w': "redis_cmd api argv w = (Some (fst (redis_do (db view w) argv)), w')"
    "db view w' = snd (redis_do (db view w) argv)"
    by (rule redis_cmd_up [OF assms])
  have "online (snd (redis_cmd api argv w)) = online w" "settings (snd (redis_cmd api argv w)) = settings w"
    "g_shutdown (snd (redis_cmd api argv w)) = g_shutdown w" by simp_all
  then show ?thesis using assms(3) w'(2) unfolding w'(1) by auto
qed

lemma ip_key_inj [simp]: "ip_key a = ip_key b \<longleftrightarrow> a = b"
  by (simp add: ip_key_def)

text \<open>The counter of an address: absent is 0, and only decimal numerals are stored.\<close>

definition counter :: "(string \<rightharpoonup> string) \<Rightarrow> string \<Rightarrow> nat \<Rightarrow> bool" where
  "counter m addr n \<longleftrightarrow> (if n = 0 then m (ip_key addr) = None else m (ip_key addr) = Some (show_nat n))"

lemma show_int_nat [simp]: "show_int (int n) = show_nat n"
  by (simp add: show_int_def)

lemma incr_counter: "n < 2 ^ 31 \<Longrightarrow> incr_value (Some (show_nat n)) = Some (int n + 1)"
  by (simp add: incr_value_def strtol10_show_nat LONG_MAX_def)

lemma show_nat_1: "show_nat 1 = ''1''"
  by (simp add: show_nat.simps digit_char_def char_of_def bit_0 bit_numeral_rec)

lemma check_ip_up:
  assumes "redis_up api view" and "online w" and "0 < reqperiod (g_rt w)" and "0 < reqcount (g_rt w)"
    and "counter (db view w) addr n" and "n < 2 ^ 31 - 1"
  shows "\<exists>w'. check_ip api addr w = ((if int n < reqcount (g_rt w) then 1 else 0), w') \<and>
    db view w' = (if int n < reqcount (g_rt w) then (db view w)(ip_key addr \<mapsto> show_nat (n + 1)) else db view w) \<and>
    online w' \<and> settings w' = settings w \<and> g_shutdown w' = g_shutdown w"
proof -
  obtain w1 where g: "redis_cmd api [''GET'', ip_key addr] w = (Some (redis_get (db view w) (ip_key addr)), w1)"
    and w1: "db view w1 = db view w" "online w1" "settings w1 = settings w" "g_shutdown w1 = g_shutdown w"
    using redis_cmd_upE [OF assms(1) _ assms(2), of "[''GET'', ip_key addr]"] by auto
  have s: "reqperiod (g_rt w1) = reqperiod (g_rt w)" "reqcount (g_rt w1) = reqcount (g_rt w)"
    using settings_eq [OF w1(3)] by simp_all
  show ?thesis
  proof (cases "n = 0")
    case True
    let ?l = "add_log WSLOG_INFO (addr @ '' new connection allowed (count: 1)'') w1"
    obtain w2 where "redis_cmd api [''SET'', ip_key addr, ''1'', ''EX'', show_int (reqperiod (g_rt w))] ?l =
        (Some (REDIS_REPLY_STATUS ''OK''), w2)" "db view w2 = (db view w)(ip_key addr \<mapsto> ''1'')"
        "online w2" "settings w2 = settings w" "g_shutdown w2 = g_shutdown w"
      using redis_cmd_upE [OF assms(1), of "[''SET'', ip_key addr, ''1'', ''EX'', show_int (reqperiod (g_rt w))]" ?l]
        assms(3) w1 NX_not_number [of "reqperiod (g_rt w)"] by auto
    then show ?thesis
      using True assms(4,5) g s show_nat_1 by (simp add: check_ip_def save_ip_def counter_def redis_get_def)
  next
    case False
    then have v: "db view w (ip_key addr) = Some (show_nat n)" using assms(5) by (simp add: counter_def)
    have at: "c_atoi (show_nat n) = int n" using assms(6) by (simp add: c_atoi_show_nat)
    show ?thesis
    proof (cases "int n < reqcount (g_rt w)")
      case True
      let ?l = "add_log WSLOG_INFO (addr @ '' new connection allowed (count: '' @ show_int (int n + 1) @ '')'') w1"
      have "incr_value (Some (show_nat n)) = Some (int n + 1)" using assms(6) by (intro incr_counter) simp
      moreover have "show_int (int n + 1) = show_nat (n + 1)"
        using show_int_nat [of "n + 1"] by (simp add: add.commute)
      ultimately obtain w2 where "redis_cmd api [''INCR'', ip_key addr] ?l =
          (Some (REDIS_REPLY_INTEGER (int n + 1)), w2)" "db view w2 = (db view w)(ip_key addr \<mapsto> show_nat (n + 1))"
          "online w2" "settings w2 = settings w" "g_shutdown w2 = g_shutdown w"
        using redis_cmd_upE [OF assms(1), of "[''INCR'', ip_key addr]" ?l] w1 v by auto
      then show ?thesis
        using True g s v at by (simp add: check_ip_def save_ip_def redis_get_def)
    next
      case False
      then show ?thesis
        using g s v at w1 by (simp add: check_ip_def redis_get_def)
    qed
  qed
qed

text \<open>The verdicts on a sequence of connections from one address.\<close>

fun connections :: "'c hiredis \<Rightarrow> string \<Rightarrow> nat \<Rightarrow> 'c server \<Rightarrow> mhd_result list \<times> 'c server" where
  "connections api addr 0 w = ([], w)"
| "connections api addr (Suc m) w =
     (let (v, w) = ws_addr_check api addr w; (vs, w) = connections api addr m w in (v # vs, w))"

lemma ws_addr_check_up:
  assumes "redis_up api view" and "online w" and "0 < reqperiod (g_rt w)" and "0 < reqcount (g_rt w)"
    and "counter (db view w) addr n" and "n < 2 ^ 31 - 1" and "addr \<noteq> ''127.0.0.1''"
  shows "\<exists>w'. ws_addr_check api addr w = ((if int n < reqcount (g_rt w) then MHD_YES else MHD_NO), w') \<and>
    counter (db view w') addr (if int n < reqcount (g_rt w) then n + 1 else n) \<and>
    online w' \<and> settings w' = settings w"
proof -
  have s: "reqperiod (g_rt (lock_if w)) = reqperiod (g_rt w)" "reqcount (g_rt (lock_if w)) = reqcount (g_rt w)"
    using settings_eq [of "lock_if w" w] by simp_all
  obtain w' where w': "check_ip api addr (lock_if w) = ((if int n < reqcount (g_rt w) then 1 else 0), w')"
    "db view w' = (if int n < reqcount (g_rt w) then (db view w)(ip_key addr \<mapsto> show_nat (n + 1)) else db view w)"
    "online w'" "settings w' = settings w"
    using check_ip_up [OF assms(1), of "lock_if w" addr n] assms s by auto
  then show ?thesis
    using assms(5,7) by (auto simp: ws_addr_check_def allow_ip_def counter_def)
qed

text \<open>C12: the rate limit. On a server over a redis that is up, with positive REQPERIOD and REQCOUNT (with
  others \<open>webstore_start\<close> registers no check at all): of the connections that arrive from an address
  without a counter before the counter expires, fewer than \<open>2 ^ 31 - 1\<close>, exactly the first REQCOUNT are
  accepted. All those from 127.0.0.1 are, which is never counted.\<close>

theorem rate_limit_exact:
  assumes "redis_up api view" and "online w" and "0 < reqperiod (g_rt w)" and "0 < reqcount (g_rt w)"
    and "db view w (ip_key addr) = None" and "m < 2 ^ 31 - 1"
  shows "fst (connections api addr m w) =
    (if addr = ''127.0.0.1'' then replicate m MHD_YES
     else replicate (min m (nat (reqcount (g_rt w)))) MHD_YES @ replicate (m - nat (reqcount (g_rt w))) MHD_NO)"
proof (cases "addr = ''127.0.0.1''")
  case True
  have "fst (connections api ''127.0.0.1'' m w) = replicate m MHD_YES" for w
    by (induction m arbitrary: w) (simp_all add: ws_addr_check_def split_beta Let_def)
  then show ?thesis using True by simp
next
  case False
  have step: "fst (connections api addr m w) =
      replicate (min m (nat (reqcount (g_rt w) - int n))) MHD_YES @
      replicate (m - nat (reqcount (g_rt w) - int n)) MHD_NO"
    if "counter (db view w) addr n" and "online w" and "n + m < 2 ^ 31 - 1"
      and "0 < reqperiod (g_rt w)" and "0 < reqcount (g_rt w)" for m n w
    using that
  proof (induction m arbitrary: n w)
    case (Suc m)
    let ?n' = "if int n < reqcount (g_rt w) then n + 1 else n"
    obtain w' where w': "ws_addr_check api addr w = ((if int n < reqcount (g_rt w) then MHD_YES else MHD_NO), w')"
      "counter (db view w') addr ?n'" "online w'" "settings w' = settings w"
      using ws_addr_check_up [OF assms(1) Suc.prems(2,4,5,1) _ False] Suc.prems(3) by auto
    have s: "reqperiod (g_rt w') = reqperiod (g_rt w)" "reqcount (g_rt w') = reqcount (g_rt w)"
      using settings_eq [OF w'(4)] by simp_all
    have ih: "fst (connections api addr m w') =
      replicate (min m (nat (reqcount (g_rt w) - int ?n'))) MHD_YES @
      replicate (m - nat (reqcount (g_rt w) - int ?n')) MHD_NO"
      using Suc.IH [OF w'(2,3)] Suc.prems s by simp
    show ?case
    proof (cases "int n < reqcount (g_rt w)")
      case True
      then have "nat (reqcount (g_rt w) - int n) = Suc (nat (reqcount (g_rt w) - int (n + 1)))" by simp
      then show ?thesis using ih w'(1) True by (simp add: split_beta)
    next
      case False
      then have "nat (reqcount (g_rt w) - int n) = 0" by simp
      then show ?thesis using ih w'(1) False by (simp add: split_beta)
    qed
  qed simp
  show ?thesis using step [of w 0 m] assms False by (simp add: counter_def)
qed

theorem rate_limit_exact_witness:
  "fst (connections plain_redis ''192.0.2.7'' 5 (sample_server False False)) =
   [MHD_YES, MHD_YES, MHD_NO, MHD_NO, MHD_NO]"
proof -
  have "replicate 2 MHD_YES @ replicate 3 MHD_NO = [MHD_YES, MHD_YES, MHD_NO, MHD_NO, MHD_NO]"
    by (simp add: numeral_2_eq_2 numeral_3_eq_3)
  then show ?thesis
    using rate_limit_exact [OF plain_redis_up, of "sample_server False False" "''192.0.2.7''" 5] by simp
qed

text \<open>The lock and the settings survive every verdict, whatever redis answers.\<close>

lemma save_ip_keeps [simp]:
  "online (save_ip api addr found p w) = online w" "settings (save_ip api addr found p w) = settings w"
  "rl (rc (g_rt (save_ip api addr found p w))) = rl (rc (g_rt w))"
  by (simp_all add: save_ip_def Let_def split_beta split: option.split)

lemma check_ip_keeps:
  "online (snd (check_ip api addr w)) = online w" "settings (snd (check_ip api addr w)) = settings w"
  "rl (rc (g_rt (snd (check_ip api addr w)))) = rl (rc (g_rt w))"
  by (simp_all add: check_ip_def Let_def split_beta split: option.split redisReply.split)

text \<open>C20: the verdict on a connection when redis fails. A missing reply, an error or a reply of an
  unexpected type to the lookup denies it (localhost apart, which is never looked up), a missing
  reply also begins the shutdown; the lock is released on every path.\<close>

theorem failing_lookup_denies:
  assumes "\<not> rl (rc (g_rt w))" and "online w" and "ws_addr_check api addr w = (verdict, w')"
    and "fst (redis_cmd api [''GET'', ip_key addr] (lock_if w)) = reply"
  shows "\<not> rl (rc (g_rt w')) \<and> settings w' = settings w \<and> online w' \<and>
    (addr = ''127.0.0.1'' \<longrightarrow> verdict = MHD_YES \<and> w' = w) \<and>
    (addr \<noteq> ''127.0.0.1'' \<longrightarrow>
       (\<forall>s. reply \<noteq> Some (REDIS_REPLY_STRING s)) \<and> reply \<noteq> Some REDIS_REPLY_NIL \<longrightarrow> verdict = MHD_NO) \<and>
    (addr \<noteq> ''127.0.0.1'' \<longrightarrow> reply = None \<longrightarrow> g_shutdown w' \<and> g_redis_error w')"
proof (cases "addr = ''127.0.0.1''")
  case True
  then show ?thesis using assms by (simp add: ws_addr_check_def)
next
  case False
  obtain z w1 where c: "check_ip api addr (lock_if w) = (z, w1)" by fastforce
  have k: "online w1" "settings w1 = settings w" "rl (rc (g_rt w1)) = rl (rc (g_rt (lock_if w)))"
    using check_ip_keeps [of api addr "lock_if w"] assms(2) by (simp_all add: c)
  have w': "w' = unlock_if w1" "verdict = (if z = 0 then MHD_NO else MHD_YES)"
    using assms(3) False c by (auto simp: ws_addr_check_def allow_ip_def split: if_splits)
  have "multithreaded (g_rt w1) = multithreaded (g_rt w)" using settings_eq [OF k(2)] by simp
  then have "\<not> rl (rc (g_rt w'))"
    using k(3) assms(1) by (simp add: w' unlock_if_def lock_if_def rai_unlock_def rai_lock_def split: if_splits)
  moreover have "z = 0" if "\<forall>s. reply \<noteq> Some (REDIS_REPLY_STRING s)" "reply \<noteq> Some REDIS_REPLY_NIL"
    using that c assms(4) by (auto simp: check_ip_def Let_def split_beta split: option.splits redisReply.splits)
  moreover have "g_shutdown w1 \<and> g_redis_error w1" if "reply = None"
    using that c assms(2,4) handle_redis_error_flags [of "snd (redis_cmd api [''GET'', ip_key addr] (lock_if w))" api]
    by (auto simp: check_ip_def Let_def split_beta)
  ultimately show ?thesis using False k w' by auto
qed

theorem failing_lookup_denies_witness:
  "let r = ws_addr_check dead_redis ''192.0.2.7'' (sample_server False False)
   in fst r = MHD_NO \<and> g_shutdown (snd r) \<and> \<not> rl (rc (g_rt (snd r)))"
proof -
  let ?w = "sample_server False False"
  have none: "fst (redis_cmd dead_redis [''GET'', ip_key ''192.0.2.7''] (lock_if ?w)) = None"
    by (simp add: sample_server_def lock_if_def redis_cmd_def redisCommand_def dead_redis_def rai_lock_def)
  obtain v w' where r: "ws_addr_check dead_redis ''192.0.2.7'' ?w = (v, w')" by fastforce
  from failing_lookup_denies [OF _ _ r none] have "v = MHD_NO \<and> g_shutdown w' \<and> \<not> rl (rc (g_rt w'))" by simp
  then show ?thesis using r by simp
qed

end
