(* ===== verification/WS_Files.thy ===== *)
theory WS_Files
  imports WS_Prelude
begin

text \<open>
  Reading files, futils.c. The file system is a parameter: what \<open>stat\<close> answers for a path, and the
  contents found when it is opened (which may differ from what \<open>stat\<close> saw).
\<close>

datatype stat_result = No_Entry | Stat_Error | Not_Regular | Regular int

record filesystem =
  fs_stat :: "string \<Rightarrow> stat_result"
  fs_open :: "string \<Rightarrow> string option"

definition file_size :: "filesystem \<Rightarrow> string \<Rightarrow> int" where
  "file_size fs path =
     (case fs_stat fs path of
        No_Entry \<Rightarrow> -1
      | Stat_Error \<Rightarrow> -2
      | Not_Regular \<Rightarrow> -3
      | Regular n \<Rightarrow> n)"

text \<open>\<open>fread(data, size, 1, f)\<close> succeeds when \<open>size\<close> bytes are there, and reads just these.\<close>

definition get_file :: "filesystem \<Rightarrow> string \<Rightarrow> string option" where
  "get_file fs path =
     (let sz = file_size fs path
      in if sz \<le> 0 then None
         else case fs_open fs path of
                None \<Rightarrow> None
              | Some contents \<Rightarrow>
                  if length contents < nat sz then None else Some (take (nat sz) contents))"

lemma get_file_Some:
  "get_file fs path = Some d \<Longrightarrow> fs_stat fs path = Regular (int (length d)) \<and> d \<noteq> []"
  by (auto simp: get_file_def file_size_def Let_def split: if_splits option.splits stat_result.splits)

end
