(* ===== verification/Getopts.thy ===== *)
theory Getopts
  imports WS_Prelude
begin

text \<open>
  The command-line scanner shared by the server and the clients, getopts.c. The table of options is
  a list without its terminating entry; \<open>argc\<close> is the length of \<open>argv\<close>; the static
  \<open>option_index\<close> is passed and returned. Allocation is assumed to succeed. An argument is
  compared from its third character (long names) and from its second (short names) on, whether or
  not these exist: reading past its terminating NUL is the fault \<open>OOB_Read\<close>.
\<close>

record options =
  number :: int
  opt_name :: "string option"
  description :: "string option"
  shortName :: "string option"
  takes_arg :: bool

abbreviation option_entry :: "int \<Rightarrow> string option \<Rightarrow> string \<Rightarrow> string option \<Rightarrow> bool \<Rightarrow> options" where
  "option_entry k nm d s a \<equiv>
     \<lparr>number = k, opt_name = nm, description = Some d, shortName = s, takes_arg = a\<rparr>"

section \<open>The usage text\<close>

abbreviation TAB :: string where "TAB \<equiv> [CHR 0x09]"

text \<open>The text printed into \<open>cmd\<close> and the size of the buffer allocated for it; an entry with
  neither name leaves \<open>cmd\<close> as it was.\<close>

definition usage_cmd :: "options \<Rightarrow> (string \<times> nat) option" where
  "usage_cmd opt =
     (case (opt_name opt, shortName opt) of
        (Some n, Some s) \<Rightarrow>
          Some (if takes_arg opt then ''--'' @ n @ '','' @ TAB @ ''-'' @ s @ '' <args>'' @ TAB @ TAB
                else ''--'' @ n @ '','' @ TAB @ ''-'' @ s @ TAB @ TAB @ TAB,
                length n + length s + 15)
      | (Some n, None) \<Rightarrow>
          Some (if takes_arg opt then ''--'' @ n @ '' <args>'' @ TAB @ TAB @ TAB
                else ''--'' @ n @ TAB @ TAB @ TAB,
                length n + 15)
      | (None, Some s) \<Rightarrow>
          Some (if takes_arg opt then TAB @ TAB @ ''-'' @ s @ '' <args>'' @ TAB @ TAB
                else TAB @ TAB @ ''-'' @ s @ TAB @ TAB @ TAB,
                length s + 15)
      | (None, None) \<Rightarrow> None)"

text \<open>\<open>cmd\<close> is null until the first allocation, and then printed as such; afterwards it points to the
  buffer of an entry before, which has been freed.\<close>

fun usage_lines :: "bool \<Rightarrow> options list \<Rightarrow> fault + string" where
  "usage_lines freed [] = Inr []"
| "usage_lines freed (opt # opts) =
     (case description opt of
        None \<Rightarrow> Inr []
      | Some d \<Rightarrow>
          (case usage_cmd opt of
             None \<Rightarrow>
               if freed then Inl Use_After_Free
               else bind_fault (usage_lines False opts) (\<lambda>rest. Inr (''  (null)'' @ d @ NL @ rest))
           | Some (cmd, bufsize) \<Rightarrow>
               if bufsize < length cmd + 1 then Inl OOB_Write
               else bind_fault (usage_lines True opts) (\<lambda>rest. Inr (''  '' @ cmd @ d @ NL @ rest))))"

definition getopts_usage :: "string \<Rightarrow> options list \<Rightarrow> fault + string" where
  "getopts_usage progName opts =
     bind_fault (usage_lines False opts) (\<lambda>text. Inr (''Usage: '' @ progName @ '' [options]'' @ NL @ NL @
       ''  --help,'' @ TAB @ ''-h'' @ TAB @ TAB @ TAB @ ''Displays this information'' @ NL @ text))"

section \<open>Scanning\<close>

definition matches :: "options \<Rightarrow> string \<Rightarrow> fault + bool" where
  "matches opt arg =
     (let short = (case shortName opt of
                     None \<Rightarrow> Inr False
                   | Some s \<Rightarrow> if length arg < 1 then Inl OOB_Read else Inr (s = drop 1 arg))
      in case opt_name opt of
           None \<Rightarrow> short
         | Some n \<Rightarrow>
             if length arg < 2 then Inl OOB_Read
             else if n = drop 2 arg then Inr True
             else short)"

fun find_option :: "options list \<Rightarrow> string \<Rightarrow> fault + options option" where
  "find_option [] arg = Inr None"
| "find_option (opt # opts) arg =
     (if number opt = 0 then Inr None
      else bind_fault (matches opt arg) (\<lambda>hit. if hit then Inr (Some opt) else find_option opts arg))"

text \<open>The second loop, over the entries with a description.\<close>

fun is_option :: "options list \<Rightarrow> string \<Rightarrow> fault + bool" where
  "is_option [] arg = Inr False"
| "is_option (opt # opts) arg =
     (if description opt = None then Inr False
      else bind_fault (matches opt arg) (\<lambda>hit. if hit then Inr True else is_option opts arg))"

datatype scan = Usage_Exit | Return int "string option"

definition starts_dash :: "string \<Rightarrow> bool" where
  "starts_dash s \<longleftrightarrow> s \<noteq> [] \<and> hd s = CHR ''-''"

text \<open>What happens to the argument at \<open>option_index\<close>, given the entry it matches, if any.\<close>

definition scan_word :: "string list \<Rightarrow> options list \<Rightarrow> nat \<Rightarrow> options option \<Rightarrow> fault + (scan \<times> nat)" where
  "scan_word argv opts option_index found =
     (case found of
        Some opt \<Rightarrow>
          if takes_arg opt then
            let i = option_index + 1 in
            if length argv \<le> i then Inr (Usage_Exit, i)
            else
              bind_fault (if starts_dash (argv ! i) then is_option opts (argv ! i) else Inr False)
                (\<lambda>clash. if clash then Inr (Usage_Exit, i)
                         else Inr (Return (number opt) (Some (argv ! i)), i + 1))
          else Inr (Return (number opt) None, option_index + 1)
      | None \<Rightarrow>
          if starts_dash (argv ! option_index)
          then Inr (Return (-2) (Some (argv ! option_index)), option_index + 1)
          else Inr (Return 0 None, option_index))"

definition asks_help :: "string list \<Rightarrow> bool" where
  "asks_help argv \<longleftrightarrow> (\<exists>s \<in> set (drop 1 argv). s = ''-h'' \<or> s = ''--help'')"

definition getopts :: "string list \<Rightarrow> options list \<Rightarrow> nat \<Rightarrow> fault + (scan \<times> nat)" where
  "getopts argv opts option_index =
     (let argc = length argv in
      if argc = 1 \<or> option_index = argc then Inr (Return 0 None, option_index)
      else if asks_help argv then Inr (Usage_Exit, option_index)
      else if option_index \<le> argc then
        bind_fault (find_option opts (argv ! option_index)) (scan_word argv opts option_index)
      else Inr (Return 0 None, option_index))"

lemma scan_word_progress:
  assumes "scan_word argv opts i found = Inr (Return k a, i')" and "k \<noteq> 0" and "i < length argv"
  shows "i < i' \<and> i' \<le> length argv"
proof (cases found)
  case None
  then show ?thesis using assms by (auto simp: scan_word_def split: if_splits)
next
  case (Some opt)
  then show ?thesis
    using assms
    by (cases "takes_arg opt"; cases "length argv \<le> i + 1")
      (auto simp: scan_word_def Let_def bind_fault_Inr split: if_splits)
qed

lemma getopts_progress:
  assumes "getopts argv opts i = Inr (Return k a, i')" and "k \<noteq> 0"
  shows "i < i' \<and> i < length argv \<and> i' \<le> length argv"
proof -
  have "i < length argv"
    using assms by (auto simp: getopts_def Let_def split: if_splits)
  moreover obtain found where "scan_word argv opts i found = Inr (Return k a, i')"
    using assms by (auto simp: getopts_def Let_def bind_fault_Inr split: if_splits)
  ultimately show ?thesis using scan_word_progress assms(2) by blast
qed

text \<open>The loop of every \<open>parse_args\<close>: what the scanner returned, and how it ended.\<close>

datatype ending = Finished | Usage | Faulted fault

function scan_args :: "string list \<Rightarrow> options list \<Rightarrow> nat \<Rightarrow> (int \<times> string option) list \<times> ending" where
  "scan_args argv opts i =
     (case getopts argv opts i of
        Inl e \<Rightarrow> ([], Faulted e)
      | Inr (Usage_Exit, i') \<Rightarrow> ([], Usage)
      | Inr (Return k a, i') \<Rightarrow>
          if k = 0 then ([], Finished)
          else (let (es, fin) = scan_args argv opts i' in ((k, a) # es, fin)))"
  by auto

termination
  by (relation "measure (\<lambda>(argv, opts, i). length argv - i)")
    (use getopts_progress in \<open>fastforce+\<close>)

declare scan_args.simps [simp del]

lemma scan_args_Return:
  "getopts argv opts i = Inr (Return k a, i') \<Longrightarrow> k \<noteq> 0 \<Longrightarrow>
   scan_args argv opts i = ((k, a) # fst (scan_args argv opts i'), snd (scan_args argv opts i'))"
  by (subst scan_args.simps) (simp add: split_beta)

text \<open>How parsing ends: with the globals set, with the usage text, with an error, or in a fault.\<close>

datatype 'g parsed = Parsed 'g | Usage_Shown | Failure | Crash fault

definition after_scan :: "ending \<Rightarrow> 'g parsed \<Rightarrow> 'g parsed" where
  "after_scan fin r = (case fin of Finished \<Rightarrow> r | Usage \<Rightarrow> Usage_Shown | Faulted e \<Rightarrow> Crash e)"

section \<open>Command lines that are understood\<close>

text \<open>A table as the programs have them: numbers positive, descriptions everywhere, a long name of at
  least two letters, not \<open>help\<close>, a short name of one letter, not \<open>h\<close>, if any, and no name twice.\<close>

definition entry_ok :: "options \<Rightarrow> bool" where
  "entry_ok opt \<longleftrightarrow> 0 < number opt \<and> description opt \<noteq> None \<and>
     opt_name opt \<noteq> None \<and> 2 \<le> length (the (opt_name opt)) \<and> opt_name opt \<noteq> Some ''help'' \<and>
     (shortName opt = None \<or> length (the (shortName opt)) = 1 \<and> shortName opt \<noteq> Some ''h'')"

definition table_ok :: "options list \<Rightarrow> bool" where
  "table_ok opts \<longleftrightarrow> distinct (map opt_name opts) \<and>
     distinct (filter (\<lambda>s. s \<noteq> None) (map shortName opts)) \<and> (\<forall>opt \<in> set opts. entry_ok opt)"

text \<open>The words a user writes for an option, in its long or its short form, with its argument.\<close>

record usage =
  opt_used :: options
  short_form :: bool
  arg_given :: string

definition option_word :: "usage \<Rightarrow> string" where
  "option_word u = (if short_form u then ''-'' @ the (shortName (opt_used u))
     else ''--'' @ the (opt_name (opt_used u)))"

definition words :: "usage \<Rightarrow> string list" where
  "words u = option_word u # (if takes_arg (opt_used u) then [arg_given u] else [])"

definition event :: "usage \<Rightarrow> int \<times> string option" where
  "event u = (number (opt_used u), if takes_arg (opt_used u) then Some (arg_given u) else None)"

definition usage_ok :: "options list \<Rightarrow> usage \<Rightarrow> bool" where
  "usage_ok opts u \<longleftrightarrow> opt_used u \<in> set opts \<and> (short_form u \<longrightarrow> shortName (opt_used u) \<noteq> None) \<and>
     (takes_arg (opt_used u) \<longrightarrow> \<not> starts_dash (arg_given u))"

lemma matches_self:
  assumes "entry_ok (opt_used u)" and "short_form u \<longrightarrow> shortName (opt_used u) \<noteq> None"
  shows "matches (opt_used u) (option_word u) = Inr True"
  using assms by (auto simp: matches_def option_word_def entry_ok_def)

lemma matches_other:
  assumes "entry_ok (opt_used u)" and "short_form u \<longrightarrow> shortName (opt_used u) \<noteq> None"
    and "entry_ok opt" and "opt_name opt \<noteq> opt_name (opt_used u)"
    and "shortName opt = None \<or> shortName opt \<noteq> shortName (opt_used u)"
  shows "matches opt (option_word u) = Inr False"
  using assms
  by (cases "short_form u"; cases "shortName opt")
    (auto simp: matches_def option_word_def entry_ok_def length_Suc_conv split: if_splits)

lemma find_option_word:
  assumes "table_ok opts" and "opt_used u \<in> set opts"
    and "short_form u \<longrightarrow> shortName (opt_used u) \<noteq> None"
  shows "find_option opts (option_word u) = Inr (Some (opt_used u))"
  using assms(1,2)
proof (induction opts)
  case (Cons o1 opts)
  have ok: "entry_ok o1" "entry_ok (opt_used u)" "table_ok opts"
    using Cons.prems by (auto simp: table_ok_def split: if_splits)
  then have num: "number o1 \<noteq> 0" by (simp add: entry_ok_def)
  show ?case
  proof (cases "o1 = opt_used u")
    case True
    then show ?thesis using matches_self [OF ok(2) assms(3)] num by simp
  next
    case False
    then have m: "opt_used u \<in> set opts" using Cons.prems by simp
    then have "opt_name o1 \<noteq> opt_name (opt_used u)"
      using Cons.prems(1) by (auto simp: table_ok_def)
    moreover have "shortName o1 = None \<or> shortName o1 \<noteq> shortName (opt_used u)"
      using Cons.prems(1) m by (auto simp: table_ok_def split: if_splits)
    ultimately have "matches o1 (option_word u) = Inr False"
      by (rule matches_other [OF ok(2) assms(3) ok(1)])
    then show ?thesis using Cons.IH [OF ok(3) m] num by simp
  qed
qed simp

lemma getopts_word:
  assumes "table_ok opts" and "usage_ok opts u" and "i < length argv" and "1 \<le> i"
    and "drop i argv = words u @ rest"
    and "\<not> asks_help argv"
  shows "getopts argv opts i = Inr (Return (fst (event u)) (snd (event u)), i + length (words u))"
proof -
  have c: "argv ! i # drop (Suc i) argv = words u @ rest"
    using assms(3,5) by (simp add: Cons_nth_drop_Suc)
  have f: "find_option opts (argv ! i) = Inr (Some (opt_used u))"
    using find_option_word [OF assms(1), of u] assms(2) c by (simp add: usage_ok_def words_def)
  show ?thesis
  proof (cases "takes_arg (opt_used u)")
    case True
    then have d: "drop (Suc i) argv = arg_given u # rest" using c by (simp add: words_def)
    then have l: "Suc i < length argv" by (metis drop_eq_Nil2 list.distinct(1) not_le)
    then have "argv ! Suc i = arg_given u" using d by (simp add: Cons_nth_drop_Suc [symmetric])
    then show ?thesis
      using True f l assms(2,4,6)
      by (simp add: getopts_def scan_word_def event_def words_def usage_ok_def)
  next
    case False
    then show ?thesis
      using f assms(3,4,6) by (simp add: getopts_def scan_word_def event_def words_def)
  qed
qed

lemma words_no_help:
  assumes "table_ok opts" and "usage_ok opts u" and "s \<in> set (words u)"
  shows "s \<noteq> ''-h'' \<and> s \<noteq> ''--help''"
proof -
  have "entry_ok (opt_used u)" using assms(1,2) by (simp add: table_ok_def usage_ok_def)
  then show ?thesis
    using assms(2,3)
    by (auto simp: words_def usage_ok_def option_word_def entry_ok_def starts_dash_def split: if_splits)
qed

lemma scan_uses:
  assumes "table_ok opts" and "\<forall>u \<in> set uses. usage_ok opts u"
    and "uses = done_uses @ rest_uses"
  shows "scan_args (prog # concat (map words uses)) opts (1 + length (concat (map words done_uses))) =
    (map event rest_uses, Finished)"
  using assms(3)
proof (induction rest_uses arbitrary: done_uses)
  case Nil
  then show ?case by (subst scan_args.simps) (simp add: getopts_def)
next
  case (Cons u rest_uses)
  let ?argv = "prog # concat (map words uses)" and ?i = "1 + length (concat (map words done_uses))"
  have "u \<in> set uses" using Cons.prems by simp
  then have ok: "usage_ok opts u" using assms(2) by blast
  have d: "drop ?i ?argv = words u @ concat (map words rest_uses)" using Cons.prems by simp
  have l: "?i < length ?argv" using Cons.prems by (simp add: words_def)
  have nohelp: "\<not> asks_help ?argv"
    using words_no_help [OF assms(1)] assms(2) by (auto simp: asks_help_def)
  have "0 < fst (event u)" using assms(1) ok by (simp add: table_ok_def usage_ok_def event_def entry_ok_def)
  then have "scan_args ?argv opts ?i =
      (event u # fst (scan_args ?argv opts (?i + length (words u))),
       snd (scan_args ?argv opts (?i + length (words u))))"
    using scan_args_Return [OF getopts_word [OF assms(1) ok l _ d nohelp]] by simp
  then show ?case
    using Cons.IH [of "done_uses @ [u]"] Cons.prems by (simp add: add.assoc)
qed

lemma scan_words:
  assumes "table_ok opts" and "\<forall>u \<in> set uses. usage_ok opts u"
  shows "scan_args (prog # concat (map words uses)) opts 1 = (map event uses, Finished)"
  using scan_uses [OF assms, of "[]" uses prog] by simp

text \<open>C24: every well-formed command line is understood. For a table like those of the programs, the
  words written for any sequence of options, in their long or short forms, with arguments that do
  not begin with a dash, are scanned into exactly that sequence, and the scan ends normally.\<close>

theorem scan_understands:
  assumes "table_ok opts" and "\<forall>u \<in> set uses. usage_ok opts u"
  shows "scan_args (prog # concat (map words uses)) opts 1 = (map event uses, Finished)"
  by (rule scan_words [OF assms])

definition sample_table :: "options list" where
  "sample_table = [option_entry 1 (Some ''host'') ''Host'' (Some ''H'') True,
     option_entry 2 (Some ''https'') ''Use HTTPS'' (Some ''s'') False]"

theorem scan_understands_witness:
  "scan_args [''ws'', ''-s'', ''--host'', ''x''] sample_table 1 = ([(2, None), (1, Some ''x'')], Finished)"
proof -
  let ?u = "\<lparr>opt_used = sample_table ! 1, short_form = True, arg_given = []\<rparr>"
  let ?v = "\<lparr>opt_used = sample_table ! 0, short_form = False, arg_given = ''x''\<rparr>"
  have "table_ok sample_table" "\<forall>u \<in> set [?u, ?v]. usage_ok sample_table u"
    by (simp_all add: table_ok_def entry_ok_def usage_ok_def sample_table_def starts_dash_def)
  from scan_understands [OF this, of "''ws''"] show ?thesis
    by (simp add: words_def event_def option_word_def sample_table_def)
qed

text \<open>C26: the buffer of a usage line holds its text with the terminating NUL, whatever the names.\<close>

theorem usage_cmd_fits:
  "case usage_cmd opt of None \<Rightarrow> opt_name opt = None \<and> shortName opt = None
   | Some (cmd, bufsize) \<Rightarrow> length cmd + 1 \<le> bufsize"
  by (auto simp: usage_cmd_def split: option.split)

text \<open>An entry without names behind an entry with one makes the usage text read and free the old
  buffer again.\<close>

theorem nameless_entry_reuses_buffer:
  assumes "opt_name e \<noteq> None" and "description e \<noteq> None"
    and "opt_name e' = None" and "shortName e' = None" and "description e' \<noteq> None"
  shows "getopts_usage prog (e # e' # opts) = Inl Use_After_Free"
  using assms by (cases "shortName e") (auto simp: getopts_usage_def usage_cmd_def)

text \<open>C25: a first argument of one character cannot be compared with a long name without reading past
  its end: with the tables of the programs, whose entries all have long names, the scan faults.\<close>

theorem short_argument_overread:
  assumes "opts \<noteq> []" and "number (hd opts) \<noteq> 0" and "opt_name (hd opts) \<noteq> None"
  shows "getopts [prog, [x]] opts 1 = Inl OOB_Read"
  using assms by (cases opts) (auto simp: getopts_def asks_help_def matches_def)

theorem short_argument_overread_witness:
  "getopts [''ws'', ''x''] sample_table 1 = Inl OOB_Read"
  by (rule short_argument_overread) (simp_all add: sample_table_def)

end
