(* ===== verification/WS_Node.thy ===== *)
theory WS_Node
  imports WS_State Searest Z85
begin

text \<open>
  The storage nodes of the server, webstore_node.c: validation of tokens and of uploaded text, the
  GET and POST operations on redis and the seven callbacks that are registered with the REST
  framework. A callback works on the request record and on the state of the server (\<open>'c server\<close>,
  which holds the run-time data behind \<open>sri_user_data\<close>).
\<close>

section \<open>Validation\<close>

definition node_base85 :: string where
  "node_base85 =
     ''0123456789'' @ ''abcdefghij'' @ ''klmnopqrst'' @ ''uvwxyzABCD'' @ ''EFGHIJKLMN'' @
     ''OPQRSTUVWX'' @ ''YZ.-:+=^!/'' @ ''*?&<>()[]{'' @ ''}@%$#''"

definition is_Z85_digit :: "char \<Rightarrow> bool" where
  "is_Z85_digit digit \<longleftrightarrow>
     c_isalnum digit \<or> (\<exists>i \<in> set [62..<85]. digit = node_base85 ! i)"

fun validate_loop :: "string \<Rightarrow> int" where
  "validate_loop [] = 0"
| "validate_loop (x # xs) = (if \<not> is_Z85_digit x then 1 else validate_loop xs)"

definition Z85_validate :: "string \<Rightarrow> u64 \<Rightarrow> int" where
  "Z85_validate ptr len = validate_loop (take (unat len) ptr)"

text \<open>The buffer of 256 bytes bounds the length; a longer token (or a negative length, which is
  compared as a \<open>size_t\<close>) ends the process. Past the end of the URL stands its NUL, no digit.\<close>

datatype hash_result = Exits | Invalid | Hash string

fun convert_digits :: "string \<Rightarrow> nat \<Rightarrow> string option" where
  "convert_digits input 0 = Some []"
| "convert_digits [] (Suc n) = None"
| "convert_digits (x # xs) (Suc n) =
     (if \<not> c_isxdigit x then None
      else case convert_digits xs n of None \<Rightarrow> None | Some t \<Rightarrow> Some (c_tolower x # t))"

definition convert_hash :: "string \<Rightarrow> int \<Rightarrow> hash_result" where
  "convert_hash input len =
     (if len < 0 \<or> 256 - 1 < len then Exits
      else case convert_digits input (nat len) of None \<Rightarrow> Invalid | Some t \<Rightarrow> Hash t)"

section \<open>Operations on redis\<close>

record wsreq =
  req_type :: int
  hashlen :: int
  req_url :: string
  req_urllen :: int

definition do_redis_del :: "'c hiredis \<Rightarrow> string \<Rightarrow> 'c server \<Rightarrow> 'c server" where
  "do_redis_del api hash w = snd (redis_cmd api [''DEL'', hash] w)"

text \<open>The part of \<open>get\<close> under the lock: the error, the page, the state.\<close>

definition get_locked :: "'c hiredis \<Rightarrow> string \<Rightarrow> 'c server \<Rightarrow> int \<times> string option \<times> 'c server" where
  "get_locked api hash w =
     (let w = lock_if w;
          (reply, w) = redis_cmd api [''GET'', hash] w;
          (err, page, w) =
            (case reply of
               None \<Rightarrow> (503, None, handle_redis_error api w)
             | Some r \<Rightarrow>
                 let page = (case r of REDIS_REPLY_STRING s \<Rightarrow> Some (cstr s) | _ \<Rightarrow> None);
                     w = (if page \<noteq> None \<and> bar (g_rt w) then do_redis_del api hash w else w)
                 in (0, page, w))
      in (err, page, unlock_if w))"

definition log_request :: "srci \<Rightarrow> int \<Rightarrow> string \<Rightarrow> string" where
  "log_request ri k text = str_or_null (srci_get_client_ip ri) @ '' '' @ show_int k @ '' '' @ text"

definition get ::
    "'c hiredis \<Rightarrow> wsreq \<Rightarrow> srci \<Rightarrow> 'c server \<Rightarrow> string option \<times> srci \<times> 'c server" where
  "get api req ri w =
     (if req_urllen req \<noteq> hashlen req then
        (Some ''malformed request'', srci_set_return_code ri MHD_HTTP_BAD_REQUEST, w)
      else case convert_hash (req_url req) (req_urllen req) of
        Exits \<Rightarrow> (None, ri, w)
      | Invalid \<Rightarrow> (Some ''malformed request'', srci_set_return_code ri MHD_HTTP_BAD_REQUEST, w)
      | Hash hash \<Rightarrow>
          let (err, page, w) = get_locked api hash w
          in if err = 503 then
               (Some ''service unavailable'', srci_set_return_code ri MHD_HTTP_SERVICE_UNAVAILABLE, w)
             else case page of
               None \<Rightarrow>
                 (Some ''not found'', srci_set_return_code ri MHD_HTTP_NOT_FOUND,
                  add_log WSLOG_INFO (log_request ri MHD_HTTP_NOT_FOUND (''GET '' @ req_url req)) w)
             | Some p \<Rightarrow>
                 let log_entry = snprintf_buf 512 (log_request ri MHD_HTTP_OK
                       (''GET '' @ req_url req @ (if bar (g_rt w) then '' BURNT'' else [])))
                 in (Some p, srci_set_return_code ri MHD_HTTP_OK, add_log WSLOG_INFO log_entry w))"

definition set_command :: "'c wsrt \<Rightarrow> string \<Rightarrow> string \<Rightarrow> string list" where
  "set_command rt hash datastr =
     (if expiration rt \<noteq> 0 \<and> immutable rt then
        [''SET'', hash, datastr, ''EX'', show_int (expiration rt), ''NX'']
      else if expiration rt \<noteq> 0 then [''SET'', hash, datastr, ''EX'', show_int (expiration rt)]
      else if immutable rt then [''SET'', hash, datastr, ''NX'']
      else [''SET'', hash, datastr])"

definition do_redis_post ::
    "'c hiredis \<Rightarrow> string \<Rightarrow> string \<Rightarrow> u64 \<Rightarrow> 'c server \<Rightarrow> int \<times> 'c server" where
  "do_redis_post api hash dataptr datalen w =
     (let datastr = cstr (take (unat datalen) dataptr);
          w = lock_if w;
          (reply, w) = redis_cmd api (set_command (g_rt w) hash datastr) w;
          (err, w) =
            (case reply of
               None \<Rightarrow> (503, handle_redis_error api w)
             | Some (REDIS_REPLY_ERROR e) \<Rightarrow> (417, w)
             | Some REDIS_REPLY_NIL \<Rightarrow> (304, w)
             | Some (REDIS_REPLY_STATUS s) \<Rightarrow> (if strncmp_eq ''OK'' s 2 then (0, w) else (500, w))
             | Some _ \<Rightarrow> (500, w))
      in (err, unlock_if w))"

definition post ::
    "'c hiredis \<Rightarrow> wsreq \<Rightarrow> srci \<Rightarrow> 'c server \<Rightarrow> string option \<times> srci \<times> 'c server" where
  "post api req ri w =
     (if req_urllen req \<noteq> hashlen req then
        (Some ''malformed request - invalid url'', srci_set_return_code ri MHD_HTTP_BAD_REQUEST, w)
      else
        let datalen = srci_get_post_data_size ri in
        if datalen < 5 then
          (Some ''malformed request - invalid length'', srci_set_return_code ri MHD_HTTP_BAD_REQUEST, w)
        else
          let dataptr = srci_get_post_data_ptr ri; z = Z85_validate dataptr datalen in
          if z \<noteq> 0 then
            (Some ''malformed request - invalid Z85'', srci_set_return_code ri MHD_HTTP_BAD_REQUEST, w)
          else case convert_hash (req_url req) (req_urllen req) of
            Exits \<Rightarrow> (None, ri, w)
          | Invalid \<Rightarrow>
              (Some ''malformed request - invalid token'', srci_set_return_code ri MHD_HTTP_BAD_REQUEST, w)
          | Hash hash \<Rightarrow>
              let (z, w) = do_redis_post api hash dataptr datalen w in
              if z \<noteq> 0 then
                let ri = srci_set_return_code ri z in
                if z = 304 then
                  (Some ''object immutable - not modified'', ri,
                   add_log WSLOG_INFO (log_request ri z (''POST '' @ req_url req @ '' NOTMOD'')) w)
                else if z = 417 then (Some ''redis reply error'', ri, w)
                else if z = 503 then (Some ''service unavailable'', ri, w)
                else (Some ''internal server error'', ri, w)
              else
                (Some ''ok'', srci_set_return_code ri MHD_HTTP_OK,
                 add_log WSLOG_INFO (log_request ri MHD_HTTP_OK (''POST '' @ req_url req)) w))"

definition shutdownmsg :: "srci \<Rightarrow> string option \<times> srci" where
  "shutdownmsg ri =
     (Some ''service unavailable: shutting down'', srci_set_return_code ri MHD_HTTP_SERVICE_UNAVAILABLE)"

section \<open>The node callbacks\<close>

definition HASHLEN128 :: int where "HASHLEN128 = (128 div 8) * 2"
definition HASHLEN160 :: int where "HASHLEN160 = (160 div 8) * 2"
definition HASHLEN224 :: int where "HASHLEN224 = (224 div 8) * 2"
definition HASHLEN256 :: int where "HASHLEN256 = (256 div 8) * 2"
definition HASHLEN384 :: int where "HASHLEN384 = (384 div 8) * 2"
definition HASHLEN512 :: int where "HASHLEN512 = (512 div 8) * 2"

definition HASHALG128 :: int where "HASHALG128 = 1"
definition HASHALG160 :: int where "HASHALG160 = 2"
definition HASHALG224 :: int where "HASHALG224 = 3"
definition HASHALG256 :: int where "HASHALG256 = 4"
definition HASHALG384 :: int where "HASHALG384 = 5"
definition HASHALG512 :: int where "HASHALG512 = 6"

lemmas hash_codes = HASHLEN128_def HASHLEN160_def HASHLEN224_def HASHLEN256_def HASHLEN384_def
  HASHLEN512_def HASHALG128_def HASHALG160_def HASHALG224_def HASHALG256_def HASHALG384_def HASHALG512_def

definition not_allowed :: "srci \<Rightarrow> 'c server \<Rightarrow> string option \<times> srci \<times> 'c server" where
  "not_allowed ri w =
     (let ri = srci_set_return_code ri MHD_HTTP_METHOD_NOT_ALLOWED
      in (Some ''method not allowed'', ri,
          add_log WSLOG_WARN (log_request ri (return_code ri) ''METHOD_NOT_ALLOWED'') w))"

text \<open>The six storage nodes run the same code on their own token length.\<close>

definition store_node :: "'c hiredis \<Rightarrow> int \<Rightarrow> int \<Rightarrow> 'c server node_cb" where
  "store_node api alg len u n ri ud w =
     (if shutting_down w then (let (page, ri) = shutdownmsg ri in (page, ri, w))
      else
        let req = \<lparr>req_type = alg, hashlen = len, req_url = u, req_urllen = n\<rparr>;
            method = srci_get_method_type ri
        in if method = METHOD_GET then get api req ri w
           else if method = METHOD_POST then post api req ri w
           else not_allowed ri w)"

definition node128 :: "'c hiredis \<Rightarrow> 'c server node_cb" where
  "node128 api = store_node api HASHALG128 HASHLEN128"

definition node160 :: "'c hiredis \<Rightarrow> 'c server node_cb" where
  "node160 api = store_node api HASHALG160 HASHLEN160"

definition node224 :: "'c hiredis \<Rightarrow> 'c server node_cb" where
  "node224 api = store_node api HASHALG224 HASHLEN224"

definition node256 :: "'c hiredis \<Rightarrow> 'c server node_cb" where
  "node256 api = store_node api HASHALG256 HASHLEN256"

definition node384 :: "'c hiredis \<Rightarrow> 'c server node_cb" where
  "node384 api = store_node api HASHALG384 HASHLEN384"

definition node512 :: "'c hiredis \<Rightarrow> 'c server node_cb" where
  "node512 api = store_node api HASHALG512 HASHLEN512"

text \<open>One \<open>snprintf(page+n, sizeof(page)-n, ...)\<close>: the buffer and the running length.\<close>

definition PAGE_SIZE :: nat where "PAGE_SIZE = 128 * 4"

definition page_printf :: "string \<Rightarrow> string \<times> nat \<Rightarrow> string \<times> nat" where
  "page_printf text = (\<lambda>(page, n). (take n page @ snprintf_buf (PAGE_SIZE - n) text, n + length text))"

definition nodecfg :: "'c server node_cb" where
  "nodecfg u l ri ud w =
     (if shutting_down w then (let (page, ri) = shutdownmsg ri in (page, ri, w))
      else if srci_get_method_type ri \<noteq> METHOD_GET then not_allowed ri w
      else
        let all = (u = ''all'');
            o_max = (all \<or> u = ''maxuploadsize'');
            o_exp = (all \<or> u = ''expiration'');
            o_imm = (all \<or> u = ''immutable'');
            o_bar = (all \<or> u = ''bar'')
        in if \<not> o_max \<and> \<not> o_exp \<and> \<not> o_imm \<and> \<not> o_bar then
             (Some (snprintf_buf PAGE_SIZE (''Unknown Config Option: '' @ u @ NL)),
              srci_set_return_code ri MHD_HTTP_NOT_FOUND, w)
           else
             let rt = g_rt w; p = ([], 0);
                 p = (if o_max then page_printf (''MAXUPLOADSIZE: '' @ show_int (max_post_data_size rt) @ '' bytes'' @ NL) p else p);
                 p = (if o_exp then page_printf (''EXPIRATION: '' @ show_int (expiration rt) @ '' seconds'' @ NL) p else p);
                 p = (if o_imm then page_printf (''IMMUTABLE: '' @ show_int (of_bool (immutable rt)) @ NL) p else p);
                 p = (if o_bar then page_printf (''BAR: '' @ show_int (of_bool (bar rt)) @ NL) p else p)
             in (Some (fst p), srci_set_return_code ri MHD_HTTP_OK, w))"

section \<open>What validation accepts\<close>

lemma node_base85_eq [simp]: "node_base85 = base85"
  by (simp add: node_base85_def base85_def)

lemma base85_upto_61:
  "map (of_char :: char \<Rightarrow> nat) (take 62 base85) = [48..<58] @ [97..<123] @ [65..<91]"
  by (simp add: base85_def)

lemma alnum_base85: "c_isalnum x \<longleftrightarrow> x \<in> set (take 62 base85)"
proof -
  have "c_isalnum x \<longleftrightarrow> (code x :: nat) \<in> {48..<58} \<union> {97..<123} \<union> {65..<91}"
    by (auto simp: c_isalnum_def c_isdigit_def c_isupper_def c_islower_def)
  also have "{48..<58} \<union> {97..<123} \<union> {65..<91 :: nat} = of_char ` set (take 62 base85)"
    using arg_cong [OF base85_upto_61, of set] unfolding set_append set_upt list.set_map by blast
  also have "(code x :: nat) \<in> of_char ` set (take 62 base85) \<longleftrightarrow> x \<in> set (take 62 base85)"
    by (auto simp: image_iff)
  finally show ?thesis .
qed

lemma is_Z85_digit_iff: "is_Z85_digit x \<longleftrightarrow> x \<in> set base85"
proof -
  have "(\<exists>i \<in> set [62..<85]. x = base85 ! i) \<longleftrightarrow> x \<in> set (drop 62 base85)"
  proof -
    have "drop 62 base85 = map ((!) base85) [62..<85]"
      by (metis add_0 drop_map drop_upt length_base85 map_nth)
    then show ?thesis by auto
  qed
  moreover have "set base85 = set (take 62 base85) \<union> set (drop 62 base85)"
    by (metis append_take_drop_id set_append)
  ultimately show ?thesis by (simp add: is_Z85_digit_def alnum_base85)
qed

lemma validate_loop_iff: "validate_loop s = 0 \<longleftrightarrow> set s \<subseteq> set base85"
  by (induction s) (auto simp: is_Z85_digit_iff)

lemma validate_loop_values: "validate_loop s \<in> {0, 1}"
  by (induction s) auto

lemma convert_digits_eq:
  "convert_digits s n =
     (if n \<le> length s \<and> (\<forall>x \<in> set (take n s). c_isxdigit x)
      then Some (map c_tolower (take n s)) else None)"
  by (induction s n rule: convert_digits.induct) auto

text \<open>The token a URL names: the hexadecimal digits in lower case.\<close>

definition token_of :: "string \<Rightarrow> string" where
  "token_of u = map c_tolower u"

definition valid_token :: "int \<Rightarrow> string \<Rightarrow> bool" where
  "valid_token len u \<longleftrightarrow> int (length u) = len \<and> (\<forall>x \<in> set u. c_isxdigit x)"

lemma convert_hash_valid:
  assumes "int (length u) = n" and "n \<le> 255"
  shows "convert_hash u n = (if valid_token n u then Hash (token_of u) else Invalid)"
proof -
  have "convert_digits u (length u) = (if valid_token n u then Some (token_of u) else None)"
    using assms by (auto simp: convert_digits_eq valid_token_def token_of_def)
  then show ?thesis using assms by (auto simp: convert_hash_def)
qed

text \<open>C28: \<open>convert_hash\<close> on the whole URL tail, for every length the server uses: it accepts exactly
  the strings of hexadecimal digits and answers them in lower case, so the tokens that name a
  stored object do not depend on the letter case of the URL and converting twice changes nothing.\<close>

theorem convert_hash_canonical:
  assumes "int (length u) = n" and "n \<le> 255"
  shows "convert_hash u n \<noteq> Exits \<and>
    (convert_hash u n = Invalid \<longleftrightarrow> (\<exists>x \<in> set u. \<not> c_isxdigit x)) \<and>
    (\<forall>t. convert_hash u n = Hash t \<longrightarrow>
       length t = length u \<and> (\<forall>x \<in> set t. c_isxdigit x \<and> \<not> c_isupper x) \<and>
       convert_hash t n = Hash t \<and>
       (\<forall>u'. map c_tolower u' = map c_tolower u \<longrightarrow> convert_hash u' n = Hash t))"
proof -
  have low: "valid_token n u \<Longrightarrow> valid_token n (token_of u)"
    by (auto simp: valid_token_def token_of_def)
  have idem: "token_of (token_of u) = token_of u" by (simp add: token_of_def)
  have "convert_hash u' n = Hash (token_of u)"
    if "map c_tolower u' = map c_tolower u" and "valid_token n u" for u'
  proof -
    have l: "length u' = length u" using that(1) by (metis length_map)
    have "c_isxdigit x" if "x \<in> set u'" for x
    proof -
      have "c_tolower x \<in> set (map c_tolower u)"
        using that \<open>map c_tolower u' = map c_tolower u\<close> by (metis imageI list.set_map)
      then show ?thesis using \<open>valid_token n u\<close> by (auto simp: valid_token_def) (metis tolower_xdigit)
    qed
    then have "valid_token n u'" using l that(2) by (simp add: valid_token_def)
    then show ?thesis
      using convert_hash_valid [of u' n] assms l that(1) by (simp add: token_of_def)
  qed
  then show ?thesis
    using convert_hash_valid [OF assms] convert_hash_valid [of "token_of u" n] assms low idem
    by (auto simp: valid_token_def token_of_def split: if_splits)
qed


theorem convert_hash_canonical_witness:
  "convert_hash ''ABc0'' 4 = Hash ''abc0'' \<and> convert_hash ''ABc0'' 4 \<noteq> Exits"
proof -
  have "valid_token 4 ''ABc0''"
    by (simp add: valid_token_def c_isxdigit_def c_isdigit_def)
  moreover have "token_of ''ABc0'' = ''abc0''"
    by (simp add: token_of_def c_tolower_def c_isupper_def char_of_def bit_0 bit_numeral_rec)
  ultimately have "convert_hash ''ABc0'' 4 = Hash ''abc0''"
    using convert_hash_valid [of "''ABc0''" 4] by simp
  then show ?thesis using convert_hash_canonical [of "''ABc0''" 4, THEN conjunct1] by simp
qed

text \<open>C29: the validation of uploaded text, whose two comments (webstore_node.c:53 and :60) describe its
  result the wrong way round: the result is 0 when every byte is a digit of the encoder's alphabet, and
  1 otherwise. The text that \<open>Z85_encode_with_padding\<close> makes of a message is therefore accepted,
  and one foreign character in the part examined is enough
  to be refused.\<close>

theorem Z85_validate_accepts:
  "Z85_validate ptr len = (if set (take (unat len) ptr) \<subseteq> set base85 then 0 else 1) \<and>
   (Z85_encode_with_padding nd (Some msg) True (length msg) = Inr t \<longrightarrow>
      Z85_validate t (of_nat (length t)) = 0) \<and>
   (x \<notin> set base85 \<and> length (s @ x # s') < 2 ^ 64 \<longrightarrow> Z85_validate (s @ x # s') (of_nat (length (s @ x # s'))) = 1)"
proof -
  have v: "Z85_validate ptr len = (if set (take (unat len) ptr) \<subseteq> set base85 then 0 else 1)" for ptr len
    using validate_loop_values [of "take (unat len) ptr"] by (auto simp: Z85_validate_def validate_loop_iff)
  have "Z85_validate t (of_nat (length t)) = 0"
    if "Z85_encode_with_padding nd (Some msg) True (length msg) = Inr t"
  proof -
    have "t = z85_text msg" using that Z85_encode_with_padding_text [of nd msg] by (cases "msg = []") simp_all
    then show ?thesis using z85_text_alphabet [of msg] set_take_subset unfolding v by fastforce
  qed
  moreover have "x \<in> set (take (unat (of_nat (length (s @ x # s')) :: u64)) (s @ x # s'))"
    if "length (s @ x # s') < 2 ^ 64" using that unat_size [OF that] by simp
  ultimately show ?thesis unfolding v by auto
qed

theorem Z85_validate_accepts_witness:
  "(\<exists>t. Z85_encode_with_padding False (Some [0x86, 0x4F, 0xD2]) True 3 = Inr t \<and> Z85_validate t (of_nat (length t)) = 0) \<and>
   Z85_validate ''00~00'' 5 = 1"
proof -
  let ?m = "[0x86, 0x4F, 0xD2] :: byte list"
  obtain t where t: "Z85_encode_with_padding False (Some ?m) True (length ?m) = Inr t" "t = z85_text ?m"
    using Z85_encode_with_padding_text [of False ?m] by simp
  from t(1) have "Z85_validate t (of_nat (length t)) = 0"
    using Z85_validate_accepts [of "''00''" 5 False ?m t "CHR ''0''"] by blast
  moreover have "CHR ''~'' \<notin> set base85" "length (''00'' @ CHR ''~'' # ''00'') = 5"
    by (simp_all add: base85_def)
  then have "Z85_validate (''00'' @ CHR ''~'' # ''00'') (of_nat (length (''00'' @ CHR ''~'' # ''00''))) = 1"
    using Z85_validate_accepts [of "''00''" 5 False ?m t "CHR ''~''" "''00''" "''00''"] by simp
  ultimately show ?thesis using t(1) by (auto simp: numeral_3_eq_3)
qed

section \<open>The callbacks as nodes\<close>

lemma srci_set_return_code_simps [simp]:
  "post_data (srci_set_return_code ri k) = post_data ri"
  "return_code (srci_set_return_code ri k) = k"
  "ip (srci_set_return_code ri k) = ip ri"
  "post_data_len (srci_set_return_code ri k) = post_data_len ri"
  "method_type (srci_set_return_code ri k) = method_type ri"
  by (simp_all add: srci_set_return_code_def)

lemma do_redis_post_code: "fst (do_redis_post api hash d n w) \<in> {0, 304, 417, 500, 503}"
  by (simp add: do_redis_post_def Let_def split: prod.split option.split redisReply.split)

lemma convert_hash_no_exit: "0 \<le> n \<Longrightarrow> n \<le> 255 \<Longrightarrow> convert_hash u n \<noteq> Exits"
  by (auto simp: convert_hash_def split: option.split)

lemma get_answers:
  assumes "0 \<le> hashlen req" and "hashlen req \<le> 255"
  shows "answered ri (get api req ri w)"
  using convert_hash_no_exit [OF assms, of "req_url req"]
  by (simp add: get_def Let_def http_codes split: hash_result.split prod.split option.split)

lemma post_answers:
  assumes "0 \<le> hashlen req" and "hashlen req \<le> 255"
  shows "answered ri (post api req ri w)"
  using convert_hash_no_exit [OF assms, of "req_url req"]
  by (simp add: post_def Let_def http_codes split: hash_result.split prod.split)

lemma not_allowed_answers: "answered ri (not_allowed ri w)"
  by (simp add: not_allowed_def Let_def http_codes)

lemma store_node_answers:
  assumes "0 \<le> len" and "len \<le> 255"
  shows "answered ri (store_node api alg len u n ri ud w)"
  using assms
  by (simp add: store_node_def Let_def shutdownmsg_def http_codes get_answers post_answers not_allowed_answers)

lemma nodecfg_answers: "answered ri (nodecfg u n ri ud w)"
  by (simp add: nodecfg_def Let_def shutdownmsg_def http_codes not_allowed_answers)

lemmas node_defs = node128_def node160_def node224_def node256_def node384_def node512_def

interpretation cfg: node_callback nodecfg
  by unfold_locales (rule nodecfg_answers)

interpretation n128: node_callback "node128 api" for api
  by unfold_locales (simp add: node_defs hash_codes store_node_answers)

interpretation n160: node_callback "node160 api" for api
  by unfold_locales (simp add: node_defs hash_codes store_node_answers)

interpretation n224: node_callback "node224 api" for api
  by unfold_locales (simp add: node_defs hash_codes store_node_answers)

interpretation n256: node_callback "node256 api" for api
  by unfold_locales (simp add: node_defs hash_codes store_node_answers)

interpretation n384: node_callback "node384 api" for api
  by unfold_locales (simp add: node_defs hash_codes store_node_answers)

interpretation n512: node_callback "node512 api" for api
  by unfold_locales (simp add: node_defs hash_codes store_node_answers)

section \<open>What a request does to the database\<close>

lemma set_command_options:
  "set_command rt hash d = ''SET'' # hash # d # drop 3 (set_command rt hash d)"
  by (simp add: set_command_def)

lemma supported_set_command [simp]:
  "0 \<le> expiration rt \<Longrightarrow> supported (set_command rt hash d)"
  by (simp add: set_command_def)

lemma redis_do_set_command:
  "redis_do dbs (set_command rt hash d) =
     (if immutable rt \<and> dbs hash \<noteq> None then (REDIS_REPLY_NIL, dbs)
      else (REDIS_REPLY_STATUS ''OK'', dbs(hash \<mapsto> d)))"
  using NX_not_number [of "expiration rt"] by (auto simp: set_command_def)

lemma get_locked_simps [simp]:
  "online (snd (snd (get_locked api hash w))) = online w"
  "settings (snd (snd (get_locked api hash w))) = settings w"
  by (simp_all add: get_locked_def do_redis_del_def Let_def split_beta split: option.split)

lemma do_redis_post_simps [simp]:
  "online (snd (do_redis_post api hash d n w)) = online w"
  "settings (snd (do_redis_post api hash d n w)) = settings w"
  by (simp_all add: do_redis_post_def Let_def split_beta split: option.split redisReply.split)

lemma unlock_if_free: "\<not> rl (rc (g_rt w)) \<Longrightarrow> \<not> rl (rc (g_rt (unlock_if w)))"
  by (simp add: unlock_if_def rai_unlock_def)

text \<open>The lock is free again after the locked section, whatever redis does in it.\<close>

lemma rl_lock_if: "rl (rc (g_rt (lock_if w))) = (multithreaded (g_rt w) \<or> rl (rc (g_rt w)))"
  by (simp add: lock_if_def rai_lock_def)

lemma rl_unlock_if: "rl (rc (g_rt (unlock_if w))) = (\<not> multithreaded (g_rt w) \<and> rl (rc (g_rt w)))"
  by (simp add: unlock_if_def rai_unlock_def)

lemma multithreaded_settings: "settings w = settings w' \<Longrightarrow> multithreaded (g_rt w) = multithreaded (g_rt w')"
  by (simp add: settings_def)

lemma get_locked_unlocks:
  assumes "\<not> rl (rc (g_rt w))"
  shows "\<not> rl (rc (g_rt (snd (snd (get_locked api hash w)))))"
proof -
  have m: "multithreaded (g_rt (snd (redis_cmd api argv w'))) = multithreaded (g_rt w')"
    "multithreaded (g_rt (handle_redis_error api w')) = multithreaded (g_rt w')"
    "multithreaded (g_rt (lock_if w')) = multithreaded (g_rt w')" for argv w'
    by (rule multithreaded_settings, simp)+
  show ?thesis
    using assms
    by (auto simp: get_locked_def do_redis_del_def Let_def split_beta rl_lock_if rl_unlock_if m
        split: option.split)
qed

lemma do_redis_post_unlocks:
  assumes "\<not> rl (rc (g_rt w))"
  shows "\<not> rl (rc (g_rt (snd (do_redis_post api hash d n w))))"
proof -
  have m: "multithreaded (g_rt (snd (redis_cmd api argv w'))) = multithreaded (g_rt w')"
    "multithreaded (g_rt (handle_redis_error api w')) = multithreaded (g_rt w')"
    "multithreaded (g_rt (lock_if w')) = multithreaded (g_rt w')" for argv w'
    by (rule multithreaded_settings, simp)+
  show ?thesis
    using assms
    by (auto simp: do_redis_post_def Let_def split_beta rl_lock_if rl_unlock_if m
        split: option.split redisReply.split)
qed

text \<open>A reply that redis may give to a command, over the database \<open>dbs\<close>.\<close>

definition may_reply :: "'c hiredis \<Rightarrow> ('c \<Rightarrow> string \<rightharpoonup> string) \<Rightarrow> (string \<rightharpoonup> string) \<Rightarrow> string list \<Rightarrow> redisReply option \<Rightarrow> bool" where
  "may_reply api view dbs argv reply \<longleftrightarrow> (\<exists>c. view c = dbs \<and> fst (hi_command api c argv) = reply)"

definition may_fail :: "'c hiredis \<Rightarrow> ('c \<Rightarrow> string \<rightharpoonup> string) \<Rightarrow> (string \<rightharpoonup> string) \<Rightarrow> string list \<Rightarrow> bool" where
  "may_fail api view dbs argv \<longleftrightarrow>
     may_reply api view dbs argv None \<or> (\<exists>e. may_reply api view dbs argv (Some (REDIS_REPLY_ERROR e)))"

lemma redis_cmd_may_reply:
  assumes "online w" and "redis_cmd api argv w = (reply, w')"
  shows "may_reply api view (db view w) argv reply"
proof -
  obtain c where "ctx (rc (g_rt w)) = Some c" using assms(1) by (auto simp: online_def)
  then show ?thesis
    using assms(2) by (auto simp: may_reply_def redis_cmd_def redisCommand_Some db_def Let_def intro!: exI [of _ c])
qed

lemma may_fail_up: "redis_up api view \<Longrightarrow> supported argv \<Longrightarrow> may_fail api view dbs argv \<longleftrightarrow>
    (\<exists>c e. view c = dbs \<and> fst (redis_do dbs argv) = REDIS_REPLY_ERROR e)"
  by (auto simp: may_fail_def may_reply_def redis_up_def)

lemma get_locked_contract:
  assumes "redis_contract api view" and "online w"
    and "get_locked api hash w = (err, page, w')"
  shows "err = 503 \<longrightarrow> page = None \<and> db view w' = db view w \<and> g_shutdown w' \<and>
      may_reply api view (db view w) [''GET'', hash] None"
    and "err \<noteq> 503 \<longrightarrow> err = 0"
    and "page \<noteq> None \<longrightarrow> page = map_option cstr (db view w hash) \<and>
       (if bar (g_rt w) then db view w' = (db view w)(hash := None) \<or>
          db view w' = db view w \<and> may_fail api view (db view w) [''DEL'', hash]
        else db view w' = db view w)"
    and "page = None \<longrightarrow> db view w' = db view w \<and>
       (err = 0 \<longrightarrow> db view w hash = None \<or> (\<exists>e. may_reply api view (db view w) [''GET'', hash] (Some (REDIS_REPLY_ERROR e))))"
proof -
  let ?w1 = "lock_if w"
  obtain reply w2 where g: "redis_cmd api [''GET'', hash] ?w1 = (reply, w2)" by fastforce
  have w2: "w2 = snd (redis_cmd api [''GET'', hash] ?w1)" by (simp add: g)
  have on: "online w2" using assms(2) by (simp add: w2)
  have m: "may_reply api view (db view w) [''GET'', hash] reply"
    using redis_cmd_may_reply [OF _ g, of view] assms(2) by simp
  have d2: "db view w2 = db view w" and r2: "\<And>s. reply = Some (REDIS_REPLY_STRING s) \<Longrightarrow> db view w hash = Some s"
    and n2: "reply = Some r \<Longrightarrow> (\<exists>s. r = REDIS_REPLY_STRING s) \<or> db view w hash = None \<or> (\<exists>e. r = REDIS_REPLY_ERROR e)" for r
    using redis_cmd_contract [OF assms(1) _ _ g] assms(2) by (auto simp: redis_get_def split: option.splits)
  have b: "bar (g_rt w2) = bar (g_rt w)"
    using settings_eq [of w2 w] by (simp add: w2)
  obtain reply3 w3 where g3: "redis_cmd api [''DEL'', hash] w2 = (reply3, w3)" by fastforce
  have "may_reply api view (db view w) [''DEL'', hash] reply3"
    using redis_cmd_may_reply [OF on g3, of view] d2 by simp
  then have d3: "db view w3 = (db view w)(hash := None) \<or>
      db view w3 = db view w \<and> may_fail api view (db view w) [''DEL'', hash]"
    using redis_cmd_contract [OF assms(1) _ on g3] d2 by (auto simp: may_fail_def)
  have e: "get_locked api hash w =
      (case reply of
         None \<Rightarrow> (503, None, unlock_if (handle_redis_error api w2))
       | Some (REDIS_REPLY_STRING s) \<Rightarrow> (0, Some (cstr s), unlock_if (if bar (g_rt w) then w3 else w2))
       | Some _ \<Rightarrow> (0, None, unlock_if w2))"
    using b g3 by (auto simp: get_locked_def do_redis_del_def g Let_def split: option.split redisReply.split)
  show "err = 503 \<longrightarrow> page = None \<and> db view w' = db view w \<and> g_shutdown w' \<and>
      may_reply api view (db view w) [''GET'', hash] None"
    using assms(3) e d2 m handle_redis_error_flags [OF on, of api] by (auto split: option.splits redisReply.splits)
  show "err \<noteq> 503 \<longrightarrow> err = 0"
    using assms(3) e by (auto split: option.splits redisReply.splits)
  show "page \<noteq> None \<longrightarrow> page = map_option cstr (db view w hash) \<and>
       (if bar (g_rt w) then db view w' = (db view w)(hash := None) \<or>
          db view w' = db view w \<and> may_fail api view (db view w) [''DEL'', hash]
        else db view w' = db view w)"
    using assms(3) e d2 r2 d3 by (auto split: option.splits redisReply.splits if_splits)
  show "page = None \<longrightarrow> db view w' = db view w \<and>
       (err = 0 \<longrightarrow> db view w hash = None \<or> (\<exists>e. may_reply api view (db view w) [''GET'', hash] (Some (REDIS_REPLY_ERROR e))))"
    using assms(3) e d2 m n2 by (cases reply) (auto split: redisReply.splits)
qed

lemma do_redis_post_contract:
  assumes "redis_contract api view" and "online w" and "0 \<le> expiration (g_rt w)"
    and "do_redis_post api hash d n w = (z, w')"
  shows "(z = 0 \<longrightarrow> db view w' = (db view w)(hash \<mapsto> cstr (take (unat n) d)) \<and>
            (immutable (g_rt w) \<longrightarrow> db view w hash = None)) \<and>
    (z = 304 \<longrightarrow> db view w' = db view w \<and> immutable (g_rt w) \<and> db view w hash \<noteq> None) \<and>
    (z = 417 \<longrightarrow> db view w' = db view w) \<and> z \<noteq> 500 \<and>
    (z = 503 \<longrightarrow> g_shutdown w' \<and> (db view w' = db view w \<or>
       db view w' = (db view w)(hash \<mapsto> cstr (take (unat n) d)) \<and> (immutable (g_rt w) \<longrightarrow> db view w hash = None)))"
proof -
  let ?w1 = "lock_if w" and ?v = "cstr (take (unat n) d)"
  obtain reply w2 where g: "redis_cmd api (set_command (g_rt ?w1) hash ?v) ?w1 = (reply, w2)" by fastforce
  have s: "expiration (g_rt ?w1) = expiration (g_rt w)" "immutable (g_rt ?w1) = immutable (g_rt w)"
    using settings_eq [of ?w1 w] by simp_all
  have on: "online w2" using assms(2) arg_cong [OF g, of "\<lambda>p. online (snd p)"] by simp
  have eff: "reply = Some (fst (redis_do (db view w) (set_command (g_rt ?w1) hash ?v))) \<and>
        db view w2 = snd (redis_do (db view w) (set_command (g_rt ?w1) hash ?v)) \<or>
     (\<exists>e. reply = Some (REDIS_REPLY_ERROR e)) \<and> db view w2 = db view w \<or>
     reply = None \<and> (db view w2 = db view w \<or>
        db view w2 = snd (redis_do (db view w) (set_command (g_rt ?w1) hash ?v)))"
    using redis_cmd_contract [OF assms(1) _ _ g] assms(2,3) s by simp
  show ?thesis
    using assms(4) eff handle_redis_error_flags [OF on, of api]
    by (auto simp: do_redis_post_def Let_def g redis_do_set_command s strncmp_eq_def
        split: if_splits)
qed

text \<open>The request for a storage node: a URL tail with its length, and a gathered body.\<close>

definition node_request :: "string \<Rightarrow> int \<Rightarrow> srci \<Rightarrow> bool" where
  "node_request u n ri \<longleftrightarrow> n = int (length u) \<and> unat (post_data_len ri) = length (post_data ri)"

definition valid_data :: "string \<Rightarrow> bool" where
  "valid_data d \<longleftrightarrow> 5 \<le> length d \<and> set d \<subseteq> set base85"

lemma base85_no_nul: "set d \<subseteq> set base85 \<Longrightarrow> no_nul d"
proof -
  have "CHR 0x00 \<notin> set base85" by (simp add: base85_def)
  then show "set d \<subseteq> set base85 \<Longrightarrow> no_nul d" by (auto simp: no_nul_def)
qed

lemma valid_data_no_nul [simp]: "valid_data d \<Longrightarrow> no_nul d"
  by (simp add: valid_data_def base85_no_nul)

lemma small_upload: "post_data_len ri < 5 \<longleftrightarrow> unat (post_data_len ri) < 5"
  by (simp add: word_less_nat_alt)

text \<open>POST on a storage node, in one equation: refused without a look at redis, or one SET.\<close>

lemma post_eq:
  assumes "node_request u n ri" and "len \<le> 255"
  shows "post api \<lparr>req_type = alg, hashlen = len, req_url = u, req_urllen = n\<rparr> ri w =
    (if valid_token len u \<and> valid_data (post_data ri) then
       (let (z, w') = do_redis_post api (token_of u) (post_data ri) (post_data_len ri) w;
            ri' = srci_set_return_code ri z
        in if z = 0 then
             (Some ''ok'', srci_set_return_code ri MHD_HTTP_OK,
              add_log WSLOG_INFO (log_request ri MHD_HTTP_OK (''POST '' @ u)) w')
           else if z = 304 then
             (Some ''object immutable - not modified'', ri',
              add_log WSLOG_INFO (log_request ri' z (''POST '' @ u @ '' NOTMOD'')) w')
           else (Some (if z = 417 then ''redis reply error'' else if z = 503 then ''service unavailable''
                       else ''internal server error''), ri', w'))
     else
       (Some (if int (length u) \<noteq> len then ''malformed request - invalid url''
              else if length (post_data ri) < 5 then ''malformed request - invalid length''
              else if \<not> set (post_data ri) \<subseteq> set base85 then ''malformed request - invalid Z85''
              else ''malformed request - invalid token''),
        srci_set_return_code ri MHD_HTTP_BAD_REQUEST, w))"
proof (cases "int (length u) = len")
  case False
  then show ?thesis using assms by (simp add: post_def node_request_def valid_token_def)
next
  case True
  have "convert_hash u (int (length u)) = (if valid_token len u then Hash (token_of u) else Invalid)"
    using convert_hash_valid [of u len] True assms(2) by simp
  then show ?thesis
    using assms True
    by (auto simp: post_def node_request_def srci_get_post_data_size_def srci_get_post_data_ptr_def
        small_upload valid_data_def Z85_validate_def validate_loop_iff Let_def
        split: prod.split)
qed

text \<open>GET on a storage node, in the same way.\<close>

lemma get_eq:
  assumes "node_request u n ri" and "len \<le> 255"
  shows "get api \<lparr>req_type = alg, hashlen = len, req_url = u, req_urllen = n\<rparr> ri w =
    (if valid_token len u then
       (let (err, page, w') = get_locked api (token_of u) w
        in if err = 503 then
             (Some ''service unavailable'', srci_set_return_code ri MHD_HTTP_SERVICE_UNAVAILABLE, w')
           else case page of
             None \<Rightarrow>
               (Some ''not found'', srci_set_return_code ri MHD_HTTP_NOT_FOUND,
                add_log WSLOG_INFO (log_request ri MHD_HTTP_NOT_FOUND (''GET '' @ u)) w')
           | Some p \<Rightarrow>
               (Some p, srci_set_return_code ri MHD_HTTP_OK,
                add_log WSLOG_INFO (snprintf_buf 512 (log_request ri MHD_HTTP_OK
                  (''GET '' @ u @ (if bar (g_rt w') then '' BURNT'' else [])))) w'))
     else (Some ''malformed request'', srci_set_return_code ri MHD_HTTP_BAD_REQUEST, w))"
proof (cases "int (length u) = len")
  case False
  then show ?thesis using assms by (simp add: get_def node_request_def valid_token_def)
next
  case True
  have "convert_hash u (int (length u)) = (if valid_token len u then Hash (token_of u) else Invalid)"
    using convert_hash_valid [of u len] True assms(2) by simp
  then show ?thesis
    using assms True
    by (auto simp: get_def node_request_def Let_def split: prod.split option.split)
qed

text \<open>C13: what a POST does. For every reply of a redis that keeps its contract: 200 means that the
  lower-case token now holds exactly the uploaded text, and that on an immutable server it held
  nothing before; 304 happens only on an immutable server for a token in use; 304, 400 and 417 leave
  the database as it was; after a 503 the server is shutting down. There is no 500, and the page
  belongs to the code.\<close>

theorem post_outcome:
  assumes "redis_contract api view" and "online w" and "0 \<le> expiration (g_rt w)"
    and "node_request u n ri" and "len \<le> 255"
    and "post api \<lparr>req_type = alg, hashlen = len, req_url = u, req_urllen = n\<rparr> ri w = (page, ri', w')"
  shows "return_code ri' \<in> {200, 304, 400, 417, 503} \<and>
    (page = Some ''ok'' \<longleftrightarrow> return_code ri' = 200) \<and>
    (return_code ri' = 400 \<longleftrightarrow> \<not> (valid_token len u \<and> valid_data (post_data ri))) \<and>
    (return_code ri' = 200 \<longrightarrow> db view w' = (db view w)(token_of u \<mapsto> post_data ri) \<and>
       (immutable (g_rt w) \<longrightarrow> db view w (token_of u) = None)) \<and>
    (return_code ri' = 304 \<longrightarrow> immutable (g_rt w) \<and> db view w (token_of u) \<noteq> None) \<and>
    (return_code ri' \<in> {304, 400, 417} \<longrightarrow> db view w' = db view w) \<and>
    (return_code ri' = 503 \<longrightarrow> shutting_down w' \<and>
       (db view w' = db view w \<or> db view w' = (db view w)(token_of u \<mapsto> post_data ri)))"
proof (cases "valid_token len u \<and> valid_data (post_data ri)")
  case False
  then show ?thesis using assms(6) by (auto simp: post_eq [OF assms(4,5)] http_codes split: if_splits)
next
  case True
  obtain z w2 where d: "do_redis_post api (token_of u) (post_data ri) (post_data_len ri) w = (z, w2)"
    by fastforce
  have "cstr (take (unat (post_data_len ri)) (post_data ri)) = post_data ri"
    using True assms(4) by (simp add: node_request_def)
  note eff = do_redis_post_contract [OF assms(1,2,3) d, unfolded this]
  have "z \<in> {0, 304, 417, 500, 503}"
    using do_redis_post_code [of api "token_of u" "post_data ri" "post_data_len ri" w] d by simp
  then consider "z = 0" | "z = 304" | "z = 417" | "z = 503" using eff by auto
  then show ?thesis
    by cases (use assms(6) True eff in
      \<open>auto simp: post_eq [OF assms(4,5)] d Let_def http_codes shutting_down_def simp del: fun_upd_apply\<close>)
qed

definition sample_request :: "int \<Rightarrow> string \<Rightarrow> srci" where
  "sample_request m data = srci_zero\<lparr>method_type := m, post_data := data, post_data_len := of_nat (length data)\<rparr>"

lemma sample_valid:
  "valid_token 4 ''ABc0''" "valid_token 4 ''abC0''" "valid_data ''00000''"
  "token_of ''ABc0'' = ''abc0''" "token_of ''abC0'' = ''abc0''"
  "node_request ''ABc0'' 4 (sample_request m ''00000'')"
  "node_request ''abC0'' 4 (sample_request m ''00000'')"
  "post_data (sample_request m ''00000'') = ''00000''" "method_type (sample_request m d) = m"
  by (simp_all add: valid_token_def valid_data_def c_isxdigit_def c_isdigit_def base85_def token_of_def
      c_tolower_def c_isupper_def char_of_def bit_0 bit_numeral_rec node_request_def sample_request_def srci_zero_def)

theorem post_outcome_witness:
  "\<exists>page ri' w'. post plain_redis \<lparr>req_type = 1, hashlen = 4, req_url = ''ABc0'', req_urllen = 4\<rparr>
      (sample_request METHOD_POST ''00000'') (sample_server True False) = (page, ri', w') \<and>
    return_code ri' \<in> {200, 417, 503} \<and>
    (return_code ri' = 200 \<longrightarrow> db (\<lambda>m. m) w' = [''abc0'' \<mapsto> ''00000''])"
proof -
  obtain page ri' w' where p: "post plain_redis \<lparr>req_type = 1, hashlen = 4, req_url = ''ABc0'', req_urllen = 4\<rparr>
      (sample_request METHOD_POST ''00000'') (sample_server True False) = (page, ri', w')"
    by (metis prod_cases3)
  show ?thesis
    using post_outcome [OF plain_redis_contract _ _ sample_valid(6) _ p] p
    by (auto simp: sample_valid)
qed

text \<open>C14: what a GET does, for every redis that keeps its contract. 400 answers exactly the invalid
  tokens. 200 answers the stored value of the lower-case token (as a C string), and then a
  burn-after-reading server has removed that token and nothing else, unless redis fails the DEL; any
  other server changes nothing. 404 means that there is no such token, unless redis answers the GET with
  an error, and a token that is not there is never answered 200. 503 means that the GET got no reply at
  all, and begins the shutdown. Whatever is not answered 200 leaves the database alone.\<close>

theorem get_outcome:
  assumes "redis_contract api view" and "online w" and "node_request u n ri" and "len \<le> 255"
    and "get api \<lparr>req_type = alg, hashlen = len, req_url = u, req_urllen = n\<rparr> ri w = (page, ri', w')"
  shows "return_code ri' \<in> {200, 400, 404, 503} \<and>
    (return_code ri' = 400 \<longleftrightarrow> \<not> valid_token len u) \<and>
    (return_code ri' = 200 \<longrightarrow> (\<exists>v. db view w (token_of u) = Some v \<and> page = Some (cstr v)) \<and>
       (if bar (g_rt w)
        then db view w' = (db view w)(token_of u := None) \<or>
          db view w' = db view w \<and> may_fail api view (db view w) [''DEL'', token_of u]
        else db view w' = db view w)) \<and>
    (return_code ri' = 404 \<longrightarrow> db view w (token_of u) = None \<or>
       (\<exists>e. may_reply api view (db view w) [''GET'', token_of u] (Some (REDIS_REPLY_ERROR e)))) \<and>
    (return_code ri' = 503 \<longrightarrow> shutting_down w' \<and> may_reply api view (db view w) [''GET'', token_of u] None) \<and>
    (return_code ri' \<noteq> 200 \<longrightarrow> db view w' = db view w)"
proof (cases "valid_token len u")
  case False
  then show ?thesis using assms(5) by (auto simp: get_eq [OF assms(3,4)] http_codes)
next
  case True
  obtain err p w2 where d: "get_locked api (token_of u) w = (err, p, w2)"
    by (metis prod_cases3)
  note c = get_locked_contract [OF assms(1,2) d]
  show ?thesis
  proof (cases "err = 503")
    case 503: True
    then show ?thesis
      using assms(5) True c(1) by (auto simp: get_eq [OF assms(3,4)] d http_codes shutting_down_def)
  next
    case False
    then show ?thesis
      using assms(5) True c
      by (cases p; cases "db view w (token_of u)") (auto simp: get_eq [OF assms(3,4)] d http_codes simp del: fun_upd_apply)
  qed
qed

definition sample_stored :: "bool \<Rightarrow> (string \<rightharpoonup> string) \<Rightarrow> (string \<rightharpoonup> string) server" where
  "sample_stored burn m = upd_rc (\<lambda>r. r\<lparr>ctx := Some m\<rparr>) (sample_server False burn)"

lemma sample_stored_simps [simp]:
  "online (sample_stored burn m)" "db view (sample_stored burn m) = view m" "bar (g_rt (sample_stored burn m)) = burn"
  by (simp_all add: sample_stored_def online_def db_def)

text \<open>A token with a value on a burn-after-reading server: it is answered, and gone.\<close>

theorem get_outcome_witness:
  "\<exists>ri' w'. get plain_redis \<lparr>req_type = 1, hashlen = 4, req_url = ''ABc0'', req_urllen = 4\<rparr>
      (sample_request METHOD_GET ''00000'') (sample_stored True [''abc0'' \<mapsto> ''00000'', ''def1'' \<mapsto> ''11111'']) =
        (Some ''00000'', ri', w') \<and>
    return_code ri' = 200 \<and> db (\<lambda>m. m) w' = [''def1'' \<mapsto> ''11111'']"
proof -
  define m :: "string \<rightharpoonup> string" where "m = [''abc0'' \<mapsto> ''00000'', ''def1'' \<mapsto> ''11111'']"
  let ?w = "sample_stored True m"
  obtain page ri' w' where p: "get plain_redis \<lparr>req_type = 1, hashlen = 4, req_url = ''ABc0'', req_urllen = 4\<rparr>
      (sample_request METHOD_GET ''00000'') ?w = (page, ri', w')"
    by (metis prod_cases3)
  note o = get_outcome [OF plain_redis_contract _ sample_valid(6) _ p]
  have v: "valid_token 4 ''ABc0''" "token_of ''ABc0'' = ''abc0''" "m ''abc0'' = Some ''00000''"
    by (simp_all add: sample_valid m_def)
  have cs: "cstr ''00000'' = ''00000''" using sample_valid(3) by (intro cstr_no_nul) simp
  have gets: "\<not> may_reply plain_redis (\<lambda>db. db) m [''GET'', ''abc0''] None"
      "\<nexists>e. may_reply plain_redis (\<lambda>db. db) m [''GET'', ''abc0''] (Some (REDIS_REPLY_ERROR e))"
    by (simp_all add: may_reply_def plain_redis_def redis_get_def v(3))
  have del: "\<not> may_fail plain_redis (\<lambda>db. db) m [''DEL'', ''abc0'']"
    by (simp add: may_fail_def may_reply_def plain_redis_def)
  have 200: "return_code ri' = 200" using o v gets by auto
  moreover have "db (\<lambda>db. db) w' = m(''abc0'' := None)" "page = Some ''00000''"
    using o 200 v del cs by (auto simp del: fun_upd_apply)
  moreover have "m(''abc0'' := None) = [''def1'' \<mapsto> ''11111'']" by (rule ext) (simp add: m_def)
  ultimately show ?thesis using p unfolding m_def by auto
qed

section \<open>Storing and fetching\<close>

lemma get_locked_up:
  assumes "redis_up api view" and "online w"
  obtains w' where "get_locked api hash w = (0, map_option cstr (db view w hash), w')"
    and "db view w' = (if bar (g_rt w) then (db view w)(hash := None) else db view w)"
    and "g_shutdown w' = g_shutdown w"
proof -
  obtain w2 where g: "redis_cmd api [''GET'', hash] (lock_if w) = (Some (redis_get (db view w) hash), w2)"
    and d2: "db view w2 = db view w"
    using redis_cmd_up [OF assms(1), of "[''GET'', hash]" "lock_if w"] assms(2) by auto
  have w2: "w2 = snd (redis_cmd api [''GET'', hash] (lock_if w))" by (simp add: g)
  have on: "online w2" using assms(2) by (simp add: w2)
  have b: "bar (g_rt w2) = bar (g_rt w)" using settings_eq [of w2 w] by (simp add: w2)
  have sh: "g_shutdown w2 = g_shutdown w" by (simp add: w2)
  obtain w3 where g3: "redis_cmd api [''DEL'', hash] w2 = (Some (fst (redis_do (db view w2) [''DEL'', hash])), w3)"
    and "db view w3 = snd (redis_do (db view w2) [''DEL'', hash])"
    by (rule redis_cmd_up [OF assms(1), of "[''DEL'', hash]" w2]) (simp_all add: on)
  then have d3: "db view w3 = (db view w)(hash := None)" by (simp add: d2)
  have sh3: "g_shutdown w3 = g_shutdown w2" using arg_cong [OF g3, of "\<lambda>p. g_shutdown (snd p)"] by simp
  show ?thesis
  proof (cases "db view w hash")
    case None
    then have "(db view w)(hash := None) = db view w" by (simp add: fun_upd_idem)
    then show ?thesis
      using None that d2 sh by (auto simp: get_locked_def g redis_get_def)
  next
    case (Some v)
    then show ?thesis
      using that b d2 d3 sh sh3 by (auto simp: get_locked_def g g3 redis_get_def do_redis_del_def)
  qed
qed

lemma do_redis_post_up:
  assumes "redis_up api view" and "online w" and "0 \<le> expiration (g_rt w)"
  obtains w' where "do_redis_post api hash d n w =
      ((if immutable (g_rt w) \<and> db view w hash \<noteq> None then 304 else 0), w')"
    and "db view w' = (if immutable (g_rt w) \<and> db view w hash \<noteq> None then db view w
      else (db view w)(hash \<mapsto> cstr (take (unat n) d)))"
    and "g_shutdown w' = g_shutdown w"
proof -
  let ?w1 = "lock_if w"
  let ?cmd = "set_command (g_rt ?w1) hash (cstr (take (unat n) d))"
  have s: "expiration (g_rt ?w1) = expiration (g_rt w)" "immutable (g_rt ?w1) = immutable (g_rt w)"
    using settings_eq [of ?w1 w] by simp_all
  obtain w2 where g: "redis_cmd api ?cmd ?w1 = (Some (fst (redis_do (db view w) ?cmd)), w2)"
    and d2: "db view w2 = snd (redis_do (db view w) ?cmd)"
    using redis_cmd_up [OF assms(1), of ?cmd ?w1] assms(2,3) s by auto
  have "g_shutdown w2 = g_shutdown w" using arg_cong [OF g, of "\<lambda>p. g_shutdown (snd p)"] by simp
  then show ?thesis
    using d2 by (intro that [of "unlock_if w2"])
      (auto simp: do_redis_post_def g redis_do_set_command s strncmp_eq_def)
qed

text \<open>The page and status a callback answers.\<close>

definition reply_of :: "string option \<times> srci \<times> 'c server \<Rightarrow> int \<times> string option" where
  "reply_of r = (return_code (fst (snd r)), fst r)"

definition state_of :: "string option \<times> srci \<times> 'c server \<Rightarrow> 'c server" where
  "state_of r = snd (snd r)"

lemma store_node_post_up:
  assumes "redis_up api view" and "online w" and "0 \<le> expiration (g_rt w)" and "\<not> shutting_down w"
    and "node_request u n ri" and "method_type ri = METHOD_POST" and "len \<le> 255"
    and "valid_token len u" and "valid_data (post_data ri)"
  shows "reply_of (store_node api alg len u n ri ud w) =
      (if immutable (g_rt w) \<and> db view w (token_of u) \<noteq> None
       then (304, Some ''object immutable - not modified'') else (200, Some ''ok''))"
    and "db view (state_of (store_node api alg len u n ri ud w)) =
      (if immutable (g_rt w) \<and> db view w (token_of u) \<noteq> None then db view w
       else (db view w)(token_of u \<mapsto> post_data ri))"
    and "shutting_down (state_of (store_node api alg len u n ri ud w)) = shutting_down w"
proof -
  have c: "cstr (take (unat (post_data_len ri)) (post_data ri)) = post_data ri"
    using assms(5,9) by (simp add: node_request_def)
  obtain w' where "do_redis_post api (token_of u) (post_data ri) (post_data_len ri) w =
      ((if immutable (g_rt w) \<and> db view w (token_of u) \<noteq> None then 304 else 0), w')"
    "db view w' = (if immutable (g_rt w) \<and> db view w (token_of u) \<noteq> None then db view w
      else (db view w)(token_of u \<mapsto> post_data ri))" "g_shutdown w' = g_shutdown w"
    using do_redis_post_up [OF assms(1-3), of "token_of u" "post_data ri" "post_data_len ri"] unfolding c by metis
  then show "reply_of (store_node api alg len u n ri ud w) =
      (if immutable (g_rt w) \<and> db view w (token_of u) \<noteq> None
       then (304, Some ''object immutable - not modified'') else (200, Some ''ok''))"
    and "db view (state_of (store_node api alg len u n ri ud w)) =
      (if immutable (g_rt w) \<and> db view w (token_of u) \<noteq> None then db view w
       else (db view w)(token_of u \<mapsto> post_data ri))"
    and "shutting_down (state_of (store_node api alg len u n ri ud w)) = shutting_down w"
    using assms(4,6,8,9)
    by (auto simp: shutting_down_def store_node_def post_eq [OF assms(5,7)] reply_of_def state_of_def Let_def
        method_codes http_codes srci_get_method_type_def)
qed

lemma store_node_get_up:
  assumes "redis_up api view" and "online w" and "\<not> shutting_down w"
    and "node_request u n ri" and "method_type ri = METHOD_GET" and "len \<le> 255"
    and "valid_token len u"
  shows "reply_of (store_node api alg len u n ri ud w) =
      (case db view w (token_of u) of None \<Rightarrow> (404, Some ''not found'') | Some v \<Rightarrow> (200, Some (cstr v)))"
    and "db view (state_of (store_node api alg len u n ri ud w)) =
      (if bar (g_rt w) then (db view w)(token_of u := None) else db view w)"
    and "shutting_down (state_of (store_node api alg len u n ri ud w)) = shutting_down w"
proof -
  obtain w' where "get_locked api (token_of u) w = (0, map_option cstr (db view w (token_of u)), w')"
    "db view w' = (if bar (g_rt w) then (db view w)(token_of u := None) else db view w)"
    "g_shutdown w' = g_shutdown w"
    using get_locked_up [OF assms(1,2)] by metis
  then show "reply_of (store_node api alg len u n ri ud w) =
      (case db view w (token_of u) of None \<Rightarrow> (404, Some ''not found'') | Some v \<Rightarrow> (200, Some (cstr v)))"
    and "db view (state_of (store_node api alg len u n ri ud w)) =
      (if bar (g_rt w) then (db view w)(token_of u := None) else db view w)"
    and "shutting_down (state_of (store_node api alg len u n ri ud w)) = shutting_down w"
    using assms(3,5,7)
    by (auto simp: shutting_down_def store_node_def get_eq [OF assms(4,6)] reply_of_def state_of_def Let_def
        method_codes http_codes srci_get_method_type_def split: option.split)
qed

section \<open>What every request keeps\<close>

text \<open>A request never changes the settings, keeps the connection, and releases the lock.\<close>

definition quiet :: "'c server \<Rightarrow> 'c server \<Rightarrow> bool" where
  "quiet w w' \<longleftrightarrow> settings w' = settings w \<and> online w' = online w \<and>
     (\<not> rl (rc (g_rt w)) \<longrightarrow> \<not> rl (rc (g_rt w'))) \<and> (g_shutdown w \<longrightarrow> g_shutdown w')"

lemma quiet_refl [simp]: "quiet w w"
  by (simp add: quiet_def)

lemma quiet_add_log [simp]: "quiet w (add_log level msg w') = quiet w w'"
  by (simp add: quiet_def)

lemma handle_redis_error_shutdown: "g_shutdown w \<Longrightarrow> g_shutdown (handle_redis_error api w)"
  by (simp add: handle_redis_error_def Let_def split: option.split)

lemma get_locked_quiet: "quiet w (snd (snd (get_locked api hash w)))"
proof -
  have "g_shutdown w \<Longrightarrow> g_shutdown (snd (snd (get_locked api hash w)))"
    by (auto simp: get_locked_def do_redis_del_def Let_def split_beta
        intro: handle_redis_error_shutdown split: option.split)
  then show ?thesis by (auto simp: quiet_def get_locked_unlocks)
qed

lemma do_redis_post_quiet: "quiet w (snd (do_redis_post api hash d n w))"
proof -
  have "g_shutdown w \<Longrightarrow> g_shutdown (snd (do_redis_post api hash d n w))"
    by (auto simp: do_redis_post_def Let_def split_beta
        intro: handle_redis_error_shutdown split: option.split redisReply.split)
  then show ?thesis by (auto simp: quiet_def do_redis_post_unlocks)
qed

lemma get_quiet: "quiet w (snd (snd (get api req ri w)))"
proof -
  have "get_locked api hash w = (err, page, w') \<Longrightarrow> quiet w w'" for hash err page w'
    using get_locked_quiet [of w api hash] by simp
  then show ?thesis
    by (auto simp: get_def Let_def split: hash_result.split prod.split option.split)
qed

lemma post_quiet: "quiet w (snd (snd (post api req ri w)))"
proof -
  have "do_redis_post api hash d n w = (z, w') \<Longrightarrow> quiet w w'" for hash d n z w'
    using do_redis_post_quiet [of w api hash d n] by simp
  then show ?thesis
    by (auto simp: post_def Let_def split: hash_result.split prod.split)
qed

lemma store_node_quiet: "quiet w (state_of (store_node api alg len u n ri ud w))"
  by (simp add: store_node_def state_of_def shutdownmsg_def not_allowed_def Let_def get_quiet post_quiet)

lemma nodecfg_quiet: "quiet w (state_of (nodecfg u n ri ud w))"
  by (simp add: nodecfg_def state_of_def shutdownmsg_def not_allowed_def Let_def)

section \<open>Properties of the nodes\<close>

lemma stored_is_fetched:
  assumes "redis_up api view" and "online w" and "0 \<le> expiration (g_rt w)" and "\<not> shutting_down w"
    and "node_request u (int (length u)) ri" and "method_type ri = METHOD_POST"
    and "len \<le> 255" and "valid_token len u" and "valid_data (post_data ri)"
    and "\<not> (immutable (g_rt w) \<and> db view w (token_of u) \<noteq> None)"
    and "map c_tolower u' = map c_tolower u"
    and "node_request u' (int (length u')) ri'" and "method_type ri' = METHOD_GET"
  shows "let posted = store_node api alg len u (int (length u)) ri ud w;
           fetched = store_node api alg len u' (int (length u')) ri' ud (state_of posted);
           again = store_node api alg len u' (int (length u')) ri' ud (state_of fetched)
         in reply_of posted = (200, Some ''ok'') \<and> reply_of fetched = (200, Some (post_data ri)) \<and>
            reply_of again = (if bar (g_rt w) then (404, Some ''not found'') else (200, Some (post_data ri)))"
proof -
  define w1 where "w1 = state_of (store_node api alg len u (int (length u)) ri ud w)"
  define w2 where "w2 = state_of (store_node api alg len u' (int (length u')) ri' ud w1)"
  have t: "token_of u' = token_of u" using assms(11) by (simp add: token_of_def)
  have v': "valid_token len u'"
  proof -
    have "length u' = length u" using assms(11) by (metis length_map)
    moreover have "c_isxdigit x" if "x \<in> set u'" for x
    proof -
      have "c_tolower x \<in> c_tolower ` set u" using that assms(11) by (metis imageI list.set_map)
      then show ?thesis using assms(8) by (auto simp: valid_token_def) (metis tolower_xdigit)
    qed
    ultimately show ?thesis using assms(8) by (simp add: valid_token_def)
  qed
  note p = store_node_post_up [OF assms(1-7) assms(8,9), of alg ud, folded w1_def]
  have q1: "online w1" "\<not> shutting_down w1" "bar (g_rt w1) = bar (g_rt w)"
    using store_node_quiet [of w api alg len u "int (length u)" ri ud] assms(2,4) p(3)
      settings_eq [of w1 w] by (simp_all add: quiet_def w1_def)
  note f1 = store_node_get_up [OF assms(1) q1(1,2) assms(12,13) assms(7) v', of alg ud, folded w2_def]
  have q2: "online w2" "\<not> shutting_down w2"
    using store_node_quiet [of w1 api alg len u' "int (length u')" ri' ud] q1 f1(3)
    by (simp_all add: quiet_def w2_def)
  note f2 = store_node_get_up [OF assms(1) q2 assms(12,13) assms(7) v', of alg ud]
  have d1: "db view w1 (token_of u) = Some (post_data ri)" using p(2) assms(10) by auto
  then show ?thesis
    using p(1) f1 f2 assms(9,10) q1(3) unfolding w2_def [symmetric] w1_def [symmetric] Let_def t by simp
qed

text \<open>C17: what was posted is fetched. While redis is up, after a valid POST to a storage node of a
  token that is free (or on a server that is not immutable) the answer is 200, and a GET of the same
  token, in upper or lower case, answers 200 with exactly the uploaded text. On a
  burn-after-reading server the next GET answers 404.\<close>

theorem store_then_fetch:
  assumes "redis_up api view" and "online w" and "0 \<le> expiration (g_rt w)" and "\<not> shutting_down w"
    and "node_request u (int (length u)) ri" and "method_type ri = METHOD_POST"
    and "len \<le> 255" and "valid_token len u" and "valid_data (post_data ri)"
    and "\<not> (immutable (g_rt w) \<and> db view w (token_of u) \<noteq> None)"
    and "map c_tolower u' = map c_tolower u"
    and "node_request u' (int (length u')) ri'" and "method_type ri' = METHOD_GET"
  shows "let posted = store_node api alg len u (int (length u)) ri ud w;
           fetched = store_node api alg len u' (int (length u')) ri' ud (state_of posted);
           again = store_node api alg len u' (int (length u')) ri' ud (state_of fetched)
         in reply_of posted = (200, Some ''ok'') \<and> reply_of fetched = (200, Some (post_data ri)) \<and>
            reply_of again = (if bar (g_rt w) then (404, Some ''not found'') else (200, Some (post_data ri)))"
  by (rule stored_is_fetched [OF assms])

theorem store_then_fetch_witness:
  "let posted = store_node plain_redis 1 4 ''ABc0'' 4 (sample_request METHOD_POST ''00000'') None (sample_server True True);
       fetched = store_node plain_redis 1 4 ''abC0'' 4 (sample_request METHOD_GET ''00000'') None (state_of posted)
   in reply_of posted = (200, Some ''ok'') \<and> reply_of fetched = (200, Some ''00000'')"
proof -
  have "map c_tolower ''abC0'' = map c_tolower ''ABc0''"
    using sample_valid(4,5) by (simp add: token_of_def)
  from store_then_fetch [OF plain_redis_up _ _ _ _ _ _ sample_valid(1) _ _ this, of "sample_server True True"
      "sample_request METHOD_POST ''00000''" "sample_request METHOD_GET ''00000''" 1 None] sample_valid
  show ?thesis by (simp add: Let_def shutting_down_def)
qed

text \<open>C18: no request that is refused before redis is asked has any effect on it: when the server is
  shutting down, for other methods than GET and POST, and for a malformed token or upload, the state
  is left as it was apart from a line in the log, whatever redis is.\<close>

theorem refused_without_redis:
  assumes "node_request u n ri" and "len \<le> 255"
    and "shutting_down w \<or> method_type ri \<notin> {METHOD_GET, METHOD_POST} \<or> \<not> valid_token len u \<or>
      (method_type ri = METHOD_POST \<and> \<not> valid_data (post_data ri))"
  shows "let r = store_node api alg len u n ri ud w
         in return_code (fst (snd r)) \<in> {400, 405, 503} \<and> g_rt (state_of r) = g_rt w \<and>
            (shutting_down w \<longrightarrow> reply_of r = (503, Some ''service unavailable: shutting down'') \<and> state_of r = w)"
proof (cases "shutting_down w")
  case True
  then show ?thesis by (simp add: store_node_def shutdownmsg_def reply_of_def state_of_def http_codes)
next
  case False
  consider "method_type ri = METHOD_GET" | "method_type ri = METHOD_POST"
    | "method_type ri \<notin> {METHOD_GET, METHOD_POST}" by blast
  then show ?thesis
    using assms(3) False
    by cases (auto simp: store_node_def get_eq [OF assms(1,2)] post_eq [OF assms(1,2)] not_allowed_def
        state_of_def srci_get_method_type_def http_codes METHOD_GET_def METHOD_POST_def Let_def)
qed

theorem refused_without_redis_witness:
  "let r = store_node dead_redis 1 4 ''xyz'' 3 (sample_request METHOD_GET []) None (sample_server True True)
   in return_code (fst (snd r)) \<in> {400, 405, 503} \<and> g_rt (state_of r) = g_rt (sample_server True True)"
proof -
  have "node_request ''xyz'' 3 (sample_request METHOD_GET [])" "\<not> valid_token 4 ''xyz''"
    by (simp_all add: node_request_def sample_request_def valid_token_def)
  then show ?thesis
    using refused_without_redis [of "''xyz''" 3 "sample_request METHOD_GET []" 4 "sample_server True True" dead_redis 1 None]
    by (simp add: Let_def)
qed

text \<open>C19: whatever redis does in it, replies of any type or none, a request that finds the redis
  lock free leaves it free, on every path, and it changes none of the settings.\<close>

theorem requests_release_the_lock:
  assumes "\<not> rl (rc (g_rt w))" and "f \<in> {node128 api, node160 api, node224 api, node256 api, node384 api,
    node512 api, nodecfg}"
  shows "\<not> rl (rc (g_rt (state_of (f u n ri ud w)))) \<and> settings (state_of (f u n ri ud w)) = settings w \<and>
    online (state_of (f u n ri ud w)) = online w"
proof -
  have "quiet w (state_of (f u n ri ud w))"
    using assms(2) store_node_quiet nodecfg_quiet by (auto simp: node_defs)
  then show ?thesis using assms(1) by (simp add: quiet_def)
qed

theorem requests_release_the_lock_witness:
  "\<not> rl (rc (g_rt (state_of (node128 dead_redis ''abc0'' 4 (sample_request METHOD_GET []) None (sample_server False True)))))"
  using requests_release_the_lock [of "sample_server False True" "node128 dead_redis" dead_redis] by simp

text \<open>The configuration node as a table of names and texts.\<close>

definition config_lines :: "'c wsrt \<Rightarrow> (string \<times> string) list" where
  "config_lines rt =
     [(''maxuploadsize'', ''MAXUPLOADSIZE: '' @ show_int (max_post_data_size rt) @ '' bytes'' @ NL),
      (''expiration'', ''EXPIRATION: '' @ show_int (expiration rt) @ '' seconds'' @ NL),
      (''immutable'', ''IMMUTABLE: '' @ (if immutable rt then ''1'' else ''0'') @ NL),
      (''bar'', ''BAR: '' @ (if bar rt then ''1'' else ''0'') @ NL)]"

definition config_page :: "string \<Rightarrow> 'c wsrt \<Rightarrow> string" where
  "config_page u rt = concat (map snd (filter (\<lambda>(name, text). u = ''all'' \<or> u = name) (config_lines rt)))"

lemma page_printf_four:
  "length t1 + length t2 + length t3 + length t4 < PAGE_SIZE \<Longrightarrow>
   page_printf t4 (page_printf t3 (page_printf t2 (page_printf t1 ([], 0)))) =
     (t1 @ t2 @ t3 @ t4, length (t1 @ t2 @ t3 @ t4))"
  by (simp add: page_printf_def snprintf_buf_def)

lemma show_bit: "show_int (of_bool b) = (if b then ''1'' else ''0'')"
  by (simp add: show_int_def show_nat.simps digit_char_def char_of_def bit_0 bit_numeral_rec)

text \<open>C27: the configuration node. A GET of a known name answers its line, \<open>all\<close> answers the four
  lines in order, and nothing is ever cut off: for values that are C longs the texts fit the page
  of 512 bytes together. Any other name is a 404 whose text is cut to the page. The state of the
  server is not touched.\<close>

theorem nodecfg_pages:
  assumes "\<not> shutting_down w" and "method_type ri = METHOD_GET"
    and "LONG_MIN \<le> max_post_data_size (g_rt w)" "max_post_data_size (g_rt w) \<le> LONG_MAX"
    and "LONG_MIN \<le> expiration (g_rt w)" "expiration (g_rt w) \<le> LONG_MAX"
  shows "length (config_page u (g_rt w)) < PAGE_SIZE \<and> state_of (nodecfg u n ri ud w) = w \<and>
    reply_of (nodecfg u n ri ud w) =
      (if u = ''all'' \<or> u \<in> set (map fst (config_lines (g_rt w))) then (200, Some (config_page u (g_rt w)))
       else (404, Some (snprintf_buf PAGE_SIZE (''Unknown Config Option: '' @ u @ NL))))"
proof -
  let ?rt = "g_rt w"
  have l: "length (show_int (max_post_data_size ?rt)) \<le> 20" "length (show_int (expiration ?rt)) \<le> 20"
    using length_show_long assms by auto
  have first: "page_printf t ([], 0) = (t, length t)" if "length t < PAGE_SIZE" for t
    using that by (simp add: page_printf_def snprintf_buf_def)
  have "length (config_page u ?rt) < PAGE_SIZE"
    using l by (simp add: config_page_def config_lines_def PAGE_SIZE_def)
  moreover have "state_of (nodecfg u n ri ud w) = w"
    using assms(1,2) by (simp add: nodecfg_def Let_def state_of_def srci_get_method_type_def)
  moreover have "reply_of (nodecfg u n ri ud w) =
      (if u = ''all'' \<or> u \<in> set (map fst (config_lines ?rt)) then (200, Some (config_page u ?rt))
       else (404, Some (snprintf_buf PAGE_SIZE (''Unknown Config Option: '' @ u @ NL))))"
  proof (cases "u = ''all''")
    case True
    have fit: "length (''MAXUPLOADSIZE: '' @ show_int (max_post_data_size ?rt) @ '' bytes'' @ NL) +
        length (''EXPIRATION: '' @ show_int (expiration ?rt) @ '' seconds'' @ NL) +
        length (''IMMUTABLE: '' @ show_int (of_bool (immutable ?rt)) @ NL) +
        length (''BAR: '' @ show_int (of_bool (bar ?rt)) @ NL) < PAGE_SIZE"
      using l by (simp add: PAGE_SIZE_def show_bit)
    have "reply_of (nodecfg u n ri ud w) = (200, Some (fst
        (page_printf (''BAR: '' @ show_int (of_bool (bar ?rt)) @ NL)
         (page_printf (''IMMUTABLE: '' @ show_int (of_bool (immutable ?rt)) @ NL)
          (page_printf (''EXPIRATION: '' @ show_int (expiration ?rt) @ '' seconds'' @ NL)
           (page_printf (''MAXUPLOADSIZE: '' @ show_int (max_post_data_size ?rt) @ '' bytes'' @ NL) ([], 0)))))))"
      using assms(1,2) True
      by (simp add: nodecfg_def Let_def reply_of_def srci_get_method_type_def http_codes)
    then show ?thesis
      unfolding page_printf_four [OF fit] using True by (simp add: config_page_def config_lines_def show_bit)
  next
    case False
    then show ?thesis
      using assms(1,2) l
      by (auto simp: nodecfg_def Let_def reply_of_def srci_get_method_type_def http_codes show_bit
          config_page_def config_lines_def first PAGE_SIZE_def)
  qed
  ultimately show ?thesis by blast
qed

theorem nodecfg_pages_witness:
  "reply_of (nodecfg ''expiration'' 10 (sample_request METHOD_GET []) None (sample_server False True)) =
     (200, Some (''EXPIRATION: '' @ show_int 3600 @ '' seconds'' @ NL))"
  using nodecfg_pages [of "sample_server False True" "sample_request METHOD_GET []" "''expiration''" 10 None]
  by (simp add: sample_valid shutting_down_def LONG_MIN_def LONG_MAX_def config_page_def config_lines_def)

end
