(* ===== verification/WS_Server.thy ===== *)
theory WS_Server
  imports WS_Node WS_Conn WS_Files Getopts
begin

text \<open>
  The server program: its start and stop (webstore_uhd.c), its command line, signal handlers and
  main function (webstore.c), and the state machine of a running server, whose steps are the
  connections and requests libmicrohttpd delivers, the expiry of keys in redis and signals.
\<close>

section \<open>Start and stop\<close>

record srv_opts =
  http_ip :: "string option"
  http_port :: u16
  use_threads :: bool
  so_max_post_data_size :: int
  certfile :: "string option"
  keyfile :: "string option"
  rdest :: string
  rport :: u16

text \<open>The environment of the process: variables, files, whether a mutex can be initialised and
  whether the daemon starts.\<close>

record environment =
  env_var :: "string \<Rightarrow> string option"
  env_files :: filesystem
  env_mutex :: bool
  env_daemon :: "daemon_config \<Rightarrow> bool"

type_synonym 'c instance_of_server = "'c server server_instance"

definition activate_https ::
    "filesystem \<Rightarrow> srv_opts \<Rightarrow> 'c instance_of_server \<Rightarrow> 'c instance_of_server option" where
  "activate_https fs so ws =
     (case (certfile so, keyfile so) of
        (Some cf, Some kf) \<Rightarrow>
          (case get_file fs cf of None \<Rightarrow> None
           | Some cert \<Rightarrow>
             (case get_file fs kf of None \<Rightarrow> None
              | Some key \<Rightarrow>
                  Some (searest_set_https_key (searest_set_https_cert ws (cstr cert)) (cstr key))))
      | _ \<Rightarrow> Some ws)"

definition add_nodes :: "'c hiredis \<Rightarrow> 'c instance_of_server \<Rightarrow> 'c instance_of_server" where
  "add_nodes api ws =
     (let ws = snd (searest_node_add ws (Some ''/config/'') (Some nodecfg) None);
          ws = snd (searest_node_add ws (Some ''/store/128/'') (Some (node128 api)) None);
          ws = snd (searest_node_add ws (Some ''/store/160/'') (Some (node160 api)) None);
          ws = snd (searest_node_add ws (Some ''/store/224/'') (Some (node224 api)) None);
          ws = snd (searest_node_add ws (Some ''/store/256/'') (Some (node256 api)) None);
          ws = snd (searest_node_add ws (Some ''/store/384/'') (Some (node384 api)) None);
          ws = snd (searest_node_add ws (Some ''/store/512/'') (Some (node512 api)) None)
      in ws)"

definition wsrt_zero :: "'c wsrt" where
  "wsrt_zero = \<lparr>rc = rai_zero, multithreaded = False, reqperiod = 0, reqcount = 0,
     max_post_data_size = 0, expiration = 0, immutable = False, bar = False\<rparr>"

text \<open>The run-time data from the options and the environment, once redis is connected.\<close>

definition configure :: "environment \<Rightarrow> srv_opts \<Rightarrow> 'c rai \<Rightarrow> 'c wsrt" where
  "configure env so r =
     (let rt = wsrt_zero\<lparr>multithreaded := use_threads so, rc := r\<rparr>;
          rt = rt\<lparr>max_post_data_size := so_max_post_data_size so\<rparr>;
          rt = (case env_var env ''REQPERIOD'' of None \<Rightarrow> rt | Some s \<Rightarrow> rt\<lparr>reqperiod := c_atoi s\<rparr>);
          rt = (case env_var env ''REQCOUNT'' of None \<Rightarrow> rt | Some s \<Rightarrow> rt\<lparr>reqcount := c_atol s\<rparr>);
          rt = (case env_var env ''EXPIRATION'' of None \<Rightarrow> rt | Some s \<Rightarrow> rt\<lparr>expiration := c_atol s\<rparr>);
          rt = (if expiration rt < 0 then rt\<lparr>expiration := 0\<rparr> else rt);
          rt = (if env_var env ''IMMUTABLE'' \<noteq> None then rt\<lparr>immutable := True\<rparr> else rt);
          rt = (if env_var env ''BAR'' \<noteq> None then rt\<lparr>bar := True\<rparr> else rt)
      in rt)"

text \<open>\<open>None\<close> is \<open>exit(EXIT_FAILURE)\<close>. The log and the flags of \<open>w\<close> are carried on.\<close>

definition webstore_start ::
    "'c hiredis \<Rightarrow> environment \<Rightarrow> srv_opts \<Rightarrow> 'c server \<Rightarrow> ('c instance_of_server \<times> 'c server) option" where
  "webstore_start api env so w =
     (let (z, r) = rai_connect api (env_mutex env) rai_zero (rdest so) (rport so)
      in if z \<noteq> 0 then None
         else
           let ws = add_nodes api (searest_new (8 + 3) (128 + 11) (word_of_int (so_max_post_data_size so)));
               ws = (if \<not> use_threads so then searest_set_internal_select ws else ws);
               rt = configure env so r;
               ws = (if 0 < reqperiod rt \<and> 0 < reqcount rt then searest_set_addr_cb ws (ws_addr_check api) else ws)
           in case (if certfile so \<noteq> None \<and> keyfile so \<noteq> None then activate_https (env_files env) so ws
                    else Some ws) of
                None \<Rightarrow> None
              | Some ws \<Rightarrow>
                  let (z, ws) = searest_start (env_daemon env) ws (http_ip so) (http_port so) in
                  if z \<noteq> 0 then None
                  else Some (ws, add_log WSLOG_INFO
                         (''webstore started on port '' @ show_nat (unat (http_port so))) (w\<lparr>g_rt := rt\<rparr>)))"

definition webstore_stop :: "'c instance_of_server option \<Rightarrow> 'c server \<Rightarrow> 'c server" where
  "webstore_stop srv w =
     (case srv of None \<Rightarrow> w
      | Some ws \<Rightarrow>
          let ws = searest_stop ws; freed = searest_del ws; w = add_log WSLOG_INFO ''webstore shutdown'' w
          in upd_rc rai_disconnect w)"

section \<open>The command line\<close>

definition server_options :: "options list" where
  "server_options =
     [option_entry 1 (Some ''ip'') ''HTTP IP to bind to'' (Some ''I'') True,
      option_entry 2 (Some ''port'') ''HTTP Port to bind to'' (Some ''P'') True,
      option_entry 3 (Some ''tpc'') ''UHD Multithread'' (Some ''t'') False,
      option_entry 4 (Some ''log'') ''Log events to this file'' (Some ''l'') True,
      option_entry 5 (Some ''rsock'') ''Connect to Redis file socket'' None True,
      option_entry 6 (Some ''rtcp'') ''Connect to Redis over tcp'' None True,
      option_entry 7 (Some ''cert'') ''Use this HTTPS cert'' None True,
      option_entry 8 (Some ''key'') ''Use this HTTPS key'' None True,
      option_entry 9 (Some ''dsize'') ''Set max POST data size'' None True]"

record server_globals =
  g_so :: srv_opts
  g_logfile :: "string option"
  g_rsock :: "string option"
  g_rip :: "string option"
  g_rport :: u16

definition initial_globals :: server_globals where
  "initial_globals =
     \<lparr>g_so = \<lparr>http_ip = None, http_port = 0, use_threads = False,
        so_max_post_data_size = 20 * 1024 * 1024, certfile = None, keyfile = None, rdest = [], rport = 0\<rparr>,
      g_logfile = None, g_rsock = None, g_rip = None, g_rport = 0\<rparr>"

definition set_option :: "int \<times> string option \<Rightarrow> server_globals \<Rightarrow> server_globals" where
  "set_option e g =
     (let k = fst e; args = (case snd e of None \<Rightarrow> [] | Some s \<Rightarrow> s); so = g_so g in
      if k = 1 then g\<lparr>g_so := so\<lparr>http_ip := Some args\<rparr>\<rparr>
      else if k = 2 then g\<lparr>g_so := so\<lparr>http_port := word_of_int (c_atoi args)\<rparr>\<rparr>
      else if k = 3 then g\<lparr>g_so := so\<lparr>use_threads := True\<rparr>\<rparr>
      else if k = 4 then g\<lparr>g_logfile := Some args\<rparr>
      else if k = 5 then g\<lparr>g_rsock := Some args\<rparr>
      else if k = 6 then
        (if CHR '':'' \<in> set args then
           g\<lparr>g_rip := Some (takeWhile (\<lambda>x. x \<noteq> CHR '':'') args),
             g_rport := word_of_int (c_atoi (tl (dropWhile (\<lambda>x. x \<noteq> CHR '':'') args)))\<rparr>
         else g)
      else if k = 7 then g\<lparr>g_so := so\<lparr>certfile := Some args\<rparr>\<rparr>
      else if k = 8 then g\<lparr>g_so := so\<lparr>keyfile := Some args\<rparr>\<rparr>
      else if k = 9 then g\<lparr>g_so := so\<lparr>so_max_post_data_size := c_atol args\<rparr>\<rparr>
      else g)"

definition check_globals :: "server_globals \<Rightarrow> server_globals parsed" where
  "check_globals g =
     (let so = g_so g in
      if g_rsock g = None \<and> g_rip g = None then Failure
      else if g_rip g \<noteq> None \<and> g_rport g = 0 then Failure
      else if http_port so = 0 then Failure
      else if certfile so \<noteq> None \<and> keyfile so = None then Failure
      else if certfile so = None \<and> keyfile so \<noteq> None then Failure
      else if so_max_post_data_size so < 6 then Failure
      else Parsed g)"

definition parse_args :: "string list \<Rightarrow> server_globals \<Rightarrow> server_globals parsed" where
  "parse_args argv g =
     (let (events, fin) = scan_args argv server_options 1
      in after_scan fin (check_globals (fold set_option events g)))"

section \<open>The main function\<close>

definition server_zero :: "(nat \<Rightarrow> string) \<Rightarrow> 'c server" where
  "server_zero clk = \<lparr>g_rt = wsrt_zero, g_redis_error = False, g_shutdown = False,
     g_log = \<lparr>g_lf = Null, clock = clk, reads = 0\<rparr>\<rparr>"

text \<open>From the command line to the running server; \<open>log_contents\<close> is what opening the log file finds.\<close>

definition start_server ::
    "'c hiredis \<Rightarrow> environment \<Rightarrow> server_globals \<Rightarrow> 'c server \<Rightarrow> ('c instance_of_server \<times> 'c server) option" where
  "start_server api env g w =
     (case g_rsock g of
        Some s \<Rightarrow> webstore_start api env ((g_so g)\<lparr>rdest := s\<rparr>) w
      | None \<Rightarrow>
          (case g_rip g of
             Some i \<Rightarrow> if 0 < g_rport g then webstore_start api env ((g_so g)\<lparr>rdest := i, rport := g_rport g\<rparr>) w
                       else None
           | None \<Rightarrow> None))"

definition main_start ::
    "'c hiredis \<Rightarrow> environment \<Rightarrow> (string \<Rightarrow> string list option) \<Rightarrow> (nat \<Rightarrow> string) \<Rightarrow> string list \<Rightarrow>
     ('c instance_of_server \<times> 'c server) parsed" where
  "main_start api env log_contents clk argv =
     (case parse_args argv initial_globals of
        Parsed g \<Rightarrow>
          let w = server_zero clk;
              (z, l) = (case g_logfile g of None \<Rightarrow> (0, g_log w) | Some f \<Rightarrow> log_open (log_contents f) (g_log w))
          in if z \<noteq> 0 then Failure
             else (case start_server api env g (w\<lparr>g_log := l\<rparr>) of None \<Rightarrow> Failure | Some s \<Rightarrow> Parsed s)
      | Usage_Shown \<Rightarrow> Usage_Shown
      | Failure \<Rightarrow> Failure
      | Crash e \<Rightarrow> Crash e)"

text \<open>The waiting loop goes on while neither flag is set; then the services stop and the log closes.\<close>

definition keeps_waiting :: "'c server \<Rightarrow> bool" where
  "keeps_waiting w \<longleftrightarrow> \<not> g_shutdown w \<and> \<not> g_redis_error w"

definition main_stop :: "'c instance_of_server option \<Rightarrow> 'c server \<Rightarrow> 'c server" where
  "main_stop srv w = (let w = webstore_stop srv w in w\<lparr>g_log := log_close (g_log w)\<rparr>)"

datatype signal = SIGPIPE | SIGHUP | SIGINT | SIGTERM | SIGQUIT | SIG_OTHER

definition sig_handler :: "signal \<Rightarrow> 'c server \<Rightarrow> 'c server" where
  "sig_handler s w =
     (case s of
        SIGPIPE \<Rightarrow> add_log WSLOG_ERR ''SIGPIPE'' w
      | SIGHUP \<Rightarrow> w\<lparr>g_shutdown := True\<rparr>
      | SIGINT \<Rightarrow> w\<lparr>g_shutdown := True\<rparr>
      | SIGTERM \<Rightarrow> w\<lparr>g_shutdown := True\<rparr>
      | SIGQUIT \<Rightarrow> w\<lparr>g_shutdown := True\<rparr>
      | SIG_OTHER \<Rightarrow> w)"

text \<open>The timer of the log: flushed at every fourth alarm.\<close>

definition alarm_handler :: "int \<times> 'c server \<Rightarrow> int \<times> 'c server" where
  "alarm_handler = (\<lambda>(timer, w).
     let timer = timer + 1
     in if 4 \<le> timer then (0, w\<lparr>g_log := log_flush (g_log w)\<rparr>) else (timer, w))"

section \<open>The routes\<close>

definition store_nodes :: "'c hiredis \<Rightarrow> (string \<times> int \<times> 'c server node_cb) list" where
  "store_nodes api =
     [(''/store/128/'', HASHLEN128, node128 api), (''/store/160/'', HASHLEN160, node160 api),
      (''/store/224/'', HASHLEN224, node224 api), (''/store/256/'', HASHLEN256, node256 api),
      (''/store/384/'', HASHLEN384, node384 api), (''/store/512/'', HASHLEN512, node512 api)]"

definition all_roots :: "string list" where
  "all_roots = [''/config/'', ''/store/128/'', ''/store/160/'', ''/store/224/'', ''/store/256/'',
     ''/store/384/'', ''/store/512/'']"

lemma all_roots_prefix_free: "prefix_free all_roots"
  by (simp add: prefix_free_def all_roots_def All_less_Suc numeral_eq_Suc)

text \<open>An instance as the server sets it up: the seven nodes, all enabled, and the URL limits.\<close>

definition ready :: "'c hiredis \<Rightarrow> 'c instance_of_server \<Rightarrow> bool" where
  "ready api ws \<longleftrightarrow>
     map (\<lambda>n. (root n, cb n, disabled n, nud n)) (nodelist_head ws) =
       (''/config/'', nodecfg, False, None) # map (\<lambda>(r, len, f). (r, f, False, None)) (store_nodes api) \<and>
     min_url_len ws = 11 \<and> max_url_len ws = 139"

lemma ready_roots: "ready api ws \<Longrightarrow> map root (nodelist_head ws) = all_roots"
proof -
  assume "ready api ws"
  then have "map fst (map (\<lambda>n. (root n, cb n, disabled n, nud n)) (nodelist_head ws)) =
      map fst ((''/config/'', nodecfg, False, None :: ptr) # map (\<lambda>(r, len, f). (r, f, False, None)) (store_nodes api))"
    unfolding ready_def by metis
  then show ?thesis by (simp add: o_def store_nodes_def all_roots_def)
qed

lemma ready_node:
  assumes "ready api ws" and "i < 7"
  shows "i < length (nodelist_head ws)"
    and "root (nodelist_head ws ! i) = all_roots ! i"
    and "\<not> disabled (nodelist_head ws ! i)" and "nud (nodelist_head ws ! i) = None"
    and "cb (nodelist_head ws ! i) = (nodecfg # map (\<lambda>(r, len, f). f) (store_nodes api)) ! i"
proof -
  let ?row = "\<lambda>n. (root n, cb n, disabled n, nud n)"
  have m: "map ?row (nodelist_head ws) =
       (''/config/'', nodecfg, False, None) # map (\<lambda>(r, len, f). (r, f, False, None)) (store_nodes api)"
    using assms(1) by (simp add: ready_def)
  have len: "length (nodelist_head ws) = 7"
    using arg_cong [OF m, of length] by (simp add: store_nodes_def)
  then show l: "i < length (nodelist_head ws)" using assms(2) by simp
  have row: "?row (nodelist_head ws ! i) =
      ((''/config/'', nodecfg, False, None) # map (\<lambda>(r, len, f). (r, f, False, None)) (store_nodes api)) ! i"
    using arg_cong [OF m, of "\<lambda>xs. xs ! i"] l by simp
  have "i = 0 \<or> i = 1 \<or> i = 2 \<or> i = 3 \<or> i = 4 \<or> i = 5 \<or> i = 6" using assms(2) by auto
  then show "root (nodelist_head ws ! i) = all_roots ! i"
    and "\<not> disabled (nodelist_head ws ! i)" and "nud (nodelist_head ws ! i) = None"
    and "cb (nodelist_head ws ! i) = (nodecfg # map (\<lambda>(r, len, f). f) (store_nodes api)) ! i"
    using row by (auto simp: store_nodes_def all_roots_def)
qed

lemma ready_find:
  assumes "ready api ws" and "i < 7"
  shows "searest_node_find ws (all_roots ! i @ u) = Some i"
  by (rule nodes.lookup_prefix_free)
    (use assms ready_roots [OF assms(1)] all_roots_prefix_free ready_node(1) [OF assms] in
      \<open>simp_all add: all_roots_def\<close>)

lemma ready_set_access [simp]: "ready api (searest_node_set_access now i ws) = ready api ws"
proof (cases "i < length (nodelist_head ws)")
  case True
  have "map (\<lambda>n. (root n, cb n, disabled n, nud n)) (nodelist_head (searest_node_set_access now i ws)) =
      map (\<lambda>n. (root n, cb n, disabled n, nud n)) (nodelist_head ws)"
    using True by (simp add: searest_node_set_access_def update_node_def map_update)
      (metis (no_types, lifting) length_map list_update_id nth_map)
  then show ?thesis by (simp add: ready_def searest_node_set_access_def update_node_def)
next
  case False
  then show ?thesis
    by (simp add: ready_def searest_node_set_access_def update_node_def list_update_beyond)
qed

lemma add_nodes_ready:
  "ready api (add_nodes api (searest_new 11 139 m))"
  by (simp add: ready_def add_nodes_def node_add_Some searest_new_def store_nodes_def Let_def)

lemma ready_setters [simp]:
  "ready api (searest_set_internal_select ws) = ready api ws"
  "ready api (searest_set_addr_cb ws f) = ready api ws"
  "ready api (searest_set_https_cert ws s) = ready api ws"
  "ready api (searest_set_https_key ws s) = ready api ws"
  "ready api (ws\<lparr>mhd_srv := b\<rparr>) = ready api ws"
  by (simp_all add: ready_def searest_set_internal_select_def searest_set_addr_cb_def
      searest_set_https_cert_def searest_set_https_key_def)

section \<open>Properties of the start\<close>

lemma searest_start_0:
  assumes "searest_start sd ws ip4 port = (0, ws')"
  shows "ws' = ws\<lparr>mhd_srv := True\<rparr>"
  using assms by (auto simp: searest_start_def Let_def split: if_splits)

lemma activate_https_Some:
  assumes "activate_https fs so ws = Some ws'" and "certfile so \<noteq> None" and "keyfile so \<noteq> None"
  shows "\<exists>cert key. ws' = searest_set_https_key (searest_set_https_cert ws cert) key"
  using assms by (auto simp: activate_https_def split: option.splits)

lemma configure_limits [simp]:
  "reqperiod (configure env so r) = (case env_var env ''REQPERIOD'' of None \<Rightarrow> 0 | Some s \<Rightarrow> c_atoi s)"
  "reqcount (configure env so r) = (case env_var env ''REQCOUNT'' of None \<Rightarrow> 0 | Some s \<Rightarrow> c_atol s)"
  "expiration (configure env so r) = max 0 (case env_var env ''EXPIRATION'' of None \<Rightarrow> 0 | Some s \<Rightarrow> c_atol s)"
  by (auto simp: configure_def Let_def wsrt_zero_def split: option.split)

lemma configure_simps [simp]:
  "rc (configure env so r) = r" "multithreaded (configure env so r) = use_threads so"
  "max_post_data_size (configure env so r) = so_max_post_data_size so"
  "0 \<le> expiration (configure env so r)"
  "immutable (configure env so r) = (env_var env ''IMMUTABLE'' \<noteq> None)"
  "bar (configure env so r) = (env_var env ''BAR'' \<noteq> None)"
  by (auto simp: configure_def Let_def wsrt_zero_def split: option.split)


definition sample_environment :: environment where
  "sample_environment = \<lparr>env_var = (\<lambda>v. if v = ''BAR'' then Some ''1'' else None),
     env_files = \<lparr>fs_stat = (\<lambda>p. No_Entry), fs_open = (\<lambda>p. None)\<rparr>, env_mutex = True, env_daemon = (\<lambda>d. True)\<rparr>"

definition sample_opts :: srv_opts where
  "sample_opts = \<lparr>http_ip = None, http_port = 80, use_threads = True, so_max_post_data_size = 1000,
     certfile = None, keyfile = None, rdest = ''127.0.0.1'', rport = 6379\<rparr>"

definition sample_limits :: environment where
  "sample_limits = sample_environment\<lparr>env_var := [''REQPERIOD'' \<mapsto> show_nat 60, ''REQCOUNT'' \<mapsto> show_nat 5,
     ''EXPIRATION'' \<mapsto> show_nat 3600, ''BAR'' \<mapsto> ''1'']\<rparr>"

lemma sample_start:
  assumes "env_mutex env" and "\<And>d. env_daemon env d"
  obtains ws w where "webstore_start plain_redis env sample_opts (server_zero show_nat) = Some (ws, w)"
proof -
  have "searest_node_count (add_nodes plain_redis (searest_new 11 139 1000)) = 7"
    by (simp add: searest_node_count_def add_nodes_def node_add_Some searest_new_def Let_def)
  then have "webstore_start plain_redis env sample_opts (server_zero show_nat) \<noteq> None"
    using assms by (simp add: webstore_start_def sample_opts_def rai_connect_def rai_zero_def searest_node_count_def
        searest_set_addr_cb_def plain_redis_def searest_start_def Let_def split: prod.split)
  then show ?thesis using that by auto
qed


section \<open>Properties of the command line\<close>

lemma check_globals_Parsed: "check_globals g = Parsed g' \<Longrightarrow> g' = g"
  by (simp add: check_globals_def Let_def split: if_splits)

text \<open>C23: what the checks of \<open>parse_args\<close> guarantee to the rest of the program: some redis to connect
  to, with a port if it is a TCP address, a port to listen on, certificate and key only together,
  and room for the smallest upload. So \<open>main\<close> always gets to call \<open>webstore_start\<close>: its last branch is
  dead code.\<close>

theorem parse_args_guards:
  assumes "parse_args argv g0 = Parsed g"
  shows "http_port (g_so g) \<noteq> 0 \<and> (certfile (g_so g) = None \<longleftrightarrow> keyfile (g_so g) = None) \<and>
    6 \<le> so_max_post_data_size (g_so g) \<and>
    (\<exists>dest port. start_server api env g w = webstore_start api env ((g_so g)\<lparr>rdest := dest, rport := port\<rparr>) w \<and>
       (if g_rsock g \<noteq> None then g_rsock g = Some dest \<and> port = rport (g_so g)
        else g_rip g = Some dest \<and> port = g_rport g \<and> port \<noteq> 0))"
proof -
  obtain events fin where "scan_args argv server_options 1 = (events, fin)" by fastforce
  then have "after_scan fin (check_globals (fold set_option events g0)) = Parsed g"
    using assms by (simp add: parse_args_def)
  then have "check_globals (fold set_option events g0) = Parsed g"
    by (simp add: after_scan_def split: ending.splits)
  then have c: "check_globals g = Parsed g"
    using check_globals_Parsed by metis
  then have "\<exists>dest port. start_server api env g w = webstore_start api env ((g_so g)\<lparr>rdest := dest, rport := port\<rparr>) w \<and>
       (if g_rsock g \<noteq> None then g_rsock g = Some dest \<and> port = rport (g_so g)
        else g_rip g = Some dest \<and> port = g_rport g \<and> port \<noteq> 0)"
  proof (cases "g_rsock g")
    case (Some s)
    have "(g_so g)\<lparr>rdest := s\<rparr> = (g_so g)\<lparr>rdest := s, rport := rport (g_so g)\<rparr>" by simp
    then have "start_server api env g w =
        webstore_start api env ((g_so g)\<lparr>rdest := s, rport := rport (g_so g)\<rparr>) w"
      using Some by (simp add: start_server_def)
    then show ?thesis using Some by (intro exI [of _ s] exI [of _ "rport (g_so g)"]) simp
  next
    case None
    then obtain i where "g_rip g = Some i" "g_rport g \<noteq> 0"
      using c by (auto simp: check_globals_def Let_def split: if_splits)
    then show ?thesis
      using None by (intro exI [of _ i] exI [of _ "g_rport g"]) (simp add: start_server_def word_gt_0)
  qed
  then show ?thesis
    using c by (auto simp: check_globals_def Let_def split: if_splits)
qed

lemma server_options_ok: "table_ok server_options"
  by (simp add: table_ok_def entry_ok_def server_options_def)

lemma show_nat_no_dash: "\<not> starts_dash (show_nat n)"
  using digit_not_special [OF show_nat_hd [of n]] by (simp add: starts_dash_def)

lemma port_read: "p < 65536 \<Longrightarrow> (word_of_int (c_atoi (show_nat p)) :: u16) = of_nat p"
  by (simp add: c_atoi_show_nat)

lemma documented_line:
  assumes "0 < p" and "p < 65536" and "0 < q" and "q < 65536"
    and "CHR '':'' \<notin> set addr" and "addr \<noteq> []" and "\<not> starts_dash addr"
  shows "parse_args [prog, ''-P'', show_nat p, ''--rtcp'', addr @ '':'' @ show_nat q] initial_globals =
    Parsed (initial_globals\<lparr>g_so := (g_so initial_globals)\<lparr>http_port := of_nat p\<rparr>,
      g_rip := Some addr, g_rport := of_nat q\<rparr>)"
proof -
  let ?u = "\<lparr>opt_used = server_options ! 1, short_form = True, arg_given = show_nat p\<rparr>"
  let ?v = "\<lparr>opt_used = server_options ! 5, short_form = False, arg_given = addr @ '':'' @ show_nat q\<rparr>"
  have "\<forall>u \<in> set [?u, ?v]. usage_ok server_options u"
    using show_nat_no_dash assms(6,7) by (auto simp: usage_ok_def server_options_def starts_dash_def)
  from scan_words [OF server_options_ok this, of prog]
  have sc: "scan_args [prog, ''-P'', show_nat p, ''--rtcp'', addr @ '':'' @ show_nat q] server_options 1 =
      ([(2, Some (show_nat p)), (6, Some (addr @ '':'' @ show_nat q))], Finished)"
    by (simp add: words_def event_def option_word_def server_options_def)
  have colon: "takeWhile (\<lambda>x. x \<noteq> CHR '':'') (addr @ CHR '':'' # show_nat q) = addr"
    "dropWhile (\<lambda>x. x \<noteq> CHR '':'') (addr @ CHR '':'' # show_nat q) = CHR '':'' # show_nat q"
    using assms(5) by (induction addr) auto
  have "(of_nat p :: u16) \<noteq> 0" "(of_nat q :: u16) \<noteq> 0"
    using assms(1-4) by (auto simp: word_unat_eq_iff unsigned_of_nat take_bit_nat_eq_self)
  then show ?thesis
    using port_read [OF assms(2)] port_read [OF assms(4)] colon
    unfolding parse_args_def sc
    by (simp add: after_scan_def set_option_def check_globals_def initial_globals_def Let_def)
qed

text \<open>C22: the documented command line: \<open>-P port --rtcp address:port\<close> is understood for all ports in
  1..65535 and every address without a colon, and leaves the other settings at their defaults.\<close>

theorem server_command_line:
  assumes "0 < p" and "p < 65536" and "0 < q" and "q < 65536"
    and "CHR '':'' \<notin> set addr" and "addr \<noteq> []" and "\<not> starts_dash addr"
  shows "parse_args [prog, ''-P'', show_nat p, ''--rtcp'', addr @ '':'' @ show_nat q] initial_globals =
    Parsed (initial_globals\<lparr>g_so := (g_so initial_globals)\<lparr>http_port := of_nat p\<rparr>,
      g_rip := Some addr, g_rport := of_nat q\<rparr>)"
  by (rule documented_line [OF assms])

theorem server_command_line_witness:
  "parse_args [''webstore'', ''-P'', show_nat 80, ''--rtcp'', ''127.0.0.1'' @ '':'' @ show_nat 6379] initial_globals =
     Parsed (initial_globals\<lparr>g_so := (g_so initial_globals)\<lparr>http_port := 80\<rparr>,
       g_rip := Some ''127.0.0.1'', g_rport := 6379\<rparr>)"
  using server_command_line [of 80 6379 "''127.0.0.1''" "''webstore''"] by (simp add: starts_dash_def)

theorem parse_args_guards_witness:
  "\<exists>g dest port. parse_args [''webstore'', ''-P'', show_nat 80, ''--rtcp'', ''127.0.0.1'' @ '':'' @ show_nat 6379] initial_globals = Parsed g \<and>
     start_server plain_redis sample_environment g (server_zero show_nat) =
       webstore_start plain_redis sample_environment ((g_so g)\<lparr>rdest := dest, rport := port\<rparr>) (server_zero show_nat)"
proof -
  let ?cmd = "[''webstore'', ''-P'', show_nat 80, ''--rtcp'', ''127.0.0.1'' @ '':'' @ show_nat 6379]"
  have "\<exists>g. parse_args ?cmd initial_globals = Parsed g"
    by (rule exI, rule documented_line) (simp_all add: starts_dash_def)
  then show ?thesis using parse_args_guards by blast
qed

section \<open>Requests over HTTP\<close>

lemma node_callback_store: "0 \<le> len \<Longrightarrow> len \<le> 255 \<Longrightarrow> node_callback (store_node api alg len)"
  by unfold_locales (rule store_node_answers)

lemma store_nodes_cases:
  assumes "(r, len, f) \<in> set (store_nodes api)"
  obtains i alg where "i < 7" and "r = all_roots ! i" and "f = store_node api alg len"
    and "0 < len" and "len \<le> 128" and "f = (nodecfg # map (\<lambda>(r, len, f). f) (store_nodes api)) ! i"
    and "length r = 11"
proof -
  have l: "length (store_nodes api) = 6" by (simp add: store_nodes_def)
  obtain j where j: "j < 6" "store_nodes api ! j = (r, len, f)"
    using assms unfolding in_set_conv_nth l by metis
  then consider "j = 0" | "j = 1" | "j = 2" | "j = 3" | "j = 4" | "j = 5" by linarith
  then show thesis
  proof cases
    case 1
    show thesis
      by (rule that [of 1 HASHALG128])
        (use j 1 in \<open>auto simp: all_roots_def store_nodes_def node_defs hash_codes\<close>)
  next
    case 2
    show thesis
      by (rule that [of 2 HASHALG160])
        (use j 2 in \<open>auto simp: all_roots_def store_nodes_def node_defs hash_codes\<close>)
  next
    case 3
    show thesis
      by (rule that [of 3 HASHALG224])
        (use j 3 in \<open>auto simp: all_roots_def store_nodes_def node_defs hash_codes\<close>)
  next
    case 4
    show thesis
      by (rule that [of 4 HASHALG256])
        (use j 4 in \<open>auto simp: all_roots_def store_nodes_def node_defs hash_codes\<close>)
  next
    case 5
    show thesis
      by (rule that [of 5 HASHALG384])
        (use j 5 in \<open>auto simp: all_roots_def store_nodes_def node_defs hash_codes\<close>)
  next
    case 6
    show thesis
      by (rule that [of 6 HASHALG512])
        (use j 6 in \<open>auto simp: all_roots_def store_nodes_def node_defs hash_codes\<close>)
  qed
qed

lemma store_nodes_len: "(r, len, f) \<in> set (store_nodes api) \<Longrightarrow> 0 < len \<and> len \<le> 128"
  by (rule store_nodes_cases) blast+

text \<open>A complete request for a stored object, as the client and libmicrohttpd deliver it.\<close>

definition complete_request :: "connection \<Rightarrow> string list \<Rightarrow> bool" where
  "complete_request con pieces \<longleftrightarrow>
     (case con_header con ''Content-Length'' of
        None \<Rightarrow> pieces = []
      | Some s \<Rightarrow> c_atol s = int (length (concat pieces))) \<and>
     (\<forall>piece \<in> set pieces. piece \<noteq> [])"

lemma complete_request_length:
  assumes "complete_request con pieces" and "length (concat pieces) < 2 ^ 63"
  shows "unat (content_length (admitted con u t)) = length (concat pieces)"
    and "\<forall>piece \<in> set pieces. piece \<noteq> [] \<and> length piece < 2 ^ 63"
proof -
  show "unat (content_length (admitted con u t)) = length (concat pieces)"
    using assms by (auto simp: complete_request_def unsigned_of_nat take_bit_nat_eq_self split: option.splits)
  have "length piece \<le> length (concat pieces)" if "piece \<in> set pieces" for piece
    using that by (induction pieces) auto
  then show "\<forall>piece \<in> set pieces. piece \<noteq> [] \<and> length piece < 2 ^ 63"
    using assms by (auto simp: complete_request_def intro: order_le_less_trans)
qed

definition gathered :: "connection \<Rightarrow> string \<Rightarrow> int \<Rightarrow> string list \<Rightarrow> srci" where
  "gathered con u t pieces = (admitted con u t)\<lparr>post_data := concat pieces,
     post_data_len := content_length (admitted con u t)\<rparr>"

lemma gathered_sel [simp]:
  "post_data (gathered con u t pieces) = concat pieces" "method_type (gathered con u t pieces) = t"
  by (simp_all add: gathered_def)

text \<open>It is the node of its root that answers, with exactly what the callback returned.\<close>

lemma http_store:
  fixes ws :: "'c instance_of_server"
  assumes "ready api ws" and "(r, len, store_node api alg len) \<in> set (store_nodes api)"
    and "int (length tok) = len" and "method_of m = Some t"
    and "complete_request con pieces" and "length (concat pieces) \<le> unat (max_content_length ws)"
    and "max_content_length ws < 2 ^ 63"
  shows "let sr = serve_request now ws con (r @ tok) m v pieces w;
             ans = store_node api alg len tok len (gathered con (r @ tok) t pieces) None w
         in queued sr = Some \<lparr>status = fst (reply_of ans), body = cstr (the (snd (reply_of ans))), headers = []\<rparr> \<and>
            world sr = state_of ans \<and> ready api (instance_of sr) \<and>
            max_content_length (instance_of sr) = max_content_length ws \<and> ret sr = con_queue con"
proof -
  obtain i alg' where i: "i < 7" "r = all_roots ! i" "0 < len" "len \<le> 128" "length r = 11"
      "store_node api alg len = (nodecfg # map (\<lambda>(r, len, f). f) (store_nodes api)) ! i"
    using store_nodes_cases [OF assms(2)] by metis
  have mx: "length (concat pieces) < 2 ^ 63"
    using assms(6,7) by (simp add: word_less_nat_alt)
  note len = complete_request_length [OF assms(5) mx]
  have m: "3 \<le> length m \<and> length m \<le> 7" using assms(4) by (auto simp: method_of_def split: if_splits)
  have "(word_of_int (c_atol s) :: u64) \<le> max_content_length ws"
    if "con_header con ''Content-Length'' = Some s" for s
    using that assms(5,6) mx
    by (simp add: complete_request_def word_le_nat_alt unsigned_of_nat take_bit_nat_eq_self)
  then have h: "request_headers ws con (r @ tok) m = (MHD_YES, admitted con (r @ tok) t)"
    using assms(1,3,4) i m by (auto simp: request_headers_YES ready_def)
  note node = ready_node [OF assms(1) i(1)]
  have find: "searest_node_find ws (r @ tok) = Some i" unfolding i(2) by (rule ready_find [OF assms(1) i(1)])
  have cb: "cb (nodelist_head ws ! i) = store_node api alg len" using node(5) i(6) by simp
  have "0 \<le> len" "len \<le> 255" using i by simp_all
  note served = node_callback.served [OF node_callback_store [OF this] h assms(7) len(2) len(1) [symmetric] find cb node(3),
      of now v w, unfolded node(2,4) i(2) [symmetric] i(5)]
  from served obtain ri' tl n ud where "ri' = gathered con (r @ tok) t pieces" "tl = tok" "n = len" "ud = None"
    and out: "queued (serve_request now ws con (r @ tok) m v pieces w) =
      Some \<lparr>status = return_code (fst (snd (store_node api alg len tl n ri' ud w))),
            body = cstr (the (fst (store_node api alg len tl n ri' ud w))), headers = []\<rparr>"
      "ret (serve_request now ws con (r @ tok) m v pieces w) = con_queue con"
      "instance_of (serve_request now ws con (r @ tok) m v pieces w) = searest_node_set_access now i ws"
      "world (serve_request now ws con (r @ tok) m v pieces w) = snd (snd (store_node api alg len tl n ri' ud w))"
    using assms(3) i(5) by (auto simp: gathered_def)
  then show ?thesis
    using assms(1) by (simp add: Let_def reply_of_def state_of_def)
      (simp add: searest_node_set_access_def update_node_def)
qed

lemma post_then_get_http:
  fixes ws :: "'c instance_of_server"
  assumes "redis_up api view" and "ready api ws" and "max_content_length ws < 2 ^ 63"
    and "online w" and "0 \<le> expiration (g_rt w)" and "\<not> shutting_down w"
    and "(r, len, store_node api alg len) \<in> set (store_nodes api)"
    and "valid_token len tok" and "map c_tolower tok' = map c_tolower tok"
    and "complete_request con pieces" and "length (concat pieces) \<le> unat (max_content_length ws)"
    and "complete_request con' []" and "valid_data (concat pieces)"
    and "\<not> (immutable (g_rt w) \<and> db view w (token_of tok) \<noteq> None)"
  shows "let posted = serve_request now ws con (r @ tok) ''POST'' v pieces w;
             fetched = serve_request now' (instance_of posted) con' (r @ tok') ''GET'' v' [] (world posted)
         in queued posted = Some \<lparr>status = 200, body = ''ok'', headers = []\<rparr> \<and>
            queued fetched = Some \<lparr>status = 200, body = concat pieces, headers = []\<rparr>"
proof -
  have meth: "method_of ''POST'' = Some METHOD_POST" "method_of ''GET'' = Some METHOD_GET"
    by (simp_all add: method_of_def)
  have tl: "int (length tok) = len" using assms(8) by (simp add: valid_token_def)
  have tl': "int (length tok') = len" using tl assms(9) by (metis length_map)
  have len: "len \<le> 255" using store_nodes_len [OF assms(7)] by simp
  have mx: "length (concat pieces) < 2 ^ 63" using assms(3,11) by (simp add: word_less_nat_alt)
  have req: "node_request tok len (gathered con (r @ tok) METHOD_POST pieces)"
    using complete_request_length(1) [OF assms(10) mx] tl by (simp add: node_request_def gathered_def)
  have req': "node_request tok' len (gathered con' (r @ tok') METHOD_GET [])"
    using complete_request_length(1) [OF assms(12)] tl' by (simp add: node_request_def gathered_def)
  define posted where "posted = serve_request now ws con (r @ tok) ''POST'' v pieces w"
  define ans where "ans = store_node api alg len tok len (gathered con (r @ tok) METHOD_POST pieces) None w"
  define fetched where "fetched = serve_request now' (instance_of posted) con' (r @ tok') ''GET'' v' [] (world posted)"
  have p: "queued posted = Some \<lparr>status = fst (reply_of ans), body = cstr (the (snd (reply_of ans))), headers = []\<rparr>"
    "world posted = state_of ans" "ready api (instance_of posted)"
    "max_content_length (instance_of posted) = max_content_length ws"
    using http_store [OF assms(2,7) tl meth(1) assms(10,11,3), of now v w]
    by (simp_all add: Let_def posted_def ans_def)
  have f: "queued fetched = Some \<lparr>status = fst (reply_of fans), body = cstr (the (snd (reply_of fans))), headers = []\<rparr>"
    if "fans = store_node api alg len tok' len (gathered con' (r @ tok') METHOD_GET []) None (state_of ans)" for fans
    using http_store [OF p(3) assms(7) tl' meth(2) assms(12), of now' v' "world posted"] assms(3) p(2,4)
    unfolding fetched_def that by (simp add: Let_def)
  have "reply_of ans = (200, Some ''ok'') \<and>
     reply_of (store_node api alg len tok' len (gathered con' (r @ tok') METHOD_GET []) None (state_of ans)) =
       (200, Some (concat pieces))"
    using stored_is_fetched [OF assms(1,4,5,6), of tok "gathered con (r @ tok) METHOD_POST pieces" len tok'
        "gathered con' (r @ tok') METHOD_GET []" alg None] req req' tl tl' len assms(8,9,13,14)
    by (simp add: Let_def ans_def)
  moreover have "cstr (concat pieces) = concat pieces" using assms(13) by (intro cstr_no_nul) simp
  moreover have "cstr ''ok'' = ''ok''" by (simp add: cstr_def)
  ultimately show ?thesis
    using p(1) f [OF refl]
    unfolding posted_def [symmetric] fetched_def [symmetric] Let_def by (simp del: concat.simps)
qed

text \<open>A body longer than the upload limit: libmicrohttpd is told to close the connection.\<close>

lemma http_too_long:
  assumes "complete_request con pieces" and "length (concat pieces) < 2 ^ 63"
    and "unat (max_content_length ws) < length (concat pieces)"
  shows "let sr = serve_request now ws con u m v pieces w
         in ret sr = MHD_NO \<and> queued sr = None \<and> world sr = w \<and> instance_of sr = ws"
proof -
  obtain s where s: "con_header con ''Content-Length'' = Some s" "c_atol s = int (length (concat pieces))"
    using assms(1,3) by (auto simp: complete_request_def split: option.splits)
  have "unat (word_of_int (c_atol s) :: u64) = length (concat pieces)"
    using assms(2) unfolding s(2) by (simp add: unsigned_of_nat take_bit_nat_eq_self)
  then have "max_content_length ws < (word_of_int (c_atol s) :: u64)"
    using assms(3) by (simp add: word_less_nat_alt)
  then have "fst (request_headers ws con u m) = MHD_NO"
    using s(1) by (simp add: request_headers_def Let_def)
  then show ?thesis
    by (cases "request_headers ws con u m") (simp add: serve_request_def uhd_request_started_def Let_def)
qed

text \<open>An immutable server with the token in use keeps the value it has.\<close>

lemma post_immutable_http:
  fixes ws :: "'c instance_of_server"
  assumes "redis_up api view" and "ready api ws" and "max_content_length ws < 2 ^ 63"
    and "online w" and "0 \<le> expiration (g_rt w)" and "\<not> shutting_down w"
    and "(r, len, store_node api alg len) \<in> set (store_nodes api)"
    and "valid_token len tok" and "map c_tolower tok' = map c_tolower tok"
    and "complete_request con pieces" and "length (concat pieces) \<le> unat (max_content_length ws)"
    and "complete_request con' []" and "valid_data (concat pieces)"
    and "immutable (g_rt w)" and "db view w (token_of tok) = Some old"
  shows "let posted = serve_request now ws con (r @ tok) ''POST'' v pieces w;
             fetched = serve_request now' (instance_of posted) con' (r @ tok') ''GET'' v' [] (world posted)
         in queued posted = Some \<lparr>status = 304, body = ''object immutable - not modified'', headers = []\<rparr> \<and>
            db view (world posted) = db view w \<and>
            queued fetched = Some \<lparr>status = 200, body = cstr old, headers = []\<rparr>"
proof -
  have meth: "method_of ''POST'' = Some METHOD_POST" "method_of ''GET'' = Some METHOD_GET"
    by (simp_all add: method_of_def)
  have tl: "int (length tok) = len" using assms(8) by (simp add: valid_token_def)
  have tl': "int (length tok') = len" using tl assms(9) by (metis length_map)
  have len: "len \<le> 255" using store_nodes_len [OF assms(7)] by simp
  have mx: "length (concat pieces) < 2 ^ 63" using assms(3,11) by (simp add: word_less_nat_alt)
  have req: "node_request tok len (gathered con (r @ tok) METHOD_POST pieces)"
    using complete_request_length(1) [OF assms(10) mx] tl by (simp add: node_request_def gathered_def)
  have req': "node_request tok' len (gathered con' (r @ tok') METHOD_GET [])"
    using complete_request_length(1) [OF assms(12)] tl' by (simp add: node_request_def gathered_def)
  have t: "token_of tok' = token_of tok" using assms(9) by (simp add: token_of_def)
  have v': "valid_token len tok'"
  proof -
    have "c_isxdigit x" if "x \<in> set tok'" for x
    proof -
      have "c_tolower x \<in> c_tolower ` set tok" using that assms(9) by (metis imageI list.set_map)
      then show ?thesis using assms(8) by (auto simp: valid_token_def) (metis tolower_xdigit)
    qed
    then show ?thesis using tl' by (simp add: valid_token_def)
  qed
  define posted where "posted = serve_request now ws con (r @ tok) ''POST'' v pieces w"
  define ans where "ans = store_node api alg len tok len (gathered con (r @ tok) METHOD_POST pieces) None w"
  have p: "queued posted = Some \<lparr>status = fst (reply_of ans), body = cstr (the (snd (reply_of ans))), headers = []\<rparr>"
    "world posted = state_of ans" "ready api (instance_of posted)"
    "max_content_length (instance_of posted) = max_content_length ws"
    using http_store [OF assms(2,7) tl meth(1) assms(10,11,3), of now v w]
    by (simp_all add: Let_def posted_def ans_def)
  have up: "reply_of ans = (304, Some ''object immutable - not modified'')" "db view (state_of ans) = db view w"
      "\<not> shutting_down (state_of ans)"
    using store_node_post_up [OF assms(1,4,5,6) req _ len assms(8), of alg None] assms(6,13-15)
    by (simp_all add: ans_def)
  have q: "online (state_of ans)"
    using store_node_quiet [of w api alg len tok len "gathered con (r @ tok) METHOD_POST pieces" None] assms(4)
    by (simp add: quiet_def ans_def)
  define fetched where "fetched = serve_request now' (instance_of posted) con' (r @ tok') ''GET'' v' [] (world posted)"
  define fans where "fans = store_node api alg len tok' len (gathered con' (r @ tok') METHOD_GET []) None (state_of ans)"
  have f: "queued fetched = Some \<lparr>status = fst (reply_of fans), body = cstr (the (snd (reply_of fans))), headers = []\<rparr>"
    using http_store [OF p(3) assms(7) tl' meth(2) assms(12), of now' v' "world posted"] assms(3) p(2,4)
    unfolding fetched_def fans_def by (simp add: Let_def)
  have "reply_of fans = (200, Some (cstr old))"
    using store_node_get_up(1) [OF assms(1) q up(3) req' _ len v', of alg None] assms(15)
    by (simp add: fans_def t up(2))
  moreover have "cstr (cstr old) = cstr old" by (simp add: cstr_def takeWhile_idem)
  moreover have "cstr ''object immutable - not modified'' = ''object immutable - not modified''" by (simp add: cstr_def)
  ultimately show ?thesis
    using p(1,2) up f unfolding posted_def [symmetric] fetched_def [symmetric] Let_def by simp
qed

text \<open>C2: end to end, over a redis that is up, on a server that is set up and not shutting down. A POST of a
  valid token with a valid body, cut into whatever pieces, to one of the six storage URLs ends as the
  settings of the server demand: the connection is closed and nothing is stored when the body is longer
  than the upload limit; 304 is answered and nothing is stored when the server is immutable and the
  token is in use, and a GET of that URL then still answers 200 with the old value; otherwise 200 is
  answered, and a GET of that URL in either letter case answers 200 with the body as posted.\<close>

theorem post_then_get_over_http:
  fixes ws :: "'c instance_of_server"
  assumes "redis_up api view" and "ready api ws" and "max_content_length ws < 2 ^ 63"
    and "online w" and "0 \<le> expiration (g_rt w)" and "\<not> shutting_down w"
    and "(r, len, store_node api alg len) \<in> set (store_nodes api)"
    and "valid_token len tok" and "map c_tolower tok' = map c_tolower tok"
    and "complete_request con pieces" and "length (concat pieces) < 2 ^ 63"
    and "complete_request con' []" and "valid_data (concat pieces)"
  shows "let posted = serve_request now ws con (r @ tok) ''POST'' v pieces w;
             fetched = serve_request now' (instance_of posted) con' (r @ tok') ''GET'' v' [] (world posted)
         in if unat (max_content_length ws) < length (concat pieces)
            then ret posted = MHD_NO \<and> queued posted = None \<and> world posted = w
            else case (immutable (g_rt w), db view w (token_of tok)) of
              (True, Some old) \<Rightarrow>
                queued posted = Some \<lparr>status = 304, body = ''object immutable - not modified'', headers = []\<rparr> \<and>
                db view (world posted) = db view w \<and>
                queued fetched = Some \<lparr>status = 200, body = cstr old, headers = []\<rparr>
            | _ \<Rightarrow>
                queued posted = Some \<lparr>status = 200, body = ''ok'', headers = []\<rparr> \<and>
                queued fetched = Some \<lparr>status = 200, body = concat pieces, headers = []\<rparr>"
proof (cases "unat (max_content_length ws) < length (concat pieces)")
  case True
  then show ?thesis using http_too_long [OF assms(10,11) True, of now "r @ tok" "''POST''" v w] by (simp add: Let_def)
next
  case False
  then have fits: "length (concat pieces) \<le> unat (max_content_length ws)" by simp
  show ?thesis
  proof (cases "immutable (g_rt w) \<and> db view w (token_of tok) \<noteq> None")
    case True
    then obtain old where "immutable (g_rt w)" "db view w (token_of tok) = Some old" by blast
    then show ?thesis
      using post_immutable_http [OF assms(1-10) fits assms(12,13), of old now v now' v'] False by (simp add: Let_def)
  next
    case free: False
    show ?thesis
      using post_then_get_http [OF assms(1-10) fits assms(12,13) free, of now v now' v'] False free
      by (auto simp: Let_def simp del: concat.simps split: option.split bool.split)
  qed
qed

definition sample_token :: string where
  "sample_token = replicate 32 (CHR ''A'')"

lemma c_tolower_A: "c_tolower (CHR ''A'') = CHR ''a''" "c_tolower (CHR ''a'') = CHR ''a''"
  by (simp_all add: c_tolower_def c_isupper_def char_of_def bit_0 bit_numeral_rec)

lemma sample_ready:
  "ready plain_redis (add_nodes plain_redis (searest_new 11 139 1000))"
  "max_content_length (add_nodes plain_redis (searest_new 11 139 1000)) = 1000"
  by (rule add_nodes_ready) (simp add: add_nodes_def node_add_Some searest_new_def Let_def)

theorem post_then_get_over_http_witness:
  "let posted = serve_request 0 (add_nodes plain_redis (searest_new 11 139 1000)) (sample_connection (show_nat 5))
         (''/store/128/'' @ sample_token) ''POST'' ''1.1'' [''00'', ''000''] (sample_server True True);
       fetched = serve_request 1 (instance_of posted) (sample_connection ''0'')
         (''/store/128/'' @ replicate 32 (CHR ''a'')) ''GET'' ''1.1'' [] (world posted)
   in queued posted = Some \<lparr>status = 200, body = ''ok'', headers = []\<rparr> \<and>
      queued fetched = Some \<lparr>status = 200, body = ''00000'', headers = []\<rparr>"
proof -
  have m: "(''/store/128/'', 32, store_node plain_redis 1 32) \<in> set (store_nodes plain_redis)"
    by (simp add: store_nodes_def node_defs hash_codes)
  have t: "valid_token 32 sample_token" "map c_tolower (replicate 32 (CHR ''a'')) = map c_tolower sample_token"
    by (simp_all add: valid_token_def sample_token_def c_isxdigit_def c_isdigit_def c_tolower_A)
  have r: "complete_request (sample_connection (show_nat 5)) [''00'', ''000'']"
    using strtol10_show_nat [of 5] by (simp add: complete_request_def sample_connection_def c_atol_def LONG_MAX_def)
  have "c_atol ''0'' = 0"
    using strtol10_show_nat [of 0] by (simp add: c_atol_def LONG_MAX_def show_nat.simps digit_char_def
        char_of_def bit_0 bit_numeral_rec)
  then have r': "complete_request (sample_connection ''0'') []"
    by (simp add: complete_request_def sample_connection_def)
  show ?thesis
    using post_then_get_over_http [OF plain_redis_up sample_ready(1) _ _ _ _ m t r _ r', of "sample_server True True" 0 "''1.1''" 1 "''1.1''"]
    by (simp add: sample_ready(2) shutting_down_def sample_valid(3))
qed

end
