(* ===== verification/WS_Run.thy ===== *)
theory WS_Run
  imports WS_Server
begin

text \<open>
  The running server as a state machine. A state is the instance with the server behind it; a step
  is a whole request, a new connection, a signal, or (when allowed) the expiry of keys in redis.
  The invariants: what the store can ever contain, and what an immutable server never loses.
\<close>

section \<open>Effects of the operations on the database\<close>

lemma store_node_effect:
  assumes "redis_contract api view" and "online w" and "0 \<le> expiration (g_rt w)"
    and "node_request u n ri" and "len \<le> 255"
  shows "let d = db view w; d' = db view (state_of (store_node api alg len u n ri ud w)) in
    d' = d \<or>
    valid_token len u \<and> valid_data (post_data ri) \<and> (immutable (g_rt w) \<longrightarrow> d (token_of u) = None) \<and>
      d' = d(token_of u \<mapsto> post_data ri) \<or>
    valid_token len u \<and> bar (g_rt w) \<and> d' = d(token_of u := None)"
proof -
  let ?rec = "\<lparr>req_type = alg, hashlen = len, req_url = u, req_urllen = n\<rparr>"
  have g: "let d' = db view (snd (snd (get api ?rec ri w))) in
      d' = db view w \<or> valid_token len u \<and> bar (g_rt w) \<and> d' = (db view w)(token_of u := None)"
  proof (cases "valid_token len u")
    case False
    then show ?thesis by (simp add: get_eq [OF assms(4,5)])
  next
    case True
    obtain err p w2 where d: "get_locked api (token_of u) w = (err, p, w2)" by (metis prod_cases3)
    from get_locked_contract(3,4) [OF assms(1,2) d]
    have "db view w2 = db view w \<or> bar (g_rt w) \<and> db view w2 = (db view w)(token_of u := None)"
      by (cases p) (auto split: if_splits)
    then show ?thesis
      using True by (cases p) (auto simp: get_eq [OF assms(4,5)] d Let_def)
  qed
  have p: "let d' = db view (snd (snd (post api ?rec ri w))) in
      d' = db view w \<or> valid_token len u \<and> valid_data (post_data ri) \<and>
        (immutable (g_rt w) \<longrightarrow> db view w (token_of u) = None) \<and> d' = (db view w)(token_of u \<mapsto> post_data ri)"
  proof (cases "valid_token len u \<and> valid_data (post_data ri)")
    case False
    then show ?thesis by (subst post_eq [OF assms(4,5)]) (simp only: if_False False snd_conv Let_def simp_thms)
  next
    case True
    obtain z w2 where d: "do_redis_post api (token_of u) (post_data ri) (post_data_len ri) w = (z, w2)"
      by fastforce
    have c: "cstr (take (unat (post_data_len ri)) (post_data ri)) = post_data ri"
      using True assms(4) by (simp add: node_request_def)
    have "z \<in> {0, 304, 417, 500, 503}"
      using do_redis_post_code [of api "token_of u" "post_data ri" "post_data_len ri" w] d by simp
    then have "db view w2 = db view w \<or> (immutable (g_rt w) \<longrightarrow> db view w (token_of u) = None) \<and>
        db view w2 = (db view w)(token_of u \<mapsto> post_data ri)"
      using do_redis_post_contract [OF assms(1,2,3) d, unfolded c] by blast
    then show ?thesis
      using True by (simp add: post_eq [OF assms(4,5)] d Let_def)
  qed
  show ?thesis
    using g p
    by (auto simp: store_node_def state_of_def shutdownmsg_def not_allowed_def Let_def)
qed

lemma nodecfg_db [simp]: "db view (state_of (nodecfg u n ri ud w)) = db view w"
  by (simp add: nodecfg_def state_of_def shutdownmsg_def not_allowed_def Let_def)

lemma save_ip_effect:
  assumes "redis_contract api view" and "online w" and "0 < p"
  shows "\<exists>v. db view (save_ip api addr found p w) \<in> {db view w, (db view w)(ip_key addr \<mapsto> v)}"
proof -
  let ?argv = "if \<not> found then [''SET'', ip_key addr, ''1'', ''EX'', show_int p] else [''INCR'', ip_key addr]"
  obtain reply w' where c: "redis_cmd api ?argv w = (reply, w')" by fastforce
  have sup: "supported ?argv" using assms(3) by simp
  have "\<exists>v. snd (redis_do (db view w) ?argv) \<in> {db view w, (db view w)(ip_key addr \<mapsto> v)}"
    by (auto split: option.split)
  moreover have "db view w' \<in> {db view w, snd (redis_do (db view w) ?argv)}"
    using redis_cmd_contract [OF assms(1) sup assms(2) c] by blast
  moreover have "db view (save_ip api addr found p w) = db view w'"
    using c by (simp add: save_ip_def Let_def if_distrib [of "\<lambda>argv. redis_cmd api argv w"] split: option.split)
  ultimately show ?thesis by auto
qed

lemma check_ip_effect:
  assumes "redis_contract api view" and "online w" and "0 < reqperiod (g_rt w)"
  shows "\<exists>v. db view (snd (check_ip api addr w)) \<in> {db view w, (db view w)(ip_key addr \<mapsto> v)}"
proof -
  obtain reply w1 where g: "redis_cmd api [''GET'', ip_key addr] w = (reply, w1)" by fastforce
  have w1: "w1 = snd (redis_cmd api [''GET'', ip_key addr] w)" by (simp add: g)
  have k: "online w1" "settings w1 = settings w" using assms(2) by (simp_all add: w1)
  have d: "db view w1 = db view w"
    using redis_cmd_contract [OF assms(1) _ assms(2) g] by auto
  have p: "0 < reqperiod (g_rt w1)" using settings_eq [OF k(2)] assms(3) by simp
  have s: "\<exists>v. db view (save_ip api addr found (reqperiod (g_rt w1)) (add_log l msg w1)) \<in>
      {db view w, (db view w)(ip_key addr \<mapsto> v)}" for found l msg
    using save_ip_effect [OF assms(1) _ p, of "add_log l msg w1"] k d by simp
  show ?thesis
    using s d by (auto simp: check_ip_def g Let_def split: option.split redisReply.split)
qed

lemma ws_addr_check_effect:
  assumes "redis_contract api view" and "online w" and "0 < reqperiod (g_rt w)"
  shows "\<exists>v. db view (snd (ws_addr_check api addr w)) \<in> {db view w, (db view w)(ip_key addr \<mapsto> v)}"
proof -
  have "0 < reqperiod (g_rt (lock_if w))" using settings_eq [of "lock_if w" w] assms(3) by simp
  from check_ip_effect [OF assms(1) _ this, of addr] assms(2) show ?thesis
    by (simp add: ws_addr_check_def allow_ip_def Let_def split_beta)
qed

lemma ws_addr_check_quiet: "quiet w (snd (ws_addr_check api addr w))"
proof -
  have sh: "g_shutdown w' \<Longrightarrow> g_shutdown (snd (check_ip api addr w'))" for w' :: "'a server"
    by (auto simp: check_ip_def save_ip_def Let_def split_beta
        intro: handle_redis_error_shutdown split: option.split redisReply.split)
  obtain z w1 where c: "check_ip api addr (lock_if w) = (z, w1)" by fastforce
  have k: "online w1 = online w" "settings w1 = settings w" "rl (rc (g_rt w1)) = rl (rc (g_rt (lock_if w)))"
    "g_shutdown w \<Longrightarrow> g_shutdown w1"
    using check_ip_keeps [of api addr "lock_if w"] sh [of "lock_if w"] by (simp_all add: c)
  have "multithreaded (g_rt w1) = multithreaded (g_rt w)" using settings_eq [OF k(2)] by simp
  then have "quiet w (unlock_if w1)"
    using k by (auto simp: quiet_def rl_unlock_if rl_lock_if)
  then show ?thesis by (simp add: ws_addr_check_def allow_ip_def c)
qed

section \<open>Effects of a request\<close>

lemma mhd_cases:
  "uhd_client_connect ws a w = (v, w') \<Longrightarrow> w' = w \<or> (\<exists>acb text. addr_cb ws = Some acb \<and> w' = snd (acb text w))"
  by (auto simp: uhd_client_connect_def split: option.splits prod.splits if_splits) (metis snd_conv)

text \<open>A request changes the state only through the callback of the node it is routed to.\<close>

definition node_answer :: "'c hiredis \<Rightarrow> 'c server \<Rightarrow> 'c server \<Rightarrow> bool" where
  "node_answer api w w' \<longleftrightarrow> w' = w \<or>
     (\<exists>t n ri ud. w' = state_of (nodecfg t n ri ud w)) \<or>
     (\<exists>r len alg t ri ud. (r, len, store_node api alg len) \<in> set (store_nodes api) \<and>
        node_request t (int (length t)) ri \<and> w' = state_of (store_node api alg len t (int (length t)) ri ud w))"

lemma set_access_keeps [simp]:
  "max_content_length (searest_node_set_access now i ws) = max_content_length ws"
  "addr_cb (searest_node_set_access now i ws) = addr_cb ws"
  by (simp_all add: searest_node_set_access_def update_node_def)

lemma serve_request_answer:
  assumes "ready api ws" and "max_content_length ws < 2 ^ 63"
    and "\<forall>piece \<in> set pieces. piece \<noteq> [] \<and> length piece < 2 ^ 63"
  shows "let sr = serve_request now ws con u m v pieces w in
    node_answer api w (world sr) \<and> ready api (instance_of sr) \<and>
    max_content_length (instance_of sr) = max_content_length ws \<and> addr_cb (instance_of sr) = addr_cb ws"
proof (cases "fst (request_headers ws con u m) = MHD_YES")
  case False
  then have "world (serve_request now ws con u m v pieces w) = w \<and> instance_of (serve_request now ws con u m v pieces w) = ws"
    by (cases "request_headers ws con u m"; cases "fst (request_headers ws con u m)")
      (simp_all add: serve_request_def uhd_request_started_def Let_def)
  then show ?thesis using assms(1) by (simp add: node_answer_def)
next
  case True
  then obtain ri where h: "request_headers ws con u m = (MHD_YES, ri)" by (metis prod.collapse)
  then have adm: "url ri = u" "urllen ri = int (length u)" "content_type ri = None" "allow ri = None" "\<not> cors ri"
    by (auto simp: request_headers_YES)
  let ?sr = "serve_request now ws con u m v pieces w"
  let ?ri = "ri\<lparr>post_data := concat pieces, post_data_len := content_length ri\<rparr>"
  note whole = serve_request_pieces [OF h assms(2,3), of now v w]
  show ?thesis
  proof (cases "length (concat pieces) = unat (content_length ri)")
    case False
    then show ?thesis using whole assms(1) by (simp add: Let_def node_answer_def)
  next
    case len: True
    show ?thesis
    proof (cases "searest_node_find ws u")
      case None
      then have "world ?sr = w \<and> instance_of ?sr = ws"
        using whole len adm by (simp add: uhd_request_started_def process_request_def Let_def)
      then show ?thesis using assms(1) by (simp add: node_answer_def)
    next
      case (Some i)
      then have i: "i < 7" "prefix (all_roots ! i) u"
        using nodes.lookup_iff [of ws u i] ready_roots [OF assms(1)] by (simp_all add: all_roots_def)
      note node = ready_node [OF assms(1) i(1)]
      let ?t = "drop (length (root (nodelist_head ws ! i))) u"
      have "length (root (nodelist_head ws ! i)) \<le> length u"
        using i(2) node(2) by (simp add: prefix_length_le)
      then have n: "int (length u) - int (length (root (nodelist_head ws ! i))) = int (length ?t)" by simp
      have req: "node_request ?t (int (length ?t)) ?ri" using len by (simp add: node_request_def)
      have out: "world ?sr = state_of (cb (nodelist_head ws ! i) ?t (int (length ?t)) ?ri None w) \<and>
          instance_of ?sr = searest_node_set_access now i ws"
        if "node_callback (cb (nodelist_head ws ! i))"
        using node_callback.served [OF that h assms(2,3) len Some refl node(3), of now v w]
        by (elim exE conjE) (simp only: state_of_def node(4) n simp_thms)
      have "node_callback (cb (nodelist_head ws ! i)) \<and>
          node_answer api w (state_of (cb (nodelist_head ws ! i) ?t (int (length ?t)) ?ri None w))"
      proof (cases "i = 0")
        case True
        then have "cb (nodelist_head ws ! i) = nodecfg" using node(5) by simp
        then show ?thesis using cfg.node_callback_axioms by (auto simp: node_answer_def)
      next
        case False
        then obtain j where j: "i = Suc j" "j < length (store_nodes api)"
          using i(1) by (cases i) (auto simp: store_nodes_def)
        obtain r len f where s: "store_nodes api ! j = (r, len, f)" by (metis prod_cases3)
        then have m: "(r, len, f) \<in> set (store_nodes api)" using j(2) nth_mem by metis
        obtain alg where f: "f = store_node api alg len" "0 < len" "len \<le> 128"
          using store_nodes_cases [OF m] by metis
        have c: "cb (nodelist_head ws ! i) = store_node api alg len"
          using node(5) s j f(1) by simp
        show ?thesis
        proof
          show "node_callback (cb (nodelist_head ws ! i))"
            unfolding c by (rule node_callback_store) (use f in simp_all)
          show "node_answer api w (state_of (cb (nodelist_head ws ! i) ?t (int (length ?t)) ?ri None w))"
            using m req unfolding c f(1) node_answer_def by blast
        qed
      qed
      with out show ?thesis
        using assms(1) by (simp add: Let_def)
    qed
  qed
qed

section \<open>The state machine\<close>

text \<open>\<open>expiry\<close> tells whether keys may expire: redis then keeps some of the live keys, unchanged.\<close>

inductive server_step ::
    "'c hiredis \<Rightarrow> ('c \<Rightarrow> string \<rightharpoonup> string) \<Rightarrow> bool \<Rightarrow>
     'c instance_of_server \<times> 'c server \<Rightarrow> 'c instance_of_server \<times> 'c server \<Rightarrow> bool"
  for api :: "'c hiredis" and view :: "'c \<Rightarrow> string \<rightharpoonup> string" and expiry :: bool where
  request: "\<forall>piece \<in> set pieces. piece \<noteq> [] \<and> length piece < 2 ^ 63 \<Longrightarrow>
    r = serve_request now ws con u m v pieces w \<Longrightarrow>
    server_step api view expiry (ws, w) (instance_of r, world r)"
| connect: "uhd_client_connect ws addr w = (verdict, w') \<Longrightarrow> server_step api view expiry (ws, w) (ws, w')"
| signal: "server_step api view expiry (ws, w) (ws, sig_handler s w)"
| expire: "expiry \<Longrightarrow> ctx (rc (g_rt w)) = Some c \<Longrightarrow> view c' \<subseteq>\<^sub>m view c \<Longrightarrow>
    server_step api view expiry (ws, w) (ws, upd_rc (\<lambda>r. r\<lparr>ctx := Some c'\<rparr>) w)"

inductive_cases server_stepE: "server_step api view expiry s s'"

text \<open>A token under which something may be stored: lower-case hexadecimal of one of the six lengths.\<close>

definition stored_token :: "string \<Rightarrow> bool" where
  "stored_token k \<longleftrightarrow> length k \<in> {32, 40, 56, 64, 96, 128} \<and>
     (\<forall>x \<in> set k. c_isxdigit x \<and> \<not> c_isupper x)"

definition store_ok :: "(string \<rightharpoonup> string) \<Rightarrow> bool" where
  "store_ok d \<longleftrightarrow> (\<forall>k v. d k = Some v \<longrightarrow> (\<exists>a. k = ip_key a) \<or> stored_token k \<and> valid_data v)"

definition server_inv :: "'c hiredis \<Rightarrow> ('c \<Rightarrow> string \<rightharpoonup> string) \<Rightarrow> 'c instance_of_server \<times> 'c server \<Rightarrow> bool" where
  "server_inv api view = (\<lambda>(ws, w). ready api ws \<and> max_content_length ws < 2 ^ 63 \<and> online w \<and>
     \<not> rl (rc (g_rt w)) \<and> 0 \<le> expiration (g_rt w) \<and>
     (addr_cb ws = None \<or> addr_cb ws = Some (ws_addr_check api) \<and> 0 < reqperiod (g_rt w)) \<and>
     store_ok (db view w))"

lemma token_not_ip: "stored_token k \<Longrightarrow> k \<noteq> ip_key a"
proof
  assume "stored_token k" "k = ip_key a"
  then have "c_isxdigit (CHR ''I'')" by (auto simp: stored_token_def ip_key_def)
  then show False by (simp add: c_isxdigit_def c_isdigit_def)
qed

lemma valid_token_stored:
  assumes "(r, len, f) \<in> set (store_nodes api)" and "valid_token len u"
  shows "stored_token (token_of u)"
proof -
  have "len \<in> {32, 40, 56, 64, 96, 128}"
  proof -
    have "map (\<lambda>(r, len, f). len) (store_nodes api) = [32, 40, 56, 64, 96, 128]"
      by (simp add: store_nodes_def hash_codes)
    moreover have "len \<in> set (map (\<lambda>(r, len, f). len) (store_nodes api))" using assms(1) by force
    ultimately show ?thesis by simp
  qed
  then show ?thesis using assms(2) by (auto simp: stored_token_def valid_token_def token_of_def)
qed

text \<open>What one step may do to the database.\<close>

definition step_effect :: "'c server \<Rightarrow> (string \<rightharpoonup> string) \<Rightarrow> (string \<rightharpoonup> string) \<Rightarrow> bool" where
  "step_effect w d d' \<longleftrightarrow> d' = d \<or>
     (\<exists>k v. stored_token k \<and> valid_data v \<and> (immutable (g_rt w) \<longrightarrow> d k = None) \<and> d' = d(k \<mapsto> v)) \<or>
     (\<exists>k. stored_token k \<and> bar (g_rt w) \<and> d' = d(k := None)) \<or>
     (\<exists>a v. d' = d(ip_key a \<mapsto> v))"

lemma node_answer_effect:
  assumes "redis_contract api view" and "online w" and "0 \<le> expiration (g_rt w)" and "node_answer api w w'"
  shows "step_effect w (db view w) (db view w') \<and> quiet w w'"
  using assms(4) unfolding node_answer_def
proof (elim disjE exE conjE)
  fix r len alg t ri ud
  assume m: "(r, len, store_node api alg len) \<in> set (store_nodes api)"
    and req: "node_request t (int (length t)) ri"
    and w': "w' = state_of (store_node api alg len t (int (length t)) ri ud w)"
  have "len \<le> 255" using store_nodes_len [OF m] by simp
  from store_node_effect [OF assms(1-3) req this, of alg ud] valid_token_stored [OF m, of t]
  show ?thesis unfolding w' step_effect_def Let_def using store_node_quiet by metis
qed (simp_all add: step_effect_def nodecfg_quiet)

lemma step_effect_ok: "step_effect w d d' \<Longrightarrow> store_ok d \<Longrightarrow> store_ok d'"
  unfolding step_effect_def store_ok_def by (elim disjE exE conjE) (auto split: if_splits)

lemma quiet_inv:
  assumes "server_inv api view (ws, w)" and "quiet w w'" and "ready api ws'"
    and "max_content_length ws' = max_content_length ws" and "addr_cb ws' = addr_cb ws" and "store_ok (db view w')"
  shows "server_inv api view (ws', w')"
  using assms settings_eq [of w' w] by (auto simp: server_inv_def quiet_def)

lemma sig_handler_quiet: "quiet w (sig_handler s w)" "db view (sig_handler s w) = db view w"
  by (cases s; simp add: sig_handler_def quiet_def online_def settings_def db_def)+

text \<open>One step keeps the invariant and the settings, and has one of the listed effects; only the
  expiry of keys takes other keys away.\<close>

lemma server_step_inv:
  assumes "redis_contract api view" and "server_step api view expiry s s'" and "server_inv api view s"
  shows "server_inv api view s' \<and> settings (snd s') = settings (snd s) \<and>
    (step_effect (snd s) (db view (snd s)) (db view (snd s')) \<or>
     expiry \<and> db view (snd s') \<subseteq>\<^sub>m db view (snd s))"
  using assms(2)
proof cases
  case (request pieces r now ws con u m v w)
  have i: "ready api ws" "max_content_length ws < 2 ^ 63" "online w" "0 \<le> expiration (g_rt w)" "store_ok (db view w)"
    using assms(3) request(1) by (simp_all add: server_inv_def)
  have ans: "node_answer api w (world r)" "ready api (instance_of r)"
    "max_content_length (instance_of r) = max_content_length ws" "addr_cb (instance_of r) = addr_cb ws"
    using serve_request_answer [OF i(1,2) request(3), of now con u m v w] request(4)
    by (simp_all add: Let_def)
  note eff = node_answer_effect [OF assms(1) i(3,4) ans(1)]
  have "server_inv api view (instance_of r, world r)"
    using quiet_inv [OF assms(3) [unfolded request(1)] eff [THEN conjunct2] ans(2,3,4)
        step_effect_ok [OF eff [THEN conjunct1] i(5)]] .
  then show ?thesis using eff request(1,2) by (simp add: quiet_def)
next
  case (connect ws addr w verdict w')
  have i: "ready api ws" "online w" "store_ok (db view w)" "addr_cb ws = None \<or> addr_cb ws = Some (ws_addr_check api) \<and> 0 < reqperiod (g_rt w)"
    using assms(3) connect(1) by (auto simp: server_inv_def)
  have "quiet w w' \<and> step_effect w (db view w) (db view w')"
  proof (cases "w' = w")
    case True
    then show ?thesis by (simp add: step_effect_def)
  next
    case False
    then obtain a where t: "w' = snd (ws_addr_check api a w)" "0 < reqperiod (g_rt w)"
      using mhd_cases [OF connect(3)] i(4) by auto
    from ws_addr_check_effect [OF assms(1) i(2) t(2), of a] ws_addr_check_quiet [of w api a]
    show ?thesis unfolding t(1) step_effect_def by blast
  qed
  then have q: "quiet w w'" "step_effect w (db view w) (db view w')" by blast+
  have "server_inv api view (ws, w')"
    using quiet_inv [OF assms(3) [unfolded connect(1)] q(1) i(1) refl refl step_effect_ok [OF q(2) i(3)]] .
  then show ?thesis using q connect(1,2) by (simp add: quiet_def)
next
  case (signal ws w sg)
  have "step_effect w (db view w) (db view (sig_handler sg w))"
    by (simp add: step_effect_def sig_handler_quiet)
  moreover have "server_inv api view (ws, sig_handler sg w)"
    by (rule quiet_inv [of api view ws w])
      (use assms(3) signal(1) in \<open>auto simp: server_inv_def sig_handler_quiet\<close>)
  ultimately show ?thesis using signal(1,2) sig_handler_quiet(1) [of w sg] by (simp add: quiet_def)
next
  case (expire w c c' ws)
  have d: "db view w = view c" using expire(4) by (simp add: db_def)
  have d': "db view (upd_rc (\<lambda>r. r\<lparr>ctx := Some c'\<rparr>) w) = view c'" by (simp add: db_def)
  have "store_ok (view c')"
    using assms(3) expire(1,5) d by (force simp: server_inv_def store_ok_def map_le_def dom_def)
  then show ?thesis
    using assms(3) expire d d' by (auto simp: server_inv_def online_def settings_def)
qed

lemma run_inv:
  assumes "redis_contract api view" and "(server_step api view expiry)\<^sup>*\<^sup>* s s'" and "server_inv api view s"
  shows "server_inv api view s' \<and> settings (snd s') = settings (snd s)"
  using assms(2)
proof (induction rule: rtranclp_induct)
  case base
  then show ?case using assms(3) by simp
next
  case (step s1 s2)
  then show ?case using server_step_inv [OF assms(1) step(2)] by simp
qed

text \<open>C10: what a server can ever store. Over every run of a server that was started on an empty (or
  well-formed) database, whatever clients send, however redis fails and whenever keys expire: every
  key is the counter of an address or a lower-case hexadecimal token of one of the six lengths
  with a value of at least five digits of the encoder's alphabet, the nodes stay registered and
  enabled, and between requests the redis lock is free.\<close>

theorem store_invariant:
  assumes "redis_contract api view" and "server_inv api view s"
    and "(server_step api view True)\<^sup>*\<^sup>* s (ws, w)"
  shows "ready api ws \<and> \<not> rl (rc (g_rt w)) \<and>
    (\<forall>k v. db view w k = Some v \<longrightarrow>
       (\<exists>a. k = ip_key a) \<or> stored_token k \<and> 5 \<le> length v \<and> set v \<subseteq> set base85)"
proof -
  have "server_inv api view (ws, w)" using run_inv [OF assms(1,3,2)] by simp
  then show ?thesis unfolding server_inv_def store_ok_def valid_data_def by blast
qed

text \<open>C11: an immutable server never changes what it stores. While no key expires and burning is off,
  a stored value survives every run, whatever is posted under its token.\<close>

theorem immutable_forever:
  assumes "redis_contract api view" and "server_inv api view s"
    and "(server_step api view False)\<^sup>*\<^sup>* s s'"
    and "immutable (g_rt (snd s))" and "\<not> bar (g_rt (snd s))"
    and "stored_token k" and "db view (snd s) k = Some v"
  shows "db view (snd s') k = Some v"
  using assms(3)
proof (induction rule: rtranclp_induct)
  case base
  then show ?case using assms(7) by simp
next
  case (step s1 s2)
  have i: "server_inv api view s1" "settings (snd s1) = settings (snd s)"
    using run_inv [OF assms(1) step(1) assms(2)] by simp_all
  then have "immutable (g_rt (snd s1))" "\<not> bar (g_rt (snd s1))"
    using settings_eq [OF i(2)] assms(4,5) by simp_all
  moreover have "step_effect (snd s1) (db view (snd s1)) (db view (snd s2))"
    using server_step_inv [OF assms(1) step(2) i(1)] by simp
  ultimately show ?case
    using step.IH token_not_ip [OF assms(6)] unfolding step_effect_def
    by (elim disjE exE conjE) auto
qed

lemma sample_inv:
  "server_inv plain_redis (\<lambda>m. m) (add_nodes plain_redis (searest_new 11 139 1000), sample_server imm burn)"
proof -
  have "addr_cb (add_nodes plain_redis (searest_new 11 139 1000)) = None"
    by (simp add: add_nodes_def node_add_Some searest_new_def Let_def)
  then show ?thesis
    by (simp add: server_inv_def sample_ready store_ok_def)
qed

text \<open>A run with an upload: the request stores a value, and the invariant holds after it.\<close>

theorem store_invariant_witness:
  "let posted = serve_request 0 (add_nodes plain_redis (searest_new 11 139 1000)) (sample_connection (show_nat 5))
         (''/store/128/'' @ sample_token) ''POST'' ''1.1'' [''00'', ''000''] (sample_server True True)
   in queued posted = Some \<lparr>status = 200, body = ''ok'', headers = []\<rparr> \<and>
      ready plain_redis (instance_of posted) \<and> \<not> rl (rc (g_rt (world posted))) \<and>
      (\<forall>k v. db (\<lambda>m. m) (world posted) k = Some v \<longrightarrow>
         (\<exists>a. k = ip_key a) \<or> stored_token k \<and> 5 \<le> length v \<and> set v \<subseteq> set base85)"
proof -
  let ?ws = "add_nodes plain_redis (searest_new 11 139 1000)"
  define posted where "posted = serve_request 0 ?ws (sample_connection (show_nat 5))
    (''/store/128/'' @ sample_token) ''POST'' ''1.1'' [''00'', ''000''] (sample_server True True)"
  have "(server_step plain_redis (\<lambda>m. m) True)\<^sup>*\<^sup>* (?ws, sample_server True True) (instance_of posted, world posted)"
    by (rule r_into_rtranclp, rule server_step.request [OF _ posted_def]) simp
  note inv = store_invariant [OF plain_redis_contract sample_inv this]
  have m: "(''/store/128/'', 32, store_node plain_redis 1 32) \<in> set (store_nodes plain_redis)"
    by (simp add: store_nodes_def node_defs hash_codes)
  have t: "valid_token 32 sample_token" by (simp add: valid_token_def sample_token_def c_isxdigit_def c_isdigit_def)
  have r: "complete_request (sample_connection (show_nat 5)) [''00'', ''000'']"
    using strtol10_show_nat [of 5] by (simp add: complete_request_def sample_connection_def c_atol_def LONG_MAX_def)
  have r': "complete_request (sample_connection (show_nat 0)) []"
    using strtol10_show_nat [of 0] by (simp add: complete_request_def sample_connection_def c_atol_def LONG_MAX_def)
  have "queued posted = Some \<lparr>status = 200, body = ''ok'', headers = []\<rparr>"
    using post_then_get_http [OF plain_redis_up sample_ready(1) _ _ _ _ m t refl r _ r', of "sample_server True True" 0 "''1.1''" 1 "''1.1''"]
    unfolding posted_def Let_def by (simp add: sample_ready(2) shutting_down_def sample_valid(3))
  with inv show ?thesis unfolding posted_def Let_def by simp
qed

definition store_value :: "string \<Rightarrow> string \<Rightarrow> (string \<rightharpoonup> string) server \<Rightarrow> (string \<rightharpoonup> string) server" where
  "store_value k v w = upd_rc (\<lambda>r. r\<lparr>ctx := Some [k \<mapsto> v]\<rparr>) w"

text \<open>Another value is posted under a token in use; the stored one stays.\<close>

theorem immutable_forever_witness:
  "db (\<lambda>m. m) (world (serve_request 0 (add_nodes plain_redis (searest_new 11 139 1000)) (sample_connection (show_nat 5))
       (''/store/128/'' @ replicate 32 (CHR ''a'')) ''POST'' ''1.1'' [''11'', ''111'']
       (store_value (replicate 32 (CHR ''a'')) ''00000'' (sample_server True False))))
     (replicate 32 (CHR ''a'')) = Some ''00000''"
proof -
  let ?ws = "add_nodes plain_redis (searest_new 11 139 1000)"
  let ?k = "replicate 32 (CHR ''a'')"
  let ?w = "store_value ?k ''00000'' (sample_server True False)"
  let ?posted = "serve_request 0 ?ws (sample_connection (show_nat 5)) (''/store/128/'' @ ?k) ''POST'' ''1.1'' [''11'', ''111''] ?w"
  have tok: "stored_token ?k"
    by (simp add: stored_token_def c_isxdigit_def c_isdigit_def c_isupper_def)
  have d: "db (\<lambda>m. m) ?w = [?k \<mapsto> ''00000'']" by (simp add: store_value_def db_def)
  have "store_ok [?k \<mapsto> ''00000'']" using tok sample_valid(3) by (auto simp: store_ok_def split: if_splits)
  then have inv: "server_inv plain_redis (\<lambda>m. m) (?ws, ?w)"
    using sample_inv [of True False] d by (simp add: server_inv_def store_value_def online_def)
  have run: "(server_step plain_redis (\<lambda>m. m) False)\<^sup>*\<^sup>* (?ws, ?w) (instance_of ?posted, world ?posted)"
    by (rule r_into_rtranclp, rule server_step.request [OF _ refl]) simp
  have "immutable (g_rt ?w)" "\<not> bar (g_rt ?w)" by (simp_all add: store_value_def)
  then show ?thesis
    using immutable_forever [OF plain_redis_contract inv run _ _ tok, of "''00000''"] d by simp
qed

end
