(* ===== verification/WS_Threads.thy ===== *)
theory WS_Threads
  imports WS_Node WS_Conn
begin

text \<open>
  A server with a thread per connection. The critical sections of \<open>get\<close> and \<open>do_redis_post\<close>
  (webstore_node.c) and of \<open>allow_ip\<close> (webstore_conn.c) are taken apart into the steps between which other threads may run: acquiring
  the redis lock, each redis command, releasing the lock. Every interleaving has the effect of
  running the critical sections one after the other, each as the functions of the sequential model.
\<close>

datatype job = Get_Job string | Post_Job string string u64 | Conn_Job string

datatype result = Got int "string option" | Posted int | Admitted int

datatype pc =
    Waiting job            \<comment> \<open>before \<open>rai_lock\<close>\<close>
  | Critical job           \<comment> \<open>the lock is held, no command sent yet\<close>
  | Burning string string  \<comment> \<open>a value was read and its DEL is still to be sent\<close>
  | Counting string bool   \<comment> \<open>an address was let in and its counter is still to be set or increased\<close>
  | Leaving result         \<comment> \<open>before \<open>rai_unlock\<close>\<close>
  | Finished result

type_synonym 'c threads = "'c server \<times> (nat \<Rightarrow> pc)"

text \<open>The command of a GET and what is done with its reply, those of a POST, and the first command for a
  new connection; \<open>save_ip\<close> sends the second.\<close>

definition fetch_step :: "'c hiredis \<Rightarrow> string \<Rightarrow> 'c server \<Rightarrow> pc \<times> 'c server" where
  "fetch_step api hash w =
     (let (reply, w) = redis_cmd api [''GET'', hash] w
      in case reply of
           None \<Rightarrow> (Leaving (Got 503 None), handle_redis_error api w)
         | Some r \<Rightarrow>
             (case (case r of REDIS_REPLY_STRING s \<Rightarrow> Some (cstr s) | _ \<Rightarrow> None) of
                None \<Rightarrow> (Leaving (Got 0 None), w)
              | Some page \<Rightarrow>
                  if bar (g_rt w) then (Burning hash page, w) else (Leaving (Got 0 (Some page)), w)))"

definition set_step :: "'c hiredis \<Rightarrow> string \<Rightarrow> string \<Rightarrow> u64 \<Rightarrow> 'c server \<Rightarrow> pc \<times> 'c server" where
  "set_step api hash d n w =
     (let (reply, w) = redis_cmd api (set_command (g_rt w) hash (cstr (take (unat n) d))) w
      in case reply of
           None \<Rightarrow> (Leaving (Posted 503), handle_redis_error api w)
         | Some (REDIS_REPLY_ERROR e) \<Rightarrow> (Leaving (Posted 417), w)
         | Some REDIS_REPLY_NIL \<Rightarrow> (Leaving (Posted 304), w)
         | Some (REDIS_REPLY_STATUS s) \<Rightarrow> (Leaving (Posted (if strncmp_eq ''OK'' s 2 then 0 else 500)), w)
         | Some _ \<Rightarrow> (Leaving (Posted 500), w))"

definition lookup_step :: "'c hiredis \<Rightarrow> string \<Rightarrow> 'c server \<Rightarrow> pc \<times> 'c server" where
  "lookup_step api addr w =
     (let (reply, w) = redis_cmd api [''GET'', ip_key addr] w
      in case reply of
           None \<Rightarrow> (Leaving (Admitted 0), handle_redis_error api w)
         | Some REDIS_REPLY_NIL \<Rightarrow>
             (Counting addr False, add_log WSLOG_INFO (addr @ '' new connection allowed (count: 1)'') w)
         | Some (REDIS_REPLY_STRING s) \<Rightarrow>
             let count = c_atoi (cstr s) in
             if count < reqcount (g_rt w) then
               (Counting addr True, add_log WSLOG_INFO
                  (addr @ '' new connection allowed (count: '' @ show_int (count + 1) @ '')'') w)
             else
               (Leaving (Admitted 0), add_log WSLOG_INFO
                  (addr @ '' new connection denied (count: '' @ show_int (count + 1) @ '')'') w)
         | Some _ \<Rightarrow> (Leaving (Admitted 0), w))"

inductive thread_step :: "'c hiredis \<Rightarrow> 'c threads \<Rightarrow> 'c threads \<Rightarrow> bool" for api :: "'c hiredis" where
  acquire: "T i = Waiting j \<Longrightarrow> \<not> rl (rc (g_rt w)) \<Longrightarrow>
    thread_step api (w, T) (lock_if w, T(i := Critical j))"
| fetch: "T i = Critical (Get_Job h) \<Longrightarrow> fetch_step api h w = (p, w') \<Longrightarrow>
    thread_step api (w, T) (w', T(i := p))"
| burn: "T i = Burning h page \<Longrightarrow>
    thread_step api (w, T) (do_redis_del api h w, T(i := Leaving (Got 0 (Some page))))"
| store: "T i = Critical (Post_Job h d n) \<Longrightarrow> set_step api h d n w = (p, w') \<Longrightarrow>
    thread_step api (w, T) (w', T(i := p))"
| lookup: "T i = Critical (Conn_Job addr) \<Longrightarrow> lookup_step api addr w = (p, w') \<Longrightarrow>
    thread_step api (w, T) (w', T(i := p))"
| count: "T i = Counting addr found \<Longrightarrow>
    thread_step api (w, T) (save_ip api addr found (reqperiod (g_rt w)) w, T(i := Leaving (Admitted 1)))"
| release: "T i = Leaving r \<Longrightarrow> thread_step api (w, T) (unlock_if w, T(i := Finished r))"

text \<open>The specification: whole critical sections, one after the other.\<close>

definition atomic :: "'c hiredis \<Rightarrow> job \<Rightarrow> 'c server \<Rightarrow> result \<times> 'c server" where
  "atomic api j w =
     (case j of
        Get_Job h \<Rightarrow> (let (err, page, w) = get_locked api h w in (Got err page, w))
      | Post_Job h d n \<Rightarrow> (let (z, w) = do_redis_post api h d n w in (Posted z, w))
      | Conn_Job addr \<Rightarrow> (let (z, w) = allow_ip api addr w in (Admitted z, w)))"

inductive serial_step :: "'c hiredis \<Rightarrow> 'c threads \<Rightarrow> 'c threads \<Rightarrow> bool" for api :: "'c hiredis" where
  whole: "T i = Waiting j \<Longrightarrow> atomic api j w = (r, w') \<Longrightarrow>
    serial_step api (w, T) (w', T(i := Finished r))"

section \<open>Refinement\<close>

fun in_section :: "pc \<Rightarrow> bool" where
  "in_section (Waiting j) = False"
| "in_section (Critical j) = True"
| "in_section (Burning h page) = True"
| "in_section (Counting addr found) = True"
| "in_section (Leaving r) = True"
| "in_section (Finished r) = False"

text \<open>How far a thread in its section has come, from the state \<open>wa\<close> in which it took the lock.\<close>

definition progress :: "'c hiredis \<Rightarrow> job \<Rightarrow> 'c server \<Rightarrow> pc \<Rightarrow> 'c server \<Rightarrow> bool" where
  "progress api j wa p w \<longleftrightarrow>
     p = Critical j \<and> w = lock_if wa \<or>
     (\<exists>h s. p = Burning h (cstr s) \<and> j = Get_Job h \<and> bar (g_rt w) \<and>
        redis_cmd api [''GET'', h] (lock_if wa) = (Some (REDIS_REPLY_STRING s), w)) \<or>
     (\<exists>addr found. p = Counting addr found \<and> j = Conn_Job addr \<and>
        check_ip api addr (lock_if wa) = (1, save_ip api addr found (reqperiod (g_rt w)) w)) \<or>
     (\<exists>r. p = Leaving r \<and> atomic api j wa = (r, unlock_if w))"

definition simulates :: "'c hiredis \<Rightarrow> 'c threads \<Rightarrow> 'c threads \<Rightarrow> bool" where
  "simulates api = (\<lambda>(w, T) (wa, Ta). multithreaded (g_rt w) \<and>
     (if rl (rc (g_rt w)) then
        (\<exists>i j. in_section (T i) \<and> (\<forall>k. k \<noteq> i \<longrightarrow> \<not> in_section (T k)) \<and>
           Ta = T(i := Waiting j) \<and> progress api j wa (T i) w)
      else (\<forall>k. \<not> in_section (T k)) \<and> wa = w \<and> Ta = T))"

lemma fetch_progress:
  assumes "fetch_step api h (lock_if wa) = (p, w)"
  shows "progress api (Get_Job h) wa p w \<and> in_section p"
  using assms
  by (auto simp: fetch_step_def progress_def atomic_def get_locked_def split: prod.splits option.splits redisReply.splits if_splits)

lemma burn_progress:
  assumes "progress api j wa (Burning h page) w"
  shows "progress api j wa (Leaving (Got 0 (Some page))) (do_redis_del api h w)"
  using assms by (auto simp: progress_def atomic_def get_locked_def)

lemma set_progress:
  assumes "set_step api h d n (lock_if wa) = (p, w)"
  shows "progress api (Post_Job h d n) wa p w \<and> in_section p"
  using assms
  by (auto simp: set_step_def progress_def atomic_def do_redis_post_def split: prod.splits option.splits redisReply.splits if_splits)

lemma lookup_check:
  "check_ip api addr w =
     (case lookup_step api addr w of (p, w') \<Rightarrow>
       (case p of Counting a found \<Rightarrow> (1, save_ip api a found (reqperiod (g_rt w')) w') | _ \<Rightarrow> (0, w')))"
  by (simp add: check_ip_def lookup_step_def Let_def split: prod.split option.split redisReply.split)

lemma lookup_pc: "fst (lookup_step api addr w) \<in> {Leaving (Admitted 0), Counting addr True, Counting addr False}"
  by (simp add: lookup_step_def Let_def split: prod.split option.split redisReply.split)

lemma lookup_progress:
  assumes "lookup_step api addr (lock_if wa) = (p, w)"
  shows "progress api (Conn_Job addr) wa p w \<and> in_section p"
  using lookup_pc [of api addr "lock_if wa"] lookup_check [of api addr "lock_if wa"] assms
  by (auto simp: progress_def atomic_def allow_ip_def)

lemma count_progress:
  assumes "progress api j wa (Counting addr found) w"
  shows "progress api j wa (Leaving (Admitted 1)) (save_ip api addr found (reqperiod (g_rt w)) w)"
  using assms by (auto simp: progress_def atomic_def allow_ip_def)

lemma steps_keep [simp]:
  "settings (snd (fetch_step api h w)) = settings w" "rl (rc (g_rt (snd (fetch_step api h w)))) = rl (rc (g_rt w))"
  "settings (snd (set_step api h d n w)) = settings w" "rl (rc (g_rt (snd (set_step api h d n w)))) = rl (rc (g_rt w))"
  "settings (do_redis_del api h w) = settings w" "rl (rc (g_rt (do_redis_del api h w))) = rl (rc (g_rt w))"
  by (simp_all add: fetch_step_def set_step_def do_redis_del_def Let_def split_beta
      split: option.split redisReply.split)

lemma lookup_keeps [simp]:
  "settings (snd (lookup_step api addr w)) = settings w" "rl (rc (g_rt (snd (lookup_step api addr w)))) = rl (rc (g_rt w))"
  by (simp_all add: lookup_step_def Let_def split_beta split: option.split redisReply.split)

lemma simulates_free:
  "\<not> rl (rc (g_rt w)) \<Longrightarrow> simulates api (w, T) (wa, Ta) \<longleftrightarrow>
     multithreaded (g_rt w) \<and> (\<forall>k. \<not> in_section (T k)) \<and> wa = w \<and> Ta = T"
  by (simp add: simulates_def)

lemma simulates_held:
  assumes "rl (rc (g_rt w))" and "simulates api (w, T) (wa, Ta)" and "in_section (T i)"
  obtains j where "multithreaded (g_rt w)" and "\<forall>k. k \<noteq> i \<longrightarrow> \<not> in_section (T k)"
    and "Ta = T(i := Waiting j)" and "progress api j wa (T i) w"
proof -
  obtain i' j where "multithreaded (g_rt w)" "in_section (T i')" "\<forall>k. k \<noteq> i' \<longrightarrow> \<not> in_section (T k)"
      "Ta = T(i' := Waiting j)" "progress api j wa (T i') w"
    using assms(1,2) by (auto simp: simulates_def)
  moreover from this assms(3) have "i' = i" by metis
  ultimately show ?thesis using that by blast
qed

lemma simulates_heldI:
  assumes "rl (rc (g_rt w))" and "multithreaded (g_rt w)" and "in_section (T i)"
    and "\<forall>k. k \<noteq> i \<longrightarrow> \<not> in_section (T k)" and "Ta = T(i := Waiting j)" and "progress api j wa (T i) w"
  shows "simulates api (w, T) (wa, Ta)"
  using assms unfolding simulates_def by auto

text \<open>A thread inside its section means that the lock is held: steps inside stutter.\<close>

lemma inner_step:
  assumes "simulates api (w, T) (wa, Ta)" and "in_section (T i)"
    and "\<And>j. progress api j wa (T i) w \<Longrightarrow> progress api j wa p w' \<and> in_section p"
    and "settings w' = settings w" and "rl (rc (g_rt w')) = rl (rc (g_rt w))"
  shows "simulates api (w', T(i := p)) (wa, Ta)"
proof -
  have rl: "rl (rc (g_rt w))" using assms(1,2) by (auto simp: simulates_def split: if_splits)
  obtain j where j: "multithreaded (g_rt w)" "\<forall>k. k \<noteq> i \<longrightarrow> \<not> in_section (T k)"
      "Ta = T(i := Waiting j)" "progress api j wa (T i) w"
    by (rule simulates_held [OF rl assms(1,2)])
  show ?thesis
    by (rule simulates_heldI [of _ _ i _ j])
      (use assms(3) [OF j(4)] assms(4,5) rl j settings_eq [OF assms(4)] in auto)
qed

lemma progress_Critical: "progress api j wa (Critical j') w \<Longrightarrow> j' = j \<and> w = lock_if wa"
  by (auto simp: progress_def)

lemma thread_step_simulated:
  assumes "thread_step api s s'" and "simulates api s sa"
  shows "\<exists>sa'. (serial_step api)\<^sup>*\<^sup>* sa sa' \<and> simulates api s' sa'"
  using assms(1)
proof cases
  case (acquire T i j w)
  obtain wa Ta where sa: "sa = (wa, Ta)" by fastforce
  have free: "multithreaded (g_rt w)" "\<forall>k. \<not> in_section (T k)" "wa = w" "Ta = T"
    using assms(2) acquire(1,4) unfolding sa by (simp_all add: simulates_def)
  have "T = (T(i := Critical j))(i := Waiting j)" using acquire(3) by (simp add: fun_upd_idem)
  then have "simulates api (lock_if w, T(i := Critical j)) (w, T)"
    by (intro simulates_heldI [of _ _ i _ j])
      (use free settings_eq [of "lock_if w" w] in \<open>auto simp: rl_lock_if progress_def\<close>)
  then show ?thesis using acquire(2) free sa by auto
next
  case (fetch T i h w p w')
  obtain wa Ta where sa: "sa = (wa, Ta)" by fastforce
  have "simulates api (w', T(i := p)) (wa, Ta)"
  proof (rule inner_step)
    show "simulates api (w, T) (wa, Ta)" using assms(2) fetch(1) sa by simp
    show "in_section (T i)" using fetch(3) by simp
    show "progress api j wa p w' \<and> in_section p" if "progress api j wa (T i) w" for j
      using that fetch(3,4) progress_Critical [of api j wa _ w] fetch_progress [of api h wa p w'] by auto
    show "settings w' = settings w" "rl (rc (g_rt w')) = rl (rc (g_rt w))"
      using steps_keep(1,2) [of api h w] fetch(4) by simp_all
  qed
  then show ?thesis using fetch(2) sa by auto
next
  case (burn T i h page w)
  obtain wa Ta where sa: "sa = (wa, Ta)" by fastforce
  have "simulates api (do_redis_del api h w, T(i := Leaving (Got 0 (Some page)))) (wa, Ta)"
  proof (rule inner_step)
    show "simulates api (w, T) (wa, Ta)" using assms(2) burn(1) sa by simp
    show "in_section (T i)" using burn(3) by simp
    show "progress api j wa (Leaving (Got 0 (Some page))) (do_redis_del api h w) \<and>
        in_section (Leaving (Got 0 (Some page)))" if "progress api j wa (T i) w" for j
      using that burn(3) burn_progress by simp
  qed simp_all
  then show ?thesis using burn(2) sa by auto
next
  case (store T i h d n w p w')
  obtain wa Ta where sa: "sa = (wa, Ta)" by fastforce
  have "simulates api (w', T(i := p)) (wa, Ta)"
  proof (rule inner_step)
    show "simulates api (w, T) (wa, Ta)" using assms(2) store(1) sa by simp
    show "in_section (T i)" using store(3) by simp
    show "progress api j wa p w' \<and> in_section p" if "progress api j wa (T i) w" for j
      using that store(3,4) progress_Critical [of api j wa _ w] set_progress [of api h d n wa p w'] by auto
    show "settings w' = settings w" "rl (rc (g_rt w')) = rl (rc (g_rt w))"
      using steps_keep(3,4) [of api h d n w] store(4) by simp_all
  qed
  then show ?thesis using store(2) sa by auto
next
  case (lookup T i addr w p w')
  obtain wa Ta where sa: "sa = (wa, Ta)" by fastforce
  have "simulates api (w', T(i := p)) (wa, Ta)"
  proof (rule inner_step)
    show "simulates api (w, T) (wa, Ta)" using assms(2) lookup(1) sa by simp
    show "in_section (T i)" using lookup(3) by simp
    show "progress api j wa p w' \<and> in_section p" if "progress api j wa (T i) w" for j
      using that lookup(3,4) progress_Critical [of api j wa _ w] lookup_progress [of api addr wa p w'] by auto
    show "settings w' = settings w" "rl (rc (g_rt w')) = rl (rc (g_rt w))"
      using lookup_keeps [of api addr w] lookup(4) by simp_all
  qed
  then show ?thesis using lookup(2) sa by auto
next
  case (count T i addr found w)
  obtain wa Ta where sa: "sa = (wa, Ta)" by fastforce
  have "simulates api (save_ip api addr found (reqperiod (g_rt w)) w, T(i := Leaving (Admitted 1))) (wa, Ta)"
  proof (rule inner_step)
    show "simulates api (w, T) (wa, Ta)" using assms(2) count(1) sa by simp
    show "in_section (T i)" using count(3) by simp
    show "progress api j wa (Leaving (Admitted 1)) (save_ip api addr found (reqperiod (g_rt w)) w) \<and>
        in_section (Leaving (Admitted 1))" if "progress api j wa (T i) w" for j
      using that count(3) count_progress by simp
  qed simp_all
  then show ?thesis using count(2) sa by auto
next
  case (release T i r w)
  obtain wa Ta where sa: "sa = (wa, Ta)" by fastforce
  have ins: "in_section (T i)" using release(3) by simp
  then have rl: "rl (rc (g_rt w))" using assms(2) release(1) sa by (auto simp: simulates_def split: if_splits)
  obtain j where j: "multithreaded (g_rt w)" "\<forall>k. k \<noteq> i \<longrightarrow> \<not> in_section (T k)"
      "Ta = T(i := Waiting j)" "progress api j wa (T i) w"
    by (rule simulates_held [of w api T wa Ta i]) (use rl ins assms(2) release(1) sa in simp_all)
  have at: "atomic api j wa = (r, unlock_if w)" using j(4) release(3) by (auto simp: progress_def)
  have "serial_step api (wa, Ta) (unlock_if w, Ta(i := Finished r))"
    by (rule serial_step.whole [OF _ at]) (simp add: j(3))
  moreover have "simulates api (unlock_if w, T(i := Finished r)) (unlock_if w, Ta(i := Finished r))"
    using j settings_eq [of "unlock_if w" w] by (simp add: simulates_free rl_unlock_if)
  ultimately show ?thesis using release(2) sa by blast
qed

lemma threads_simulated:
  assumes "(thread_step api)\<^sup>*\<^sup>* s s'" and "simulates api s sa"
  shows "\<exists>sa'. (serial_step api)\<^sup>*\<^sup>* sa sa' \<and> simulates api s' sa'"
  using assms(1)
proof (induction rule: rtranclp_induct)
  case base
  then show ?case using assms(2) by blast
next
  case (step s1 s2)
  then obtain s1a where "(serial_step api)\<^sup>*\<^sup>* sa s1a" "simulates api s1 s1a" by blast
  with thread_step_simulated [OF step(2)] show ?case by (meson rtranclp_trans)
qed

text \<open>C3: with locking on, the critical sections are atomic. Whatever the interleaving of the lock,
  the single redis commands and the unlock of any number of threads, and whatever redis answers:
  never are two threads inside, and whenever the lock is free the state and every finished thread's
  result are those of running whole requests one after the other.\<close>

theorem critical_sections_serialize:
  assumes "multithreaded (g_rt w)" and "\<not> rl (rc (g_rt w))" and "\<forall>k. \<not> in_section (T k)"
    and "(thread_step api)\<^sup>*\<^sup>* (w, T) (w', T')"
  shows "(\<forall>i k. in_section (T' i) \<and> in_section (T' k) \<longrightarrow> i = k) \<and>
    (\<not> rl (rc (g_rt w')) \<longrightarrow> (serial_step api)\<^sup>*\<^sup>* (w, T) (w', T'))"
proof -
  have "simulates api (w, T) (w, T)" using assms(1-3) by (simp add: simulates_free)
  then obtain wa Ta where sa: "(serial_step api)\<^sup>*\<^sup>* (w, T) (wa, Ta)" "simulates api (w', T') (wa, Ta)"
    using threads_simulated [OF assms(4)] by (metis surj_pair)
  then have "\<forall>i k. in_section (T' i) \<and> in_section (T' k) \<longrightarrow> i = k"
    by (auto simp: simulates_def split: if_splits) metis
  moreover have "\<not> rl (rc (g_rt w')) \<Longrightarrow> wa = w' \<and> Ta = T'"
    using sa(2) simulates_free by blast
  ultimately show ?thesis using sa(1) by blast
qed

section \<open>Burning after reading\<close>

definition delivered :: "pc \<Rightarrow> bool" where
  "delivered p \<longleftrightarrow> (\<exists>page. p = Finished (Got 0 (Some page)))"

text \<open>Readers of one token: the value is there and nobody has it, or it is gone and at most one has.\<close>

definition readers :: "('c \<Rightarrow> string \<rightharpoonup> string) \<Rightarrow> string \<Rightarrow> string \<Rightarrow> 'c threads \<Rightarrow> bool" where
  "readers view h v = (\<lambda>(w, T). online w \<and> bar (g_rt w) \<and>
     (\<forall>k. T k = Waiting (Get_Job h) \<or> (\<exists>e. T k = Finished (Got e None)) \<or> T k = Finished (Got 0 (Some (cstr v)))) \<and>
     (db view w h = Some v \<and> (\<forall>k. \<not> delivered (T k)) \<or>
      db view w h = None \<and> (\<forall>i k. delivered (T i) \<and> delivered (T k) \<longrightarrow> i = k)))"

lemma readers_pc:
  "readers view h v (w, T) \<Longrightarrow>
     T k = Waiting (Get_Job h) \<or> (\<exists>e. T k = Finished (Got e None)) \<or> T k = Finished (Got 0 (Some (cstr v)))"
  by (simp add: readers_def)

text \<open>Redis never fails to answer a DEL of the token. \<open>do_redis_del\<close> ignores the reply, so that otherwise a
  value could be handed out again.\<close>

definition deletes :: "'c hiredis \<Rightarrow> ('c \<Rightarrow> string \<rightharpoonup> string) \<Rightarrow> string \<Rightarrow> bool" where
  "deletes api view h \<longleftrightarrow> (\<forall>dbs. \<not> may_fail api view dbs [''DEL'', h])"

lemma readers_step:
  assumes "redis_contract api view" and "deletes api view h" and "serial_step api s s'" and "readers view h v s"
  shows "readers view h v s'"
  using assms(3)
proof cases
  case (whole T i j w r w')
  have o: "online w" "bar (g_rt w)" using assms(4) whole(1) by (simp_all add: readers_def)
  have j: "j = Get_Job h" using readers_pc [of view h v w T i] assms(4) whole(1,3) by simp
  obtain err page w2 where g: "get_locked api h w = (err, page, w2)" by (metis prod_cases3)
  have w': "w' = w2" "r = Got err page" using whole(4) j g by (simp_all add: atomic_def)
  note c = get_locked_contract [OF assms(1) o(1) g]
  have keep: "online w'" "bar (g_rt w') = bar (g_rt w)"
    using get_locked_simps [of api h w] o(1) g w'(1) settings_eq [of w' w] by simp_all
  show ?thesis
  proof (cases page)
    case None
    then have "db view w' = db view w" using c(4) w'(1) by simp
    then show ?thesis
      using assms(4) w' o keep None whole(3) unfolding whole(1,2) readers_def by (auto simp: delivered_def)
  next
    case (Some p)
    then have p: "page = map_option cstr (db view w h)" "db view w' h = None" "err = 0"
      using c(1-3) o(2) assms(2) w'(1) by (auto simp: deletes_def)
    then have "db view w h = Some v" "p = cstr v" "\<forall>k. \<not> delivered (T k)"
      using Some assms(4) unfolding whole(1) readers_def by auto
    then show ?thesis
      using assms(4) w' o keep Some p whole(3) unfolding whole(1,2) readers_def by (auto simp: delivered_def)
  qed
qed

text \<open>C4: burning after reading, at most once. On a multithreaded burn-after-reading server, over a redis
  that keeps its contract and answers every DEL of the token with a number: of any number of concurrent
  readers of one token, interleaved in any way, at most one is answered with the stored value; it gets
  exactly that value, and nobody else gets any. The other replies of redis may fail as they like. Without
  the condition on DEL the claim is false, see \<open>failed_burn_delivers_twice\<close>.\<close>

theorem burn_after_reading_once:
  assumes "redis_contract api view" and "deletes api view h"
    and "online w" and "multithreaded (g_rt w)" and "\<not> rl (rc (g_rt w))"
    and "bar (g_rt w)" and "db view w h = Some v" and "\<forall>k. T k = Waiting (Get_Job h)"
    and "(thread_step api)\<^sup>*\<^sup>* (w, T) (w', T')"
    and "T' i = Finished (Got err (Some page))"
  shows "err = 0 \<and> page = cstr v \<and> (\<forall>k err other. T' k = Finished (Got err (Some other)) \<longrightarrow> k = i)"
proof -
  have "simulates api (w, T) (w, T)" using assms(4,5,8) by (simp add: simulates_free)
  then obtain wa Ta where sa: "(serial_step api)\<^sup>*\<^sup>* (w, T) (wa, Ta)" "simulates api (w', T') (wa, Ta)"
    using threads_simulated [OF assms(9)] by (metis surj_pair)
  have "readers view h v (w, T)" using assms(3,6-8) by (simp add: readers_def delivered_def)
  with sa(1) have r: "readers view h v (wa, Ta)"
    by (induction rule: rtranclp_induct) (auto intro: readers_step [OF assms(1,2)])
  have fin: "Ta k = T' k" if "\<not> in_section (T' k)" for k
    using sa(2) that by (auto simp: simulates_def split: if_splits)
  have got: "Ta k = Finished (Got 0 (Some (cstr v))) \<and> delivered (Ta k)"
    if "T' k = Finished (Got e (Some other))" for k e other
    using fin [of k] that readers_pc [OF r, of k] by (auto simp: delivered_def)
  have i: "T' i = Finished (Got 0 (Some (cstr v)))" "delivered (Ta i)"
    using got [OF assms(10)] fin [of i] assms(10) by (simp_all add: delivered_def)
  have "k = i" if "T' k = Finished (Got e (Some other))" for k e other
  proof -
    have "delivered (Ta k)" using got [OF that] ..
    with i(2) r show ?thesis unfolding readers_def by blast
  qed
  moreover have "err = 0 \<and> page = cstr v" using i(1) assms(10) by simp
  ultimately show ?thesis by blast
qed

text \<open>A redis that refuses every DEL keeps the contract, and hands the value out again and again.\<close>

definition readonly_redis :: "(string \<rightharpoonup> string) hiredis" where
  "readonly_redis = plain_redis\<lparr>hi_command := (\<lambda>db argv.
     if argv \<noteq> [] \<and> hd argv = ''DEL'' then (Some (REDIS_REPLY_ERROR ''READONLY''), db)
     else (Some (fst (redis_do db argv)), snd (redis_do db argv)))\<rparr>"

lemma readonly_redis_contract: "redis_contract readonly_redis (\<lambda>db. db)"
  by (simp add: redis_contract_def readonly_redis_def split_beta)

theorem failed_burn_delivers_twice:
  "let w = sample_stored True [''k'' \<mapsto> ''00000'']; (err, page, w') = get_locked readonly_redis ''k'' w;
       (err', page', w'') = get_locked readonly_redis ''k'' w'
   in (err, page) = (0, Some (cstr ''00000'')) \<and> (err', page') = (0, Some (cstr ''00000''))"
proof -
  have "ctx (rc (g_rt w)) = Some [''k'' \<mapsto> ''00000''] \<and> bar (g_rt w) \<and> multithreaded (g_rt w) \<Longrightarrow>
      \<exists>w'. get_locked readonly_redis ''k'' w = (0, Some (cstr ''00000''), w') \<and>
        ctx (rc (g_rt w')) = Some [''k'' \<mapsto> ''00000''] \<and> bar (g_rt w') \<and> multithreaded (g_rt w')" for w
    by (simp add: get_locked_def do_redis_del_def redis_cmd_def redisCommand_def readonly_redis_def redis_get_def
        lock_if_def unlock_if_def rai_lock_def rai_unlock_def)
  note step = this
  have "ctx (rc (g_rt (sample_stored True m))) = Some m \<and> bar (g_rt (sample_stored True m)) \<and>
      multithreaded (g_rt (sample_stored True m))" for m
    by (simp add: sample_stored_def)
  from step [OF this] obtain w' where 1: "get_locked readonly_redis ''k'' (sample_stored True [''k'' \<mapsto> ''00000'']) = (0, Some (cstr ''00000''), w')"
    and w': "ctx (rc (g_rt w')) = Some [''k'' \<mapsto> ''00000''] \<and> bar (g_rt w') \<and> multithreaded (g_rt w')" by blast
  from step [OF w'] obtain w'' where 2: "get_locked readonly_redis ''k'' w' = (0, Some (cstr ''00000''), w'')" by blast
  show ?thesis unfolding Let_def 1 prod.case 2 by simp
qed

text \<open>Two readers: the first takes the lock, fetches, burns and leaves.\<close>

lemma sample_run:
  fixes w :: "(string \<rightharpoonup> string) server"
  defines "w \<equiv> upd_rc (\<lambda>r. r\<lparr>ctx := Some [''k'' \<mapsto> ''00000'']\<rparr>) (sample_server False True)"
  shows "\<exists>w' T'. (thread_step plain_redis)\<^sup>*\<^sup>* (w, \<lambda>k. Waiting (Get_Job ''k'')) (w', T') \<and>
    T' 0 = Finished (Got 0 (Some ''00000'')) \<and> \<not> rl (rc (g_rt w'))"
proof -
  let ?T = "\<lambda>k :: nat. Waiting (Get_Job ''k'')"
  let ?v = "''00000''"
  have free: "\<not> rl (rc (g_rt w))" by (simp add: w_def)
  have cs: "cstr ?v = ?v" using sample_valid(3) by (intro cstr_no_nul) simp
  obtain w2 where w2: "fetch_step plain_redis ''k'' (lock_if w) = (Burning ''k'' ?v, w2)" "rl (rc (g_rt w2))"
  proof -
    have "fst (redis_cmd plain_redis [''GET'', ''k''] (lock_if w)) = Some (REDIS_REPLY_STRING ?v)"
      by (simp add: w_def lock_if_def redis_cmd_def redisCommand_def plain_redis_def redis_get_def rai_lock_def)
    moreover have "bar (g_rt (snd (redis_cmd plain_redis [''GET'', ''k''] (lock_if w)))) = True"
      using settings_eq [of "snd (redis_cmd plain_redis [''GET'', ''k''] (lock_if w))" w] by (simp add: w_def)
    moreover have "rl (rc (g_rt (snd (redis_cmd plain_redis [''GET'', ''k''] (lock_if w)))))"
      by (simp add: rl_lock_if w_def)
    ultimately show ?thesis using that cs by (simp add: fetch_step_def split_beta Let_def)
  qed
  have 1: "thread_step plain_redis (w, ?T) (lock_if w, ?T(0 := Critical (Get_Job ''k'')))"
    by (rule thread_step.acquire) (use free in simp_all)
  have 2: "thread_step plain_redis (lock_if w, ?T(0 := Critical (Get_Job ''k'')))
      (w2, (?T(0 := Critical (Get_Job ''k'')))(0 := Burning ''k'' ?v))"
    by (rule thread_step.fetch [OF _ w2(1)]) simp
  let ?w3 = "do_redis_del plain_redis ''k'' w2"
  have 3: "thread_step plain_redis (w2, (?T(0 := Critical (Get_Job ''k'')))(0 := Burning ''k'' ?v))
      (?w3, ((?T(0 := Critical (Get_Job ''k'')))(0 := Burning ''k'' ?v))(0 := Leaving (Got 0 (Some ?v))))"
    by (rule thread_step.burn) simp
  let ?T3 = "((?T(0 := Critical (Get_Job ''k'')))(0 := Burning ''k'' ?v))(0 := Leaving (Got 0 (Some ?v)))"
  have 4: "thread_step plain_redis (?w3, ?T3) (unlock_if ?w3, ?T3(0 := Finished (Got 0 (Some ?v))))"
    by (rule thread_step.release) simp
  have "settings w2 = settings w"
    using steps_keep(1) [of plain_redis "''k''" "lock_if w"] w2(1) by simp
  then have "multithreaded (g_rt ?w3)" using settings_eq [of ?w3 w] by (simp add: w_def)
  then have "\<not> rl (rc (g_rt (unlock_if ?w3)))" by (simp add: rl_unlock_if)
  moreover have "(thread_step plain_redis)\<^sup>*\<^sup>* (w, ?T) (unlock_if ?w3, ?T3(0 := Finished (Got 0 (Some ?v))))"
    using 1 2 3 4 by (meson converse_rtranclp_into_rtranclp rtranclp.rtrancl_refl)
  ultimately show ?thesis by (metis fun_upd_same)
qed

theorem burn_after_reading_once_witness:
  "\<exists>w' T'. (thread_step plain_redis)\<^sup>*\<^sup>*
      (upd_rc (\<lambda>r. r\<lparr>ctx := Some [''k'' \<mapsto> ''00000'']\<rparr>) (sample_server False True), \<lambda>k. Waiting (Get_Job ''k'')) (w', T') \<and>
     T' 0 = Finished (Got 0 (Some ''00000'')) \<and> (\<forall>k other. T' k = Finished (Got 0 (Some other)) \<longrightarrow> k = 0)"
proof -
  let ?w = "upd_rc (\<lambda>r. r\<lparr>ctx := Some [''k'' \<mapsto> ''00000'']\<rparr>) (sample_server False True)"
  obtain w' T' where run: "(thread_step plain_redis)\<^sup>*\<^sup>* (?w, \<lambda>k. Waiting (Get_Job ''k'')) (w', T')"
    "T' 0 = Finished (Got 0 (Some ''00000''))" using sample_run by blast
  have w: "online ?w" "multithreaded (g_rt ?w)" "\<not> rl (rc (g_rt ?w))" "bar (g_rt ?w)"
    "db (\<lambda>m. m) ?w ''k'' = Some ''00000''"
    by (simp_all add: online_def db_def)
  have "deletes plain_redis (\<lambda>m. m) ''k''"
    by (simp add: deletes_def may_fail_def may_reply_def plain_redis_def)
  from burn_after_reading_once [OF plain_redis_contract this w _ run]
  have "\<forall>k other. T' k = Finished (Got 0 (Some other)) \<longrightarrow> k = 0" by blast
  with run show ?thesis by blast
qed

theorem critical_sections_serialize_witness:
  "\<exists>w' T'. (thread_step plain_redis)\<^sup>*\<^sup>*
      (upd_rc (\<lambda>r. r\<lparr>ctx := Some [''k'' \<mapsto> ''00000'']\<rparr>) (sample_server False True), \<lambda>k. Waiting (Get_Job ''k'')) (w', T') \<and>
     T' 0 = Finished (Got 0 (Some ''00000'')) \<and>
     (serial_step plain_redis)\<^sup>*\<^sup>*
      (upd_rc (\<lambda>r. r\<lparr>ctx := Some [''k'' \<mapsto> ''00000'']\<rparr>) (sample_server False True), \<lambda>k. Waiting (Get_Job ''k'')) (w', T')"
proof -
  let ?w = "upd_rc (\<lambda>r. r\<lparr>ctx := Some [''k'' \<mapsto> ''00000'']\<rparr>) (sample_server False True)"
  obtain w' T' where run: "(thread_step plain_redis)\<^sup>*\<^sup>* (?w, \<lambda>k. Waiting (Get_Job ''k'')) (w', T')"
    "T' 0 = Finished (Got 0 (Some ''00000''))" "\<not> rl (rc (g_rt w'))" using sample_run by blast
  have "multithreaded (g_rt ?w)" "\<not> rl (rc (g_rt ?w))" by simp_all
  from critical_sections_serialize [OF this _ run(1)] run show ?thesis by auto
qed

end
