(* ===== verification/WS_Transfer.thy ===== *)
theory WS_Transfer
  imports WS_Prelude WS_Node
begin

text \<open>
  What the clients send: the URLs (webstore_url.h, ws_cfg.c), the transfers with libcurl
  (curl_ops.c) and the token of a message with libgcrypt (gchash.c). libcurl and libgcrypt are
  parameters: a handle can be made or not, a transfer hands pieces to the write callback and ends
  with a status code or fails; a digest is a function of the algorithm and the message.
\<close>

section \<open>URLs\<close>

definition node_of_length :: "nat \<Rightarrow> string option" where
  "node_of_length n =
     (if int n = HASHLEN128 then Some ''128''
      else if int n = HASHLEN160 then Some ''160''
      else if int n = HASHLEN224 then Some ''224''
      else if int n = HASHLEN256 then Some ''256''
      else if int n = HASHLEN384 then Some ''384''
      else if int n = HASHLEN512 then Some ''512''
      else None)"

definition create_url :: "string \<Rightarrow> u16 \<Rightarrow> string \<Rightarrow> bool \<Rightarrow> string option" where
  "create_url host port token secure =
     (case node_of_length (length token) of
        None \<Rightarrow> None
      | Some node \<Rightarrow>
          let proto = (if secure then ''https'' else ''http'')
          in Some (snprintf_buf 2048
               (proto @ ''://'' @ host @ '':'' @ show_nat (unat port) @ ''/store/'' @ node @ ''/'' @ token)))"

definition cfg_create_url :: "string \<Rightarrow> u16 \<Rightarrow> bool \<Rightarrow> string" where
  "cfg_create_url host port secure =
     (let proto = (if secure then ''https'' else ''http'')
      in snprintf_buf 2048 (proto @ ''://'' @ host @ '':'' @ show_nat (unat port) @ ''/config/all''))"

section \<open>Transfers\<close>

record curlresp =
  bytecount :: int
  resp_page :: "string option"
  http_code :: int

record curlpost =
  cp_data :: string
  cp_size :: int

definition curlresp_zero :: curlresp where
  "curlresp_zero = \<lparr>bytecount = 0, resp_page = None, http_code = 0\<rparr>"

datatype curl_request = Curl_Get string | Curl_Post string string

text \<open>A transfer may change the state \<open>'n\<close> of the other side.\<close>

record 'n curl =
  ce_init :: bool
  ce_perform :: "curl_request \<Rightarrow> 'n \<Rightarrow> string list \<times> int option \<times> 'n"

definition save_response :: "string \<Rightarrow> curlresp \<Rightarrow> int \<times> curlresp" where
  "save_response ptr r =
     (let incdatasize = int (length ptr);
          newpagesize = bytecount r + incdatasize;
          old = (case resp_page r of None \<Rightarrow> [] | Some p \<Rightarrow> p)
      in (incdatasize, r\<lparr>resp_page := Some (take (nat (bytecount r)) old @ ptr), bytecount := newpagesize\<rparr>))"

text \<open>The common part of both transfers, from \<open>curl_easy_init\<close> to \<open>curl_easy_cleanup\<close>.\<close>

definition transfer :: "'n curl \<Rightarrow> curl_request \<Rightarrow> curlresp \<Rightarrow> 'n \<Rightarrow> int \<times> curlresp \<times> 'n" where
  "transfer cu request r n =
     (if \<not> ce_init cu then (1, r, n)
      else
        let (pieces, res, n) = ce_perform cu request n;
            r = fold (\<lambda>ptr r. snd (save_response ptr r)) pieces r
        in case res of
             Some k \<Rightarrow> (0, r\<lparr>http_code := k\<rparr>, n)
           | None \<Rightarrow> (2, r\<lparr>resp_page := None\<rparr>, n))"

definition ws_curl_get :: "'n curl \<Rightarrow> string \<Rightarrow> curlresp \<Rightarrow> 'n \<Rightarrow> int \<times> curlresp \<times> 'n" where
  "ws_curl_get cu u r n = transfer cu (Curl_Get u) r n"

definition ws_curl_post ::
    "'n curl \<Rightarrow> string \<Rightarrow> curlresp \<Rightarrow> curlpost \<Rightarrow> 'n \<Rightarrow> int \<times> curlresp \<times> 'n" where
  "ws_curl_post cu u r p n = transfer cu (Curl_Post u (take (nat (cp_size p)) (cp_data p))) r n"

section \<open>Tokens\<close>

datatype gcalg = GCRY_MD_MD5 | GCRY_MD_SHA1 | GCRY_MD_SHA224 | GCRY_MD_SHA256 | GCRY_MD_SHA384 | GCRY_MD_SHA512

record gcrypt =
  gcry_check_version :: bool
  gcry_md_open :: "gcalg \<Rightarrow> bool"
  gcry_dlen :: "gcalg \<Rightarrow> nat"
  gcry_digest :: "gcalg \<Rightarrow> byte list \<Rightarrow> byte list"

text \<open>The conversion \<open>%02x\<close> of a byte.\<close>

definition hex_digit :: "nat \<Rightarrow> char" where
  "hex_digit n = (if n < 10 then char_of (48 + n) else char_of (87 + n))"

definition hex2 :: "byte \<Rightarrow> string" where
  "hex2 b = [hex_digit (unat b div 16), hex_digit (unat b mod 16)]"

definition gen_hash :: "byte list \<Rightarrow> nat \<Rightarrow> string" where
  "gen_hash digest dsize = concat (map hex2 (take dsize digest))"

definition gcalg_of :: "int \<Rightarrow> gcalg option" where
  "gcalg_of alg =
     (if alg = HASHALG128 then Some GCRY_MD_MD5
      else if alg = HASHALG160 then Some GCRY_MD_SHA1
      else if alg = HASHALG224 then Some GCRY_MD_SHA224
      else if alg = HASHALG256 then Some GCRY_MD_SHA256
      else if alg = HASHALG384 then Some GCRY_MD_SHA384
      else if alg = HASHALG512 then Some GCRY_MD_SHA512
      else None)"

definition create_token :: "gcrypt \<Rightarrow> int \<Rightarrow> byte list \<Rightarrow> nat \<Rightarrow> string option" where
  "create_token gc alg msg msglen =
     (case gcalg_of alg of
        None \<Rightarrow> None
      | Some a \<Rightarrow> if \<not> gcry_md_open gc a then None
                  else Some (gen_hash (gcry_digest gc a (take msglen msg)) (gcry_dlen gc a)))"

definition ws_gcinit :: "gcrypt \<Rightarrow> int" where
  "ws_gcinit gc = (if \<not> gcry_check_version gc then 1 else 0)"

section \<open>The response of a transfer\<close>

text \<open>The page grows by the pieces in their order, and is terminated after \<open>bytecount\<close> bytes.\<close>

definition page_ok :: "curlresp \<Rightarrow> bool" where
  "page_ok r \<longleftrightarrow> 0 \<le> bytecount r \<and>
     length (case resp_page r of None \<Rightarrow> [] | Some p \<Rightarrow> p) = nat (bytecount r)"

lemma save_response_page:
  assumes "page_ok r"
  shows "page_ok (snd (save_response ptr r))"
    and "resp_page (snd (save_response ptr r)) =
           Some ((case resp_page r of None \<Rightarrow> [] | Some p \<Rightarrow> p) @ ptr)"
    and "bytecount (snd (save_response ptr r)) = bytecount r + int (length ptr)"
  using assms by (auto simp: save_response_def page_ok_def Let_def split: option.splits)

lemma save_pieces:
  assumes "page_ok r"
  shows "resp_page (fold (\<lambda>ptr r. snd (save_response ptr r)) pieces r) =
     (if pieces = [] then resp_page r
      else Some ((case resp_page r of None \<Rightarrow> [] | Some p \<Rightarrow> p) @ concat pieces))"
    and "bytecount (fold (\<lambda>ptr r. snd (save_response ptr r)) pieces r) =
      bytecount r + int (length (concat pieces))"
  using assms
  by (induction pieces arbitrary: r) (auto simp: save_response_page split: option.splits)

lemma transfer_done:
  assumes "ce_init cu" and "ce_perform cu q n = (pieces, Some k, n')"
  shows "transfer cu q curlresp_zero n =
    (0, \<lparr>bytecount = int (length (concat pieces)),
         resp_page = (if pieces = [] then None else Some (concat pieces)), http_code = k\<rparr>, n')"
proof -
  have "page_ok curlresp_zero" by (simp add: page_ok_def curlresp_zero_def)
  note p = save_pieces [OF this, of pieces]
  show ?thesis
    using assms p by (simp add: transfer_def curlresp_zero_def)
qed

section \<open>The token of a message\<close>

definition digest_size :: "gcalg \<Rightarrow> nat" where
  "digest_size a =
     (case a of GCRY_MD_MD5 \<Rightarrow> 16 | GCRY_MD_SHA1 \<Rightarrow> 20 | GCRY_MD_SHA224 \<Rightarrow> 28
      | GCRY_MD_SHA256 \<Rightarrow> 32 | GCRY_MD_SHA384 \<Rightarrow> 48 | GCRY_MD_SHA512 \<Rightarrow> 64)"

text \<open>The documented sizes of the digests of libgcrypt.\<close>

definition gcrypt_sizes :: "gcrypt \<Rightarrow> bool" where
  "gcrypt_sizes gc \<longleftrightarrow>
     (\<forall>a. gcry_dlen gc a = digest_size a \<and> (\<forall>m. length (gcry_digest gc a m) = digest_size a))"

lemma hex_digit_xdigit: "n < 16 \<Longrightarrow> c_isxdigit (hex_digit n) \<and> c_tolower (hex_digit n) = hex_digit n"
  by (auto simp: hex_digit_def c_isxdigit_def c_isdigit_def c_tolower_def c_isupper_def)

lemma gen_hash_text:
  assumes "length digest = n"
  shows "length (gen_hash digest n) = 2 * n" and "\<forall>c \<in> set (gen_hash digest n). c_isxdigit c"
    and "map c_tolower (gen_hash digest n) = gen_hash digest n"
proof -
  have d: "unat b div 16 < 16" "unat b mod 16 < 16" for b :: byte
    using unsigned_less [of b, where ?'a = nat] by simp_all
  show "length (gen_hash digest n) = 2 * n"
    using assms by (simp add: gen_hash_def length_concat o_def hex2_def sum_list_triv)
  show "\<forall>c \<in> set (gen_hash digest n). c_isxdigit c"
    using assms hex_digit_xdigit d by (auto simp: gen_hash_def hex2_def)
  have "map c_tolower (concat (map hex2 bs)) = concat (map hex2 bs)" for bs
    using hex_digit_xdigit d by (induction bs) (auto simp: hex2_def)
  then show "map c_tolower (gen_hash digest n) = gen_hash digest n" by (simp add: gen_hash_def)
qed

lemma create_token_text:
  assumes "gcrypt_sizes gc" and "create_token gc alg msg n = Some t"
  shows "\<exists>a. gcalg_of alg = Some a \<and> valid_token (2 * int (digest_size a)) t \<and> token_of t = t"
proof -
  obtain a where a: "gcalg_of alg = Some a" "t = gen_hash (gcry_digest gc a (take n msg)) (digest_size a)"
    using assms by (auto simp: create_token_def gcrypt_sizes_def split: option.splits if_splits)
  then show ?thesis
    using gen_hash_text [of "gcry_digest gc a (take n msg)" "digest_size a"] assms(1)
    by (auto simp: gcrypt_sizes_def valid_token_def token_of_def)
qed

end
