(* ===== verification/WS_Client.thy ===== *)
theory WS_Client
  imports WS_Transfer WS_Server
begin

text \<open>
  The client programs ws_post.c, ws_get.c and ws_cfg.c with the compression wrapper compression.c.
  A message is a character string, as \<open>char *\<close> in the code, and its bytes where a codec takes them.
  A program is a function of its command line and its surroundings; its value is the exit status
  with what it wrote, the usage text shown, a refusal (exit status 1), or a fault.
\<close>

definition to_bytes :: "string \<Rightarrow> byte list" where
  "to_bytes s = map (\<lambda>x. of_nat (code x)) s"

definition of_bytes :: "byte list \<Rightarrow> string" where
  "of_bytes bs = map (\<lambda>b. char_of (unat b)) bs"

section \<open>Compression\<close>

text \<open>The deflate codec as compression.c uses it: the bound of a compressed length, and compressing
  and uncompressing into a buffer of a given size, each with an error code (0 is \<open>Z_OK\<close>) and the
  bytes produced.\<close>

record deflate =
  df_bound :: "nat \<Rightarrow> nat"
  df_compress :: "nat \<Rightarrow> byte list \<Rightarrow> int \<times> byte list"
  df_uncompress :: "nat \<Rightarrow> byte list \<Rightarrow> int \<times> byte list"

record md =
  orig_data :: "byte list option"
  orig_len :: nat
  comp_data :: "byte list option"
  comp_len :: nat
  md_err :: int

definition md_zero :: md where
  "md_zero = \<lparr>orig_data = None, orig_len = 0, comp_data = None, comp_len = 0, md_err = 0\<rparr>"

definition mza_squash :: "deflate \<Rightarrow> byte list \<Rightarrow> md" where
  "mza_squash dc data =
     (let mz = md_zero\<lparr>comp_len := df_bound dc (length data)\<rparr>;
          (e, out) = df_compress dc (comp_len mz) data;
          mz = mz\<lparr>md_err := e\<rparr>
      in if e \<noteq> 0 then mz\<lparr>comp_data := None, comp_len := 0\<rparr>
         else mz\<lparr>comp_data := Some out, comp_len := length out\<rparr>)"

definition mza_restore :: "deflate \<Rightarrow> byte list \<Rightarrow> nat \<Rightarrow> md" where
  "mza_restore dc comp_str olen =
     (let mz = md_zero\<lparr>orig_len := (if 0 < olen then olen else unat (10 * of_nat (length comp_str) :: u64))\<rparr>;
          (e, out) = df_uncompress dc (orig_len mz) comp_str;
          mz = mz\<lparr>md_err := e\<rparr>
      in if e \<noteq> 0 then mz\<lparr>orig_data := None, orig_len := 0\<rparr>
         else mz\<lparr>orig_data := Some out, orig_len := length out\<rparr>)"

text \<open>What \<open>mza_free\<close> overwrites before it frees: every byte of both buffers and the struct.\<close>

definition mza_free :: "md \<Rightarrow> md" where
  "mza_free mz = md_zero\<lparr>
     orig_data := map_option (\<lambda>d. replicate (orig_len mz) 0 @ drop (orig_len mz) d) (orig_data mz),
     comp_data := map_option (\<lambda>d. replicate (comp_len mz) 0 @ drop (comp_len mz) d) (comp_data mz)\<rparr>"

text \<open>What a program is run with.\<close>

record 'n client_env =
  cl_curl :: "'n curl"
  cl_gcrypt :: gcrypt
  cl_deflate :: deflate
  cl_files :: filesystem
  cl_can_write :: "string \<Rightarrow> bool"
  cl_ndebug :: bool

text \<open>What a program leaves: text on its standard output, and a file it has written.\<close>

record client_output =
  stdout_text :: string
  written :: "(string \<times> byte list) option"

abbreviation printed :: "string \<Rightarrow> client_output" where
  "printed s \<equiv> \<lparr>stdout_text = s, written = None\<rparr>"

text \<open>The exit status, the output and the state of the other side.\<close>

type_synonym 'n outcome = "int \<times> client_output \<times> 'n"

definition run_client :: "'g parsed \<Rightarrow> ('g \<Rightarrow> fault + 'n outcome) \<Rightarrow> 'n outcome parsed" where
  "run_client p m =
     (case p of
        Parsed g \<Rightarrow> (case m g of Inl e \<Rightarrow> Crash e | Inr r \<Rightarrow> Parsed r)
      | Usage_Shown \<Rightarrow> Usage_Shown
      | Failure \<Rightarrow> Failure
      | Crash e \<Rightarrow> Crash e)"

section \<open>ws_get\<close>

definition inflate_msg :: "deflate \<Rightarrow> byte list \<Rightarrow> byte list option" where
  "inflate_msg dc pack =
     (let mz = mza_restore dc pack 0
      in case orig_data mz of
           None \<Rightarrow> None
         | Some d \<Rightarrow> if orig_len mz = 0 then None else Some (take (orig_len mz) d))"

text \<open>The destination is allocated with one byte more than the bound; what the decoder writes and the
  terminating NUL behind it have to fit.\<close>

definition decode_msg :: "bool \<Rightarrow> string option \<Rightarrow> nat \<Rightarrow> fault + byte list option" where
  "decode_msg ndebug msg len =
     bind_fault (Z85_decode_with_padding_bound msg (of_nat len)) (\<lambda>bound.
     bind_fault (Z85_decode_with_padding ndebug msg True len) (\<lambda>dec.
       let bufsize = unat (1 + bound) in
       if length dec = 0 then Inr None
       else if bufsize < length dec + 1 then Inl OOB_Write
       else Inr (Some dec)))"

definition handle_page ::
    "bool \<Rightarrow> deflate \<Rightarrow> (string \<Rightarrow> bool) \<Rightarrow> string option \<Rightarrow> curlresp \<Rightarrow> fault + client_output" where
  "handle_page ndebug dc can_write g_filename r =
     bind_fault (decode_msg ndebug (resp_page r) (nat (bytecount r))) (\<lambda>decoded.
       case decoded of
         None \<Rightarrow> Inr (printed [])
       | Some data \<Rightarrow>
           (case (if 6 < length data \<and> data ! 0 = 0x78 \<and> data ! 1 = 0x01 then inflate_msg dc data
                  else Some data) of
              None \<Rightarrow> Inr (printed [])
            | Some data \<Rightarrow>
                (case g_filename of
                   Some f \<Rightarrow> Inr \<lparr>stdout_text = [], written = (if can_write f then Some (f, data) else None)\<rparr>
                 | None \<Rightarrow> Inr (printed (cstr (of_bytes data))))))"

record get_globals =
  gg_host :: "string option"
  gg_port :: u16
  gg_token :: "string option"
  gg_filename :: "string option"
  gg_secure :: bool

definition get_globals_zero :: get_globals where
  "get_globals_zero =
     \<lparr>gg_host = None, gg_port = 0, gg_token = None, gg_filename = None, gg_secure = False\<rparr>"

definition get_options :: "options list" where
  "get_options =
     [option_entry 1 (Some ''host'') ''Host to Connect to'' (Some ''H'') True,
      option_entry 2 (Some ''port'') ''Port to Connect to'' (Some ''P'') True,
      option_entry 3 (Some ''token'') ''Hash Token to request'' (Some ''t'') True,
      option_entry 4 (Some ''file'') ''Save data to file'' (Some ''f'') True,
      option_entry 5 (Some ''https'') ''Use HTTPS'' (Some ''s'') False]"

definition get_set_option :: "int \<times> string option \<Rightarrow> get_globals \<Rightarrow> get_globals" where
  "get_set_option e g =
     (let k = fst e; args = (case snd e of None \<Rightarrow> [] | Some s \<Rightarrow> s) in
      if k = 1 then g\<lparr>gg_host := Some args\<rparr>
      else if k = 2 then g\<lparr>gg_port := word_of_int (c_atoi args)\<rparr>
      else if k = 3 then g\<lparr>gg_token := Some args\<rparr>
      else if k = 4 then g\<lparr>gg_filename := Some args\<rparr>
      else if k = 5 then g\<lparr>gg_secure := True\<rparr>
      else g)"

definition get_check :: "get_globals \<Rightarrow> get_globals parsed" where
  "get_check g =
     (if gg_host g = None then Failure
      else if gg_port g = 0 then Failure
      else if gg_token g = None then Failure
      else Parsed g)"

definition get_parse_args :: "string list \<Rightarrow> get_globals parsed" where
  "get_parse_args argv =
     (let (events, fin) = scan_args argv get_options 1
      in after_scan fin (get_check (fold get_set_option events get_globals_zero)))"

text \<open>The body of \<open>main\<close> after \<open>parse_args\<close>; a null token would be read by \<open>strlen\<close>.\<close>

definition get_run :: "'n client_env \<Rightarrow> get_globals \<Rightarrow> 'n \<Rightarrow> fault + 'n outcome" where
  "get_run env g n =
     (case gg_token g of
        None \<Rightarrow> Inl OOB_Read
      | Some token \<Rightarrow>
          (case create_url (str_or_null (gg_host g)) (gg_port g) token (gg_secure g) of
             None \<Rightarrow> Inr (1, printed [], n)
           | Some u \<Rightarrow>
               let (z, resp, n) = ws_curl_get (cl_curl env) u curlresp_zero n in
               if z \<noteq> 0 then Inr (1, printed [], n)
               else if http_code resp \<noteq> 200 then Inr (1, printed [], n)
               else bind_fault
                      (handle_page (cl_ndebug env) (cl_deflate env) (cl_can_write env) (gg_filename g) resp)
                      (\<lambda>out. Inr (0, out, n))))"

definition get_main :: "'n client_env \<Rightarrow> string list \<Rightarrow> 'n \<Rightarrow> 'n outcome parsed" where
  "get_main env argv n = run_client (get_parse_args argv) (\<lambda>g. get_run env g n)"

section \<open>ws_cfg\<close>

record cfg_globals =
  cg_host :: "string option"
  cg_port :: u16
  cg_secure :: bool

definition cfg_options :: "options list" where
  "cfg_options =
     [option_entry 1 (Some ''host'') ''Host to Connect to'' (Some ''H'') True,
      option_entry 2 (Some ''port'') ''Port to Connect to'' (Some ''P'') True,
      option_entry 3 (Some ''https'') ''Use HTTPS'' (Some ''s'') False]"

definition cfg_set_option :: "int \<times> string option \<Rightarrow> cfg_globals \<Rightarrow> cfg_globals" where
  "cfg_set_option e g =
     (let k = fst e; args = (case snd e of None \<Rightarrow> [] | Some s \<Rightarrow> s) in
      if k = 1 then g\<lparr>cg_host := Some args\<rparr>
      else if k = 2 then g\<lparr>cg_port := word_of_int (c_atoi args)\<rparr>
      else if k = 3 then g\<lparr>cg_secure := True\<rparr>
      else g)"

definition cfg_check :: "cfg_globals \<Rightarrow> cfg_globals parsed" where
  "cfg_check g =
     (if cg_host g = None then Failure else if cg_port g = 0 then Failure else Parsed g)"

definition cfg_parse_args :: "string list \<Rightarrow> cfg_globals parsed" where
  "cfg_parse_args argv =
     (let (events, fin) = scan_args argv cfg_options 1
      in after_scan fin (cfg_check (fold cfg_set_option events
           \<lparr>cg_host = None, cg_port = 0, cg_secure = False\<rparr>)))"

definition cfg_run :: "'n client_env \<Rightarrow> cfg_globals \<Rightarrow> 'n \<Rightarrow> fault + 'n outcome" where
  "cfg_run env g n =
     (let u = cfg_create_url (str_or_null (cg_host g)) (cg_port g) (cg_secure g);
          (z, resp, n) = ws_curl_get (cl_curl env) u curlresp_zero n
      in if z \<noteq> 0 then Inr (1, printed [], n)
         else if http_code resp \<noteq> 200 then Inr (1, printed [], n)
         else Inr (0, printed (str_or_null (map_option cstr (resp_page resp))), n))"

definition cfg_main :: "'n client_env \<Rightarrow> string list \<Rightarrow> 'n \<Rightarrow> 'n outcome parsed" where
  "cfg_main env argv n = run_client (cfg_parse_args argv) (\<lambda>g. cfg_run env g n)"

section \<open>ws_post\<close>

text \<open>The text printed at verbosity 2 comes with each result.\<close>

definition encode_msg ::
    "bool \<Rightarrow> deflate \<Rightarrow> bool \<Rightarrow> int \<Rightarrow> byte list \<Rightarrow> nat \<Rightarrow> fault + string \<times> string option" where
  "encode_msg ndebug dc g_comp verbosity msg len =
     (let mz = (if g_comp then Some (mza_squash dc (take len msg)) else None);
          (out, msg, len) =
            (case mz of
               None \<Rightarrow> ([], msg, len)
             | Some z \<Rightarrow>
                 (case comp_data z of
                    Some d \<Rightarrow>
                      if comp_len z \<noteq> 0 \<and> comp_len z < len then
                        (if 2 \<le> verbosity then
                           ''Using Compression: ('' @ show_nat (comp_len z) @ '' < '' @ show_nat len @ '')'' @ NL
                         else [],
                         d, comp_len z)
                      else ([], msg, len)
                  | None \<Rightarrow> ([], msg, len)))
      in bind_fault (Z85_encode_with_padding ndebug (Some msg) True len) (\<lambda>z85block.
           let bufsize = unat (1 + Z85_encode_with_padding_bound (of_nat len)) in
           if length z85block = 0 then Inr (out, None)
           else if bufsize < length z85block + 1 then Inl OOB_Write
           else Inr (out, Some z85block)))"

definition post_msg :: "'n curl \<Rightarrow> int \<Rightarrow> string \<Rightarrow> string \<Rightarrow> 'n \<Rightarrow> string \<times> int \<times> 'n" where
  "post_msg cu verbosity u z85block n =
     (let p = \<lparr>cp_data = z85block, cp_size = int (length (cstr z85block))\<rparr>;
          out = (if 2 \<le> verbosity then ''Uploading: '' @ show_int (cp_size p) @ '' bytes'' @ NL else []);
          (curlerr, resp, n) = ws_curl_post cu u curlresp_zero p n;
          httperr = (if curlerr \<noteq> 0 then 0 else if http_code resp \<noteq> 200 then 1 else 0 :: int)
      in (out, if curlerr \<noteq> 0 \<or> httperr \<noteq> 0 then 1 else 0, n))"

record post_globals =
  pg_host :: "string option"
  pg_port :: u16
  pg_alg :: int
  pg_filename :: "string option"
  pg_message :: "string option"
  pg_token :: "string option"
  pg_verbosity :: int
  pg_msglen :: int
  pg_secure :: bool
  pg_comp :: bool

definition post_globals_zero :: post_globals where
  "post_globals_zero =
     \<lparr>pg_host = None, pg_port = 0, pg_alg = 0, pg_filename = None, pg_message = None, pg_token = None,
      pg_verbosity = 1, pg_msglen = 0, pg_secure = False, pg_comp = False\<rparr>"

definition encode_msg_and_post ::
    "'n client_env \<Rightarrow> post_globals \<Rightarrow> string \<Rightarrow> u16 \<Rightarrow> int \<Rightarrow> byte list \<Rightarrow> nat \<Rightarrow> 'n \<Rightarrow>
     fault + string \<times> string option \<times> 'n" where
  "encode_msg_and_post env g host port alg msg len n =
     bind_fault (encode_msg (cl_ndebug env) (cl_deflate env) (pg_comp g) (pg_verbosity g) msg len)
       (\<lambda>(out, block). Inr (
         case block of
           None \<Rightarrow> (out, None, n)
         | Some z85block \<Rightarrow>
             (case (case pg_token g of Some t \<Rightarrow> Some t | None \<Rightarrow> create_token (cl_gcrypt env) alg msg len) of
                None \<Rightarrow> (out, None, n)
              | Some token \<Rightarrow>
                  (case create_url host port token (pg_secure g) of
                     None \<Rightarrow> (out, None, n)
                   | Some u \<Rightarrow>
                       let (out', e, n) = post_msg (cl_curl env) (pg_verbosity g) u z85block n
                       in (out @ out', if e \<noteq> 0 then None else Some token, n)))))"

definition post_valid_token :: "string \<Rightarrow> bool" where
  "post_valid_token token \<longleftrightarrow>
     int (length token) \<in> {HASHLEN128, HASHLEN160, HASHLEN224, HASHLEN256, HASHLEN384, HASHLEN512}"

definition post_options :: "options list" where
  "post_options =
     [option_entry 1 (Some ''host'') ''Host to Connect to'' (Some ''H'') True,
      option_entry 2 (Some ''port'') ''Port to Connect to'' (Some ''P'') True,
      option_entry 3 (Some ''alg'') ''Algorithm to use (1 - 6)'' (Some ''a'') True,
      option_entry 4 (Some ''file'') ''File to encode and post'' (Some ''f'') True,
      option_entry 5 (Some ''msg'') ''Message to encode and post'' (Some ''m'') True,
      option_entry 6 (Some ''token'') ''Use this token when posting'' (Some ''t'') True,
      option_entry 7 (Some ''https'') ''Use HTTPS'' (Some ''s'') False,
      option_entry 8 (Some ''comp'') ''Attempt compression'' (Some ''c'') False,
      option_entry 10 (Some ''quiet'') ''Decrease verbosity'' (Some ''q'') False,
      option_entry 11 (Some ''verbose'') ''Increase verbosity'' (Some ''v'') False]"

definition post_set_option :: "int \<times> string option \<Rightarrow> post_globals \<Rightarrow> post_globals" where
  "post_set_option e g =
     (let k = fst e; args = (case snd e of None \<Rightarrow> [] | Some s \<Rightarrow> s) in
      if k = 1 then g\<lparr>pg_host := Some args\<rparr>
      else if k = 2 then g\<lparr>pg_port := word_of_int (c_atoi args)\<rparr>
      else if k = 3 then g\<lparr>pg_alg := c_atoi args\<rparr>
      else if k = 4 then g\<lparr>pg_filename := Some args\<rparr>
      else if k = 5 then g\<lparr>pg_message := Some args\<rparr>
      else if k = 6 then g\<lparr>pg_token := Some args\<rparr>
      else if k = 7 then g\<lparr>pg_secure := True\<rparr>
      else if k = 8 then g\<lparr>pg_comp := True\<rparr>
      else if k = 10 then g\<lparr>pg_verbosity := 0\<rparr>
      else if k = 11 then g\<lparr>pg_verbosity := 2\<rparr>
      else g)"

text \<open>The checks of the options, then the message: read from the file, or measured by \<open>strlen\<close>.\<close>

definition post_load :: "filesystem \<Rightarrow> post_globals \<Rightarrow> post_globals parsed" where
  "post_load fs g =
     (case (case pg_filename g of
              None \<Rightarrow> Some g
            | Some f \<Rightarrow>
                let g = g\<lparr>pg_msglen := file_size fs f\<rparr>
                in if pg_msglen g \<le> 0 then None
                   else (case get_file fs f of None \<Rightarrow> None | Some d \<Rightarrow> Some (g\<lparr>pg_message := Some d\<rparr>))) of
        None \<Rightarrow> Failure
      | Some g \<Rightarrow>
          let g = (if pg_msglen g = 0
                   then g\<lparr>pg_msglen := int (length (cstr (case pg_message g of None \<Rightarrow> [] | Some m \<Rightarrow> m)))\<rparr>
                   else g)
          in if pg_msglen g < 1 then Failure else Parsed g)"

definition post_check :: "filesystem \<Rightarrow> post_globals \<Rightarrow> post_globals parsed" where
  "post_check fs g =
     (if pg_host g = None then Failure
      else if pg_port g = 0 then Failure
      else if (case pg_token g of
                 Some t \<Rightarrow> \<not> post_valid_token t \<or> pg_alg g \<noteq> 0
               | None \<Rightarrow> pg_alg g < HASHALG128 \<or> HASHALG512 < pg_alg g) then Failure
      else if pg_filename g \<noteq> None \<and> pg_message g \<noteq> None then Failure
      else if pg_filename g = None \<and> pg_message g = None then Failure
      else post_load fs g)"

definition post_parse_args :: "filesystem \<Rightarrow> string list \<Rightarrow> post_globals parsed" where
  "post_parse_args fs argv =
     (let (events, fin) = scan_args argv post_options 1
      in after_scan fin (post_check fs (fold post_set_option events post_globals_zero)))"

definition post_run :: "'n client_env \<Rightarrow> post_globals \<Rightarrow> 'n \<Rightarrow> fault + 'n outcome" where
  "post_run env g n =
     bind_fault
       (encode_msg_and_post env g (str_or_null (pg_host g)) (pg_port g) (pg_alg g)
         (to_bytes (case pg_message g of None \<Rightarrow> [] | Some m \<Rightarrow> m)) (nat (pg_msglen g)) n)
       (\<lambda>(out, token, n). Inr (
         case token of
           None \<Rightarrow> (1, printed out, n)
         | Some t \<Rightarrow> (0, printed (out @ (if 1 \<le> pg_verbosity g then ''Token: '' @ t @ NL else [])), n)))"

definition post_main :: "'n client_env \<Rightarrow> string list \<Rightarrow> 'n \<Rightarrow> 'n outcome parsed" where
  "post_main env argv n =
     (if ws_gcinit (cl_gcrypt env) \<noteq> 0 then Parsed (1, printed [], n)
      else run_client (post_parse_args (cl_files env) argv) (\<lambda>g. post_run env g n))"

section \<open>Bytes and characters\<close>

lemma length_to_bytes [simp]: "length (to_bytes s) = length s" "to_bytes s = [] \<longleftrightarrow> s = []"
  by (simp_all add: to_bytes_def)

lemma of_bytes_to_bytes [simp]: "of_bytes (to_bytes s) = s"
  by (simp add: of_bytes_def to_bytes_def o_def unsigned_of_nat take_bit_nat_eq_self)

section \<open>What is sent\<close>

text \<open>The bytes that \<open>encode_msg\<close> encodes: the compressed message when that is shorter.\<close>

definition payload :: "deflate \<Rightarrow> bool \<Rightarrow> byte list \<Rightarrow> byte list" where
  "payload dc g_comp msg =
     (let (e, out) = df_compress dc (df_bound dc (length msg)) msg
      in if g_comp \<and> e = 0 \<and> out \<noteq> [] \<and> length out < length msg then out else msg)"

lemma payload_nonempty: "msg \<noteq> [] \<Longrightarrow> payload dc g_comp msg \<noteq> []"
  by (simp add: payload_def split: prod.split)

lemma length_payload: "length (payload dc g_comp msg) \<le> length msg"
  by (simp add: payload_def split: prod.split)

lemma padded_size_fits:
  assumes "n * 5 < 2 ^ 62"
  shows "padded_size n < unat (1 + Z85_encode_with_padding_bound (of_nat n))"
proof -
  have "unat (Z85_encode_with_padding_bound (of_nat n)) = padded_size n"
    using assms by (intro unat_padding_bound) simp
  moreover have "padded_size n < 2 ^ 63"
    using assms by (cases n) (simp_all add: padded_size_Suc, simp add: padded_size_def)
  ultimately have "unat (1 + Z85_encode_with_padding_bound (of_nat n)) = 1 + padded_size n"
    by (simp add: unat_word_ariths(1))
  then show ?thesis by simp
qed

lemma encode_msg_payload:
  assumes "msg \<noteq> []" and "length msg * 5 < 2 ^ 62"
  shows "\<exists>out. encode_msg nd dc g_comp v msg (length msg) = Inr (out, Some (z85_text (payload dc g_comp msg)))"
proof -
  obtain e out where df: "df_compress dc (df_bound dc (length msg)) msg = (e, out)" by fastforce
  have text_ne: "z85_text m \<noteq> []" if "m \<noteq> []" for m using z85_text_Cons(1) [OF that] by simp
  have room: "\<not> unat (1 + Z85_encode_with_padding_bound (of_nat (length m))) < length (z85_text m) + 1"
    if "length m \<le> length msg" for m :: "byte list"
    using padded_size_fits [of "length m"] that assms(2) by (simp add: length_z85_text)
  show ?thesis
  proof (cases "g_comp \<and> e = 0 \<and> out \<noteq> [] \<and> length out < length msg")
    case True
    then show ?thesis
      using Z85_encode_with_padding_text [of nd out] text_ne [of out] room [of out]
      by (simp add: encode_msg_def payload_def mza_squash_def md_zero_def Let_def df)
  next
    case False
    then have "encode_msg nd dc g_comp v msg (length msg) = Inr ([], Some (z85_text msg))"
      using Z85_encode_with_padding_text [of nd msg] text_ne [OF assms(1)] room [of msg]
      by (auto simp: encode_msg_def mza_squash_def md_zero_def Let_def df)
    moreover have "payload dc g_comp msg = msg" using False by (auto simp: payload_def df)
    ultimately show ?thesis by simp
  qed
qed

text \<open>What starts like a zlib stream; such data is inflated before it is delivered.\<close>

definition looks_compressed :: "byte list \<Rightarrow> bool" where
  "looks_compressed data \<longleftrightarrow> 6 < length data \<and> data ! 0 = 0x78 \<and> data ! 1 = 0x01"

lemma decode_msg_text:
  assumes "p \<noteq> []" and "length p * 5 < 2 ^ 62"
  shows "decode_msg nd (Some (z85_text p)) (length (z85_text p)) = Inr (Some p)"
proof -
  obtain b where b: "Z85_decode_with_padding_bound (Some (z85_text p)) (of_nat (length (z85_text p))) = Inr b"
      "unat b = length p"
    by (rule Z85_decode_bound_z85_text [OF assms])
  have "unat (1 + b) = 1 + length p" using b(2) assms(2) by (simp add: unat_word_ariths(1))
  then show ?thesis
    using assms b(1) Z85_decode_z85_text [OF assms(1), of nd] by (simp add: decode_msg_def)
qed

text \<open>What \<open>handle_page\<close> does with the bytes it has decoded.\<close>

definition deliver_data :: "deflate \<Rightarrow> (string \<Rightarrow> bool) \<Rightarrow> string option \<Rightarrow> byte list \<Rightarrow> client_output" where
  "deliver_data dc can_write f p =
     (case (if looks_compressed p then inflate_msg dc p else Some p) of
        None \<Rightarrow> printed []
      | Some d \<Rightarrow> (case f of Some f \<Rightarrow> \<lparr>stdout_text = [], written = (if can_write f then Some (f, d) else None)\<rparr>
                   | None \<Rightarrow> printed (cstr (of_bytes d))))"

lemma handle_page_text:
  assumes "p \<noteq> []" and "length p * 5 < 2 ^ 62"
  shows "handle_page nd dc cw f \<lparr>bytecount = int (length (z85_text p)), resp_page = Some (z85_text p), http_code = k\<rparr> =
    Inr (deliver_data dc cw f p)"
  using decode_msg_text [OF assms, of nd]
  by (auto simp: handle_page_def deliver_data_def looks_compressed_def split: option.split)

section \<open>The checks of ws_post\<close>

lemma post_load_Parsed:
  assumes "post_load fs g0 = Parsed g" and "pg_msglen g0 = 0"
  shows "pg_host g = pg_host g0" and "pg_port g = pg_port g0" and "pg_token g = pg_token g0"
    and "pg_alg g = pg_alg g0" and "pg_filename g = pg_filename g0"
    and "pg_secure g = pg_secure g0" and "pg_comp g = pg_comp g0" and "pg_verbosity g = pg_verbosity g0"
    and "\<exists>m. pg_message g = Some m \<and> 0 < pg_msglen g \<and>
      pg_msglen g = (if pg_filename g = None then int (length (cstr m)) else int (length m))"
proof -
  have "(\<exists>k m. g = g0\<lparr>pg_msglen := k\<rparr> \<and> pg_message g0 = Some m \<and> pg_filename g0 = None \<and> 0 < k \<and>
            k = int (length (cstr m))) \<or>
     (\<exists>d f. g = g0\<lparr>pg_msglen := int (length d), pg_message := Some d\<rparr> \<and> d \<noteq> [] \<and> pg_filename g0 = Some f)"
  proof (cases "pg_filename g0")
    case None
    then show ?thesis
      using assms by (cases "pg_message g0") (auto simp: post_load_def cstr_def Let_def split: if_splits)
  next
    case (Some f)
    then obtain d where "get_file fs f = Some d" "g = g0\<lparr>pg_msglen := file_size fs f, pg_message := Some d\<rparr>"
      using assms(1) by (auto simp: post_load_def Let_def split: if_splits option.splits)
    then show ?thesis using get_file_Some [of fs f d] Some by (auto simp: file_size_def)
  qed
  then show "pg_host g = pg_host g0" "pg_port g = pg_port g0" "pg_token g = pg_token g0"
    "pg_alg g = pg_alg g0" "pg_filename g = pg_filename g0"
    "pg_secure g = pg_secure g0" "pg_comp g = pg_comp g0" "pg_verbosity g = pg_verbosity g0"
    "\<exists>m. pg_message g = Some m \<and> 0 < pg_msglen g \<and>
      pg_msglen g = (if pg_filename g = None then int (length (cstr m)) else int (length m))"
    by (elim disjE exE conjE; simp)+
qed

lemma post_check_Parsed:
  assumes "post_check fs g0 = Parsed g" and "pg_msglen g0 = 0"
  shows "pg_host g \<noteq> None" and "pg_port g \<noteq> 0"
    and "case pg_token g of Some t \<Rightarrow> post_valid_token t \<and> pg_alg g = 0 | None \<Rightarrow> 1 \<le> pg_alg g \<and> pg_alg g \<le> 6"
    and "\<exists>m. pg_message g = Some m \<and> 0 < pg_msglen g \<and>
      pg_msglen g = (if pg_filename g = None then int (length (cstr m)) else int (length m))"
proof -
  have c: "pg_host g0 \<noteq> None" "pg_port g0 \<noteq> 0" "post_load fs g0 = Parsed g"
    "case pg_token g0 of Some t \<Rightarrow> post_valid_token t \<and> pg_alg g0 = 0 | None \<Rightarrow> 1 \<le> pg_alg g0 \<and> pg_alg g0 \<le> 6"
    using assms(1) by (auto simp: post_check_def HASHALG128_def HASHALG512_def split: if_splits option.splits)
  note l = post_load_Parsed [OF c(3) assms(2)]
  show "pg_host g \<noteq> None" "pg_port g \<noteq> 0" using c l by simp_all
  show "case pg_token g of Some t \<Rightarrow> post_valid_token t \<and> pg_alg g = 0 | None \<Rightarrow> 1 \<le> pg_alg g \<and> pg_alg g \<le> 6"
    unfolding l(3,4) by (rule c(4))
  show "\<exists>m. pg_message g = Some m \<and> 0 < pg_msglen g \<and>
      pg_msglen g = (if pg_filename g = None then int (length (cstr m)) else int (length m))" by (rule l(9))
qed

lemma fold_post_msglen: "pg_msglen (fold post_set_option es g) = pg_msglen g"
  by (induction es arbitrary: g) (simp_all add: post_set_option_def Let_def)

lemma node_of_length_valid: "node_of_length (length t) \<noteq> None \<longleftrightarrow> post_valid_token t"
  by (auto simp: node_of_length_def post_valid_token_def)

lemma created_token_valid:
  assumes "gcrypt_sizes gc" and "create_token gc alg msg n = Some t"
  shows "post_valid_token t"
proof -
  obtain a where "valid_token (2 * int (digest_size a)) t"
    using create_token_text [OF assms] by blast
  then show ?thesis
    by (cases a) (auto simp: post_valid_token_def valid_token_def digest_size_def hash_codes)
qed

text \<open>C38: the checks of ws_post. Whatever the command line and the files, when \<open>main\<close> goes on there is
  a host, a port, and a non-empty message of the length announced, either a token was given or an
  algorithm chosen, and the token that is used always has a length for which there is a storage
  node: building its URL cannot fail.\<close>

theorem post_arguments_checked:
  assumes "post_parse_args fs argv = Parsed g" and "gcrypt_sizes gc"
  shows "pg_host g \<noteq> None \<and> pg_port g \<noteq> 0 \<and>
    (\<exists>m. pg_message g = Some m \<and> 0 < pg_msglen g \<and> pg_msglen g \<le> int (length m)) \<and>
    (pg_token g \<noteq> None \<longleftrightarrow> pg_alg g = 0) \<and>
    (\<forall>t msg n host. pg_token g = Some t \<or> create_token gc (pg_alg g) msg n = Some t \<longrightarrow>
       create_url host (pg_port g) t (pg_secure g) \<noteq> None)"
proof -
  obtain es where p: "post_check fs (fold post_set_option es post_globals_zero) = Parsed g"
    using assms(1) by (auto simp: post_parse_args_def after_scan_def split_beta split: ending.splits)
  have z: "pg_msglen (fold post_set_option es post_globals_zero) = 0"
    by (simp add: fold_post_msglen post_globals_zero_def)
  note c = post_check_Parsed [OF p z]
  have len: "length (cstr m) \<le> length m" for m by (simp add: cstr_def length_takeWhile_le)
  obtain m where "pg_message g = Some m" "0 < pg_msglen g" "pg_msglen g \<le> int (length m)"
    using c(4) len by (auto split: if_splits)
  moreover have "create_url host (pg_port g) t (pg_secure g) \<noteq> None"
    if "pg_token g = Some t \<or> create_token gc (pg_alg g) msg n = Some t" for t msg n host
  proof -
    have "post_valid_token t" using that c(3) created_token_valid [OF assms(2)] by auto
    then have "node_of_length (length t) \<noteq> None" by (simp only: node_of_length_valid)
    then show ?thesis by (auto simp: create_url_def)
  qed
  moreover have "pg_token g \<noteq> None \<longleftrightarrow> pg_alg g = 0" using c(3) by (auto split: option.splits)
  ultimately show ?thesis using c(1,2) by blast
qed

definition sample_gcrypt :: gcrypt where
  "sample_gcrypt = \<lparr>gcry_check_version = True, gcry_md_open = (\<lambda>a. True), gcry_dlen = digest_size,
     gcry_digest = (\<lambda>a m. take (digest_size a) (m @ replicate (digest_size a) 0))\<rparr>"

lemma sample_gcrypt_sizes [simp]: "gcrypt_sizes sample_gcrypt"
  by (auto simp: gcrypt_sizes_def sample_gcrypt_def min_def)

lemma post_options_ok: "table_ok post_options"
  by (simp add: table_ok_def entry_ok_def post_options_def)

text \<open>The documented way to post a message.\<close>

lemma post_line:
  assumes "0 < p" and "p < 65536" and "1 \<le> alg" and "alg \<le> 6"
    and "\<not> starts_dash host" and "\<not> starts_dash msg" and "msg \<noteq> []" and "no_nul msg"
  shows "post_parse_args fs [prog, ''-H'', host, ''-P'', show_nat p, ''-a'', show_nat alg, ''-m'', msg] =
    Parsed (post_globals_zero\<lparr>pg_host := Some host, pg_port := of_nat p, pg_alg := int alg,
      pg_message := Some msg, pg_msglen := int (length msg)\<rparr>)"
proof -
  let ?h = "\<lparr>opt_used = post_options ! 0, short_form = True, arg_given = host\<rparr>"
  let ?p = "\<lparr>opt_used = post_options ! 1, short_form = True, arg_given = show_nat p\<rparr>"
  let ?a = "\<lparr>opt_used = post_options ! 2, short_form = True, arg_given = show_nat alg\<rparr>"
  let ?m = "\<lparr>opt_used = post_options ! 4, short_form = True, arg_given = msg\<rparr>"
  have "\<forall>u \<in> set [?h, ?p, ?a, ?m]. usage_ok post_options u"
    using show_nat_no_dash assms(5,6) by (auto simp: usage_ok_def post_options_def)
  from scan_words [OF post_options_ok this, of prog]
  have sc: "scan_args [prog, ''-H'', host, ''-P'', show_nat p, ''-a'', show_nat alg, ''-m'', msg] post_options 1 =
      ([(1, Some host), (2, Some (show_nat p)), (3, Some (show_nat alg)), (5, Some msg)], Finished)"
    by (simp add: words_def event_def option_word_def post_options_def)
  have "(of_nat p :: u16) \<noteq> 0"
    using assms(1,2) by (auto simp: word_unat_eq_iff unsigned_of_nat take_bit_nat_eq_self)
  moreover have "c_atoi (show_nat alg) = int alg" using assms(4) by (intro c_atoi_show_nat) simp
  ultimately show ?thesis
    using port_read [OF assms(2)] assms(3,4,7,8) unfolding post_parse_args_def sc
    by (simp add: after_scan_def post_set_option_def post_check_def post_load_def post_globals_zero_def
        HASHALG128_def HASHALG512_def Let_def)
qed

definition sample_files :: filesystem where
  "sample_files = \<lparr>fs_stat = (\<lambda>p. No_Entry), fs_open = (\<lambda>p. None)\<rparr>"

theorem post_arguments_checked_witness:
  "\<exists>g. post_parse_args sample_files [''ws_post'', ''-H'', ''localhost'', ''-P'', show_nat 80, ''-a'', show_nat 4, ''-m'', ''hi''] = Parsed g \<and>
     pg_port g = 80 \<and> create_url ''localhost'' (pg_port g) (the (create_token sample_gcrypt (pg_alg g) [1, 2] 2)) (pg_secure g) \<noteq> None"
proof -
  obtain g where g: "post_parse_args sample_files [''ws_post'', ''-H'', ''localhost'', ''-P'', show_nat 80, ''-a'', show_nat 4, ''-m'', ''hi''] = Parsed g"
      "pg_port g = 80" "pg_alg g = 4"
    using post_line [of 80 4 "''localhost''" "''hi''" sample_files "''ws_post''"]
    by (simp add: starts_dash_def no_nul_def post_globals_zero_def del: show_nat.simps)
  have "create_token sample_gcrypt (pg_alg g) [1, 2] 2 \<noteq> None"
    by (simp add: g(3) create_token_def gcalg_of_def hash_codes sample_gcrypt_def)
  then show ?thesis using post_arguments_checked [OF g(1) sample_gcrypt_sizes] g by fastforce
qed

definition url_base :: "string \<Rightarrow> u16 \<Rightarrow> bool \<Rightarrow> string" where
  "url_base host port secure =
     (if secure then ''https'' else ''http'') @ ''://'' @ host @ '':'' @ show_nat (unat port)"

lemma create_url_store:
  assumes "post_valid_token t" and "length (url_base host port secure) \<le> 1900"
  obtains r len alg where "(r, len, store_node api alg len) \<in> set (store_nodes api)"
    and "int (length t) = len" and "create_url host port t secure = Some (url_base host port secure @ r @ t)"
proof -
  note conclude = that
  have len: "length t \<le> 128" using assms(1) by (auto simp: post_valid_token_def hash_codes)
  have url: "create_url host port t secure =
      Some (url_base host port secure @ (''/store/'' @ node @ ''/'') @ t)"
    if "node_of_length (length t) = Some node" "length node = 3" for node
    using that assms(2) len by (simp add: create_url_def url_base_def snprintf_buf_def Let_def)
  have ok: thesis if "node_of_length (length t) = Some node" "length node = 3"
      "(''/store/'' @ node @ ''/'', int (length t), store_node api alg (int (length t))) \<in> set (store_nodes api)"
    for node alg
    by (rule conclude [OF that(3) refl]) (rule url [OF that(1,2)])
  consider "int (length t) = HASHLEN128" | "int (length t) = HASHLEN160" | "int (length t) = HASHLEN224"
    | "int (length t) = HASHLEN256" | "int (length t) = HASHLEN384" | "int (length t) = HASHLEN512"
    using assms(1) by (auto simp: post_valid_token_def)
  then show thesis
  proof cases
    case 1
    then show thesis by (intro ok [of "''128''" HASHALG128]) (simp_all add: node_of_length_def store_nodes_def node_defs)
  next
    case 2
    then show thesis by (intro ok [of "''160''" HASHALG160])
        (simp_all add: node_of_length_def store_nodes_def node_defs hash_codes)
  next
    case 3
    then show thesis by (intro ok [of "''224''" HASHALG224])
        (simp_all add: node_of_length_def store_nodes_def node_defs hash_codes)
  next
    case 4
    then show thesis by (intro ok [of "''256''" HASHALG256])
        (simp_all add: node_of_length_def store_nodes_def node_defs hash_codes)
  next
    case 5
    then show thesis by (intro ok [of "''384''" HASHALG384])
        (simp_all add: node_of_length_def store_nodes_def node_defs hash_codes)
  next
    case 6
    then show thesis by (intro ok [of "''512''" HASHALG512])
        (simp_all add: node_of_length_def store_nodes_def node_defs hash_codes)
  qed
qed

text \<open>C39: the token of a message. What \<open>create_token\<close> makes of any message with any of the six
  algorithms is a token the storage nodes accept: lower-case hexadecimal, so that the server stores
  under it unchanged; and the URL that \<open>create_url\<close> builds for it, for every host that leaves room in
  the buffer, is the base followed by the root of the one node for tokens of that length.\<close>

theorem created_token_names_a_node:
  assumes "gcrypt_sizes gc" and "create_token gc alg msg n = Some t"
    and "length (url_base host port secure) \<le> 1900"
  shows "\<exists>r len a. (r, len, store_node api a len) \<in> set (store_nodes api) \<and>
    create_url host port t secure = Some (url_base host port secure @ r @ t) \<and>
    convert_hash t len = Hash t"
proof -
  obtain m where m: "valid_token m t" "token_of t = t" using create_token_text [OF assms(1,2)] by blast
  obtain r len a where n: "(r, len, store_node api a len) \<in> set (store_nodes api)" "int (length t) = len"
      "create_url host port t secure = Some (url_base host port secure @ r @ t)"
    using create_url_store [OF created_token_valid [OF assms(1,2)] assms(3)] by metis
  have "valid_token len t" using m(1) n(2) by (simp add: valid_token_def)
  moreover have "len \<le> 255" using store_nodes_len [OF n(1)] by simp
  ultimately have "convert_hash t len = Hash t" using convert_hash_valid [of t len] n(2) m(2) by simp
  with n show ?thesis by blast
qed

theorem created_token_names_a_node_witness:
  "\<exists>t r len a. create_token sample_gcrypt 4 [1, 2] 2 = Some t \<and>
     (r, len, store_node plain_redis a len) \<in> set (store_nodes plain_redis) \<and>
     create_url ''localhost'' 80 t True = Some (url_base ''localhost'' 80 True @ r @ t)"
proof -
  obtain t where t: "create_token sample_gcrypt 4 [1, 2] 2 = Some t"
    by (simp add: create_token_def gcalg_of_def hash_codes sample_gcrypt_def)
  have "length (show_nat (unat (80 :: u16))) \<le> 5" by (rule length_show_nat) simp_all
  then have "length (url_base ''localhost'' 80 True) \<le> 1900" by (simp add: url_base_def)
  from created_token_names_a_node [OF sample_gcrypt_sizes t this, of plain_redis] t show ?thesis by blast
qed

end
