(* ===== verification/Miniz_Checksum.thy ===== *)
theory Miniz_Checksum
  imports WS_Prelude
begin

text \<open>
  The checksums of miniz.c: \<open>mz_adler32\<close>, which sums whole blocks before it reduces, and
  \<open>mz_crc32\<close> with its table. Both are shown equal to their definitions byte by byte and bit by bit.
\<close>

unbundle bit_operations_syntax

section \<open>Adler-32\<close>

definition MZ_ADLER32_INIT :: u64 where "MZ_ADLER32_INIT = 1"

definition adler_add :: "byte \<Rightarrow> u32 \<times> u32 \<Rightarrow> u32 \<times> u32" where
  "adler_add b = (\<lambda>(s1, s2). let s1 = s1 + ucast b; s2 = s2 + s1 in (s1, s2))"

text \<open>The unrolled loop over one block, and the loop over its last bytes.\<close>

fun adler_block :: "byte list \<Rightarrow> u32 \<times> u32 \<Rightarrow> u32 \<times> u32" where
  "adler_block (a # b # c # d # e # f # g # h # ptr) s =
     adler_block ptr (adler_add h (adler_add g (adler_add f (adler_add e
       (adler_add d (adler_add c (adler_add b (adler_add a s))))))))"
| "adler_block ptr s = fold adler_add ptr s"

definition adler_reduce :: "u32 \<times> u32 \<Rightarrow> u32 \<times> u32" where
  "adler_reduce = (\<lambda>(s1, s2). (s1 mod 65521, s2 mod 65521))"

function adler_blocks :: "nat \<Rightarrow> byte list \<Rightarrow> u32 \<times> u32 \<Rightarrow> u32 \<times> u32" where
  "adler_blocks block_len ptr s =
     (if ptr = [] then s
      else adler_blocks 5552 (drop block_len ptr) (adler_reduce (adler_block (take block_len ptr) s)))"
  by pat_completeness auto
termination
  by (relation "measure (\<lambda>(n, ptr, s). 2 * length ptr + (if n = 0 then 1 else 0))") auto

declare adler_blocks.simps [simp del]

definition mz_adler32 :: "u64 \<Rightarrow> byte list option \<Rightarrow> u64" where
  "mz_adler32 adler ptr =
     (case ptr of
        None \<Rightarrow> MZ_ADLER32_INIT
      | Some p \<Rightarrow>
          let s1 = ucast (adler AND 0xFFFF);
              s2 = ucast (drop_bit 16 adler);
              (s1, s2) = adler_blocks (length p mod 5552) p (s1, s2)
          in ucast (push_bit 16 s2 + s1))"

section \<open>CRC-32\<close>

definition MZ_CRC32_INIT :: u64 where "MZ_CRC32_INIT = 0"

definition s_crc_table :: "u32 list" where
  "s_crc_table =
    [0x00000000, 0x77073096, 0xEE0E612C, 0x990951BA, 0x076DC419, 0x706AF48F, 0xE963A535,
     0x9E6495A3, 0x0EDB8832, 0x79DCB8A4, 0xE0D5E91E, 0x97D2D988, 0x09B64C2B, 0x7EB17CBD,
     0xE7B82D07, 0x90BF1D91, 0x1DB71064, 0x6AB020F2, 0xF3B97148, 0x84BE41DE, 0x1ADAD47D,
     0x6DDDE4EB, 0xF4D4B551, 0x83D385C7, 0x136C9856, 0x646BA8C0, 0xFD62F97A, 0x8A65C9EC,
     0x14015C4F, 0x63066CD9, 0xFA0F3D63, 0x8D080DF5, 0x3B6E20C8, 0x4C69105E, 0xD56041E4,
     0xA2677172, 0x3C03E4D1, 0x4B04D447, 0xD20D85FD, 0xA50AB56B, 0x35B5A8FA, 0x42B2986C,
     0xDBBBC9D6, 0xACBCF940, 0x32D86CE3, 0x45DF5C75, 0xDCD60DCF, 0xABD13D59, 0x26D930AC,
     0x51DE003A, 0xC8D75180, 0xBFD06116, 0x21B4F4B5, 0x56B3C423, 0xCFBA9599, 0xB8BDA50F,
     0x2802B89E, 0x5F058808, 0xC60CD9B2, 0xB10BE924, 0x2F6F7C87, 0x58684C11, 0xC1611DAB,
     0xB6662D3D, 0x76DC4190, 0x01DB7106, 0x98D220BC, 0xEFD5102A, 0x71B18589, 0x06B6B51F,
     0x9FBFE4A5, 0xE8B8D433, 0x7807C9A2, 0x0F00F934, 0x9609A88E, 0xE10E9818, 0x7F6A0DBB,
     0x086D3D2D, 0x91646C97, 0xE6635C01, 0x6B6B51F4, 0x1C6C6162, 0x856530D8, 0xF262004E,
     0x6C0695ED, 0x1B01A57B, 0x8208F4C1, 0xF50FC457, 0x65B0D9C6, 0x12B7E950, 0x8BBEB8EA,
     0xFCB9887C, 0x62DD1DDF, 0x15DA2D49, 0x8CD37CF3, 0xFBD44C65, 0x4DB26158, 0x3AB551CE,
     0xA3BC0074, 0xD4BB30E2, 0x4ADFA541, 0x3DD895D7, 0xA4D1C46D, 0xD3D6F4FB, 0x4369E96A,
     0x346ED9FC, 0xAD678846, 0xDA60B8D0, 0x44042D73, 0x33031DE5, 0xAA0A4C5F, 0xDD0D7CC9,
     0x5005713C, 0x270241AA, 0xBE0B1010, 0xC90C2086, 0x5768B525, 0x206F85B3, 0xB966D409,
     0xCE61E49F, 0x5EDEF90E, 0x29D9C998, 0xB0D09822, 0xC7D7A8B4, 0x59B33D17, 0x2EB40D81,
     0xB7BD5C3B, 0xC0BA6CAD, 0xEDB88320, 0x9ABFB3B6, 0x03B6E20C, 0x74B1D29A, 0xEAD54739,
     0x9DD277AF, 0x04DB2615, 0x73DC1683, 0xE3630B12, 0x94643B84, 0x0D6D6A3E, 0x7A6A5AA8,
     0xE40ECF0B, 0x9309FF9D, 0x0A00AE27, 0x7D079EB1, 0xF00F9344, 0x8708A3D2, 0x1E01F268,
     0x6906C2FE, 0xF762575D, 0x806567CB, 0x196C3671, 0x6E6B06E7, 0xFED41B76, 0x89D32BE0,
     0x10DA7A5A, 0x67DD4ACC, 0xF9B9DF6F, 0x8EBEEFF9, 0x17B7BE43, 0x60B08ED5, 0xD6D6A3E8,
     0xA1D1937E, 0x38D8C2C4, 0x4FDFF252, 0xD1BB67F1, 0xA6BC5767, 0x3FB506DD, 0x48B2364B,
     0xD80D2BDA, 0xAF0A1B4C, 0x36034AF6, 0x41047A60, 0xDF60EFC3, 0xA867DF55, 0x316E8EEF,
     0x4669BE79, 0xCB61B38C, 0xBC66831A, 0x256FD2A0, 0x5268E236, 0xCC0C7795, 0xBB0B4703,
     0x220216B9, 0x5505262F, 0xC5BA3BBE, 0xB2BD0B28, 0x2BB45A92, 0x5CB36A04, 0xC2D7FFA7,
     0xB5D0CF31, 0x2CD99E8B, 0x5BDEAE1D, 0x9B64C2B0, 0xEC63F226, 0x756AA39C, 0x026D930A,
     0x9C0906A9, 0xEB0E363F, 0x72076785, 0x05005713, 0x95BF4A82, 0xE2B87A14, 0x7BB12BAE,
     0x0CB61B38, 0x92D28E9B, 0xE5D5BE0D, 0x7CDCEFB7, 0x0BDBDF21, 0x86D3D2D4, 0xF1D4E242,
     0x68DDB3F8, 0x1FDA836E, 0x81BE16CD, 0xF6B9265B, 0x6FB077E1, 0x18B74777, 0x88085AE6,
     0xFF0F6A70, 0x66063BCA, 0x11010B5C, 0x8F659EFF, 0xF862AE69, 0x616BFFD3, 0x166CCF45,
     0xA00AE278, 0xD70DD2EE, 0x4E048354, 0x3903B3C2, 0xA7672661, 0xD06016F7, 0x4969474D,
     0x3E6E77DB, 0xAED16A4A, 0xD9D65ADC, 0x40DF0B66, 0x37D83BF0, 0xA9BCAE53, 0xDEBB9EC5,
     0x47B2CF7F, 0x30B5FFE9, 0xBDBDF21C, 0xCABAC28A, 0x53B39330, 0x24B4A3A6, 0xBAD03605,
     0xCDD70693, 0x54DE5729, 0x23D967BF, 0xB3667A2E, 0xC4614AB8, 0x5D681B02, 0x2A6F2B94,
     0xB40BBE37, 0xC30C8EA1, 0x5A05DF1B, 0x2D02EF8D]"

definition crc_byte :: "byte \<Rightarrow> u32 \<Rightarrow> u32" where
  "crc_byte b crc32 = drop_bit 8 crc32 XOR s_crc_table ! unat ((crc32 XOR ucast b) AND 0xFF)"

fun crc_loop :: "byte list \<Rightarrow> u32 \<Rightarrow> u32" where
  "crc_loop (a # b # c # d # p) crc32 = crc_loop p (crc_byte d (crc_byte c (crc_byte b (crc_byte a crc32))))"
| "crc_loop p crc32 = fold crc_byte p crc32"

definition mz_crc32 :: "u64 \<Rightarrow> byte list \<Rightarrow> u64" where
  "mz_crc32 crc p = ucast (NOT (crc_loop p (ucast crc XOR 0xFFFFFFFF)))"

section \<open>Adler-32 is the checksum of its definition\<close>

text \<open>The definition: both sums reduced after every byte.\<close>

definition adler_spec :: "byte list \<Rightarrow> nat \<times> nat \<Rightarrow> nat \<times> nat" where
  "adler_spec = fold (\<lambda>b (a, c). ((a + unat b) mod 65521, (c + a + unat b) mod 65521))"

lemma adler_block_fold: "adler_block p s = fold adler_add p s"
  by (induction p s rule: adler_block.induct) simp_all

text \<open>The unreduced sums of a block stay below \<open>2 ^ 32\<close>: the reason for blocks of 5552 bytes.\<close>

lemma adler_add_bound:
  assumes "unat s1 \<le> 65535 + 255 * k" and "2 * unat s2 \<le> 2 * 65535 * (k + 1) + 255 * k * (k + 1)" and "k < 5552"
  shows "unat (fst (adler_add b (s1, s2))) = unat s1 + unat b"
    and "unat (snd (adler_add b (s1, s2))) = unat s2 + unat s1 + unat b"
    and "unat s1 + unat b \<le> 65535 + 255 * Suc k"
    and "2 * (unat s2 + unat s1 + unat b) \<le> 2 * 65535 * (Suc k + 1) + 255 * Suc k * (Suc k + 1)"
proof -
  have b: "unat b < 256" using unsigned_less [of b, where ?'a = nat] by simp
  have "unat (of_nat (unat b) :: u32) = unat b"
    using b by (subst unsigned_of_nat) (simp add: take_bit_nat_eq_self)
  then have ub: "unat (ucast b :: u32) = unat b" by simp
  show s1: "unat s1 + unat b \<le> 65535 + 255 * Suc k" using assms(1) b by simp
  have "2 * (unat s2 + unat s1 + unat b) \<le>
      2 * 65535 * (k + 1) + 255 * k * (k + 1) + 2 * (65535 + 255 * Suc k)"
    using assms(2) s1 by simp
  also have "\<dots> = 2 * 65535 * (Suc k + 1) + 255 * Suc k * (Suc k + 1)" by (simp add: algebra_simps)
  finally show s2: "2 * (unat s2 + unat s1 + unat b) \<le> 2 * 65535 * (Suc k + 1) + 255 * Suc k * (Suc k + 1)" .
  have "255 * Suc k * (Suc k + 1) \<le> 255 * 5552 * 5553"
    using assms(3) by (intro mult_le_mono) simp_all
  then have lim: "unat s2 + (unat s1 + unat b) < 2 ^ 32" using s2 assms(3) by simp
  then have "unat s1 + unat b < 2 ^ 32" by simp
  then have 1: "unat (s1 + ucast b) = unat s1 + unat b"
    using ub by (simp add: unat_word_ariths(1))
  show "unat (fst (adler_add b (s1, s2))) = unat s1 + unat b" using 1 by (simp add: adler_add_def Let_def)
  show "unat (snd (adler_add b (s1, s2))) = unat s2 + unat s1 + unat b"
    using 1 lim by (simp add: adler_add_def Let_def unat_word_ariths(1) [of s2])
qed

text \<open>A block from any state of two 16-bit sums: exact sums, hence the definition's sums modulo 65521.\<close>

lemma mod_sum3: "(x mod m + y mod m + z) mod m = (x + y + z) mod m" for x y z m :: nat
  by (metis mod_add_eq mod_add_left_eq)

lemma adler_fold:
  assumes "unat s1 \<le> 65535 + 255 * k" and "2 * unat s2 \<le> 2 * 65535 * (k + 1) + 255 * k * (k + 1)"
    and "k + length p \<le> 5552"
  shows "(let (a, c) = fold adler_add p (s1, s2) in (unat a mod 65521, unat c mod 65521)) =
    adler_spec p (unat s1 mod 65521, unat s2 mod 65521)"
  using assms
proof (induction p arbitrary: s1 s2 k)
  case (Cons b p)
  have "k < 5552" using Cons.prems(3) by simp
  note add = adler_add_bound [OF Cons.prems(1,2) this, of b]
  obtain t1 t2 where t: "adler_add b (s1, s2) = (t1, t2)" by fastforce
  have "(let (a, c) = fold adler_add p (t1, t2) in (unat a mod 65521, unat c mod 65521)) =
      adler_spec p (unat t1 mod 65521, unat t2 mod 65521)"
    using add t Cons.prems(3) by (intro Cons.IH [of _ "Suc k"]) simp_all
  moreover have "(unat s1 mod 65521 + unat b) mod 65521 = unat t1 mod 65521"
    "(unat s2 mod 65521 + unat s1 mod 65521 + unat b) mod 65521 = unat t2 mod 65521"
    using add(1,2) t mod_sum3 [of "unat s2" 65521 "unat s1" "unat b"] by (simp_all add: mod_simps)
  ultimately show ?case by (simp add: t adler_spec_def)
qed (simp add: adler_spec_def)

lemma adler_spec_bound:
  "a < 65521 \<Longrightarrow> c < 65521 \<Longrightarrow> fst (adler_spec p (a, c)) < 65521 \<and> snd (adler_spec p (a, c)) < 65521"
  by (induction p arbitrary: a c) (simp_all add: adler_spec_def)

lemma adler_spec_append: "adler_spec (p @ q) s = adler_spec q (adler_spec p s)"
  by (simp add: adler_spec_def)

lemma adler_reduce_block:
  assumes "unat s1 \<le> 65535" and "unat s2 \<le> 65535" and "length p \<le> 5552"
  shows "map_prod unat unat (adler_reduce (adler_block p (s1, s2))) =
    adler_spec p (unat s1 mod 65521, unat s2 mod 65521)"
  using adler_fold [of s1 0 s2 p] assms
  by (simp add: adler_block_fold adler_reduce_def unat_mod split_beta Let_def)

lemma adler_blocks_spec:
  assumes "unat (fst s) \<le> 65535" and "unat (snd s) \<le> 65535" and "n \<le> 5552"
    and "ptr = [] \<longrightarrow> unat (fst s) < 65521 \<and> unat (snd s) < 65521"
  shows "map_prod unat unat (adler_blocks n ptr s) = adler_spec ptr (unat (fst s) mod 65521, unat (snd s) mod 65521)"
  using assms
proof (induction n ptr s rule: adler_blocks.induct)
  case (1 n ptr s)
  show ?case
  proof (cases "ptr = []")
    case True
    with 1(5) show ?thesis by (subst adler_blocks.simps) (cases s, simp add: adler_spec_def)
  next
    case False
    let ?r = "adler_reduce (adler_block (take n ptr) s)"
    have r: "map_prod unat unat ?r = adler_spec (take n ptr) (unat (fst s) mod 65521, unat (snd s) mod 65521)"
      using adler_reduce_block [of "fst s" "snd s" "take n ptr"] 1(2,3,4) by simp
    have "fst (map_prod unat unat ?r) < 65521 \<and> snd (map_prod unat unat ?r) < 65521"
      unfolding r by (rule adler_spec_bound) simp_all
    then have b: "unat (fst ?r) < 65521" "unat (snd ?r) < 65521" by simp_all
    have "map_prod unat unat (adler_blocks n ptr s) = map_prod unat unat (adler_blocks 5552 (drop n ptr) ?r)"
      using False by (subst adler_blocks.simps) simp
    also have "\<dots> = adler_spec (drop n ptr) (map_prod unat unat ?r)"
    proof -
      have "map_prod unat unat (adler_blocks 5552 (drop n ptr) ?r) =
          adler_spec (drop n ptr) (unat (fst ?r) mod 65521, unat (snd ?r) mod 65521)"
        by (rule 1(1) [OF False _ _ order_refl]) (use b in linarith, use b in linarith, use b in blast)
      then show ?thesis using b by (simp only: mod_less map_prod_def split_beta)
    qed
    also have "\<dots> = adler_spec ptr (unat (fst s) mod 65521, unat (snd s) mod 65521)"
      unfolding r adler_spec_append [symmetric] append_take_drop_id ..
    finally show ?thesis .
  qed
qed

text \<open>The two halves of a checksum.\<close>

lemma adler_halves:
  fixes adler :: u64
  assumes "unat adler < 2 ^ 32"
  shows "unat (ucast (adler AND 0xFFFF) :: u32) = unat adler mod 65536"
    and "unat (ucast (drop_bit 16 adler) :: u32) = unat adler div 65536"
proof -
  have "adler AND 0xFFFF = take_bit 16 adler" by (simp add: take_bit_eq_mask mask_eq_exp_minus_1)
  then have lo: "unat (adler AND 0xFFFF) = unat adler mod 65536"
    by (simp add: unsigned_take_bit_eq take_bit_eq_mod unat_mod)
  have hi: "unat (drop_bit 16 adler) = unat adler div 65536"
    unfolding unat_drop_bit_eq by (simp only: drop_bit_eq_div) simp
  have "unat adler mod 65536 < 2 ^ 32" "unat adler div 65536 < 2 ^ 32"
    using assms by (simp_all add: order_le_less_trans [OF div_le_dividend])
  then show "unat (ucast (adler AND 0xFFFF) :: u32) = unat adler mod 65536"
    "unat (ucast (drop_bit 16 adler) :: u32) = unat adler div 65536"
    by (simp_all add: unsigned_ucast_eq lo hi take_bit_nat_eq_self)
qed

lemma adler_sum:
  fixes s1 s2 :: u32
  assumes "unat s1 < 65521" and "unat s2 < 65521"
  shows "unat (push_bit 16 s2 + s1) = 65536 * unat s2 + unat s1"
proof -
  have "unat (push_bit 16 s2) = 65536 * unat s2"
    using assms(2) by (simp add: push_bit_eq_mult unat_word_ariths(2))
  then show ?thesis using assms by (simp add: unat_word_ariths(1))
qed

lemma adler_join:
  fixes s1 s2 :: u32
  assumes "unat s1 < 65521" and "unat s2 < 65521"
  shows "unat (ucast (push_bit 16 s2 + s1) :: u64) = 65536 * unat s2 + unat s1"
proof -
  have "65536 * unat s2 + unat s1 < 2 ^ 64" using assms by simp
  with adler_sum [OF assms] show ?thesis by (simp add: unsigned_ucast_eq take_bit_nat_eq_self)
qed

text \<open>C40: \<open>mz_adler32\<close> is Adler-32. From every 32-bit checksum and for every data, the routine that
  reduces once per block of 5552 bytes gives the sums that are reduced modulo 65521 after every
  byte; no intermediate 32-bit sum overflows. (An empty buffer is the exception when the halves
  given are not reduced: then they come back as they are.)\<close>

theorem mz_adler32_is_adler32:
  assumes "unat adler < 2 ^ 32" and "p \<noteq> [] \<or> unat adler mod 65536 < 65521 \<and> unat adler div 65536 < 65521"
  shows "unat (mz_adler32 adler (Some p)) =
    (let (a, c) = adler_spec p (unat adler mod 65536 mod 65521, unat adler div 65536 mod 65521) in 65536 * c + a)"
proof -
  let ?s = "(ucast (adler AND 0xFFFF) :: u32, ucast (drop_bit 16 adler) :: u32)"
  note h = adler_halves [OF assms(1)]
  have hi: "unat adler div 65536 \<le> 65535" using assms(1) by simp
  let ?a = "adler_spec p (unat adler mod 65536 mod 65521, unat adler div 65536 mod 65521)"
  have r: "map_prod unat unat (adler_blocks (length p mod 5552) p ?s) = ?a"
    using adler_blocks_spec [of ?s "length p mod 5552" p] h hi assms(2) by simp
  have "fst ?a < 65521 \<and> snd ?a < 65521" by (rule adler_spec_bound) simp_all
  moreover obtain s1 s2 where s: "adler_blocks (length p mod 5552) p ?s = (s1, s2)" by fastforce
  moreover from this r have "?a = (unat s1, unat s2)" by simp
  ultimately show ?thesis using adler_join [of s1 s2] by (simp add: mz_adler32_def Let_def)
qed

theorem mz_adler32_is_adler32_witness:
  "unat (mz_adler32 MZ_ADLER32_INIT (Some [97, 98, 99])) = 65536 * 589 + 295"
  using mz_adler32_is_adler32 [of MZ_ADLER32_INIT "[97, 98, 99]"]
  by (simp add: MZ_ADLER32_INIT_def adler_spec_def)

section \<open>CRC-32 is the division of its definition\<close>

text \<open>One bit of the division by the reflected polynomial.\<close>

definition crc_bit :: "u32 \<Rightarrow> u32" where
  "crc_bit x = (if bit x 0 then drop_bit 1 x XOR 0xEDB88320 else drop_bit 1 x)"

lemma crc_bit_xor: "crc_bit (x XOR y) = crc_bit x XOR crc_bit y"
  by (rule bit_word_eqI) (auto simp: crc_bit_def bit_simps)

lemma crc_bits_xor: "(crc_bit ^^ n) (x XOR y) = (crc_bit ^^ n) x XOR (crc_bit ^^ n) y"
  by (induction n arbitrary: x y) (simp_all add: crc_bit_xor)

text \<open>The second half of each power of two repeats the first, with the entry at that power added.\<close>

lemma crc_table_halves:
  "drop 1 (take 2 s_crc_table) = map ((XOR) 0x77073096) (take 1 s_crc_table)"
  "drop 2 (take 4 s_crc_table) = map ((XOR) 0xEE0E612C) (take 2 s_crc_table)"
  "drop 4 (take 8 s_crc_table) = map ((XOR) 0x076DC419) (take 4 s_crc_table)"
  "drop 8 (take 16 s_crc_table) = map ((XOR) 0x0EDB8832) (take 8 s_crc_table)"
  "drop 16 (take 32 s_crc_table) = map ((XOR) 0x1DB71064) (take 16 s_crc_table)"
  "drop 32 (take 64 s_crc_table) = map ((XOR) 0x3B6E20C8) (take 32 s_crc_table)"
  "drop 64 (take 128 s_crc_table) = map ((XOR) 0x76DC4190) (take 64 s_crc_table)"
  "drop 128 (take 256 s_crc_table) = map ((XOR) 0xEDB88320) (take 128 s_crc_table)"
  by (simp_all add: s_crc_table_def)

lemma crc_powers:
  "(crc_bit ^^ 8) 1 = 0x77073096" "(crc_bit ^^ 8) 2 = 0xEE0E612C" "(crc_bit ^^ 8) 4 = 0x076DC419"
  "(crc_bit ^^ 8) 8 = 0x0EDB8832" "(crc_bit ^^ 8) 16 = 0x1DB71064" "(crc_bit ^^ 8) 32 = 0x3B6E20C8"
  "(crc_bit ^^ 8) 64 = 0x76DC4190" "(crc_bit ^^ 8) 128 = 0xEDB88320"
  by (code_simp+)

definition crc_table_upto :: "nat \<Rightarrow> bool" where
  "crc_table_upto n \<longleftrightarrow> (\<forall>j < n. s_crc_table ! j = (crc_bit ^^ 8) (of_nat j))"

lemma crc_table_entry:
  assumes "drop n (take (2 * n) s_crc_table) = map ((XOR) c) (take n s_crc_table)"
    and "(crc_bit ^^ 8) (of_nat n) = c" and "n = 2 ^ k" and "2 * n \<le> 256" and "i < 2 * n"
    and "\<forall>j < n. s_crc_table ! j = (crc_bit ^^ 8) (of_nat j)"
  shows "s_crc_table ! i = (crc_bit ^^ 8) (of_nat i)"
proof (cases "i < n")
  case False
  define j where "j = i - n"
  have j: "j < n" "i = n + j" using False assms(5) by (simp_all add: j_def)
  have l: "length s_crc_table = 256" by (simp add: s_crc_table_def)
  have "s_crc_table ! i = drop n (take (2 * n) s_crc_table) ! j" using j l assms(4) by simp
  also have "\<dots> = c XOR s_crc_table ! j" using j l assms(4) by (simp add: assms(1))
  also have "\<dots> = (crc_bit ^^ 8) (of_nat n XOR of_nat j)" using assms(2,6) j by (simp add: crc_bits_xor)
  also have "(of_nat n XOR of_nat j :: u32) = of_nat i"
  proof -
    have "\<not> bit j k" using j(1) assms(3) by (simp add: bit_iff_odd)
    then have "n AND j = 0" unfolding assms(3) by (intro bit_eqI) (auto simp: bit_simps)
    then have "n + j = n XOR j" by (rule disjunctive_add_eq_xor)
    then show ?thesis by (simp only: j(2) of_nat_xor_eq)
  qed
  finally show ?thesis .
qed (use assms(6) in simp)

lemma crc_table_step:
  assumes "crc_table_upto n" and "drop n (take m s_crc_table) = map ((XOR) c) (take n s_crc_table)"
    and "(crc_bit ^^ 8) x = c" and "x = of_nat n" and "n = 2 ^ k" and "m = 2 * n" and "m \<le> 256"
  shows "crc_table_upto m"
  unfolding crc_table_upto_def
proof (intro allI impI)
  fix i assume "i < m"
  then show "s_crc_table ! i = (crc_bit ^^ 8) (of_nat i)"
    using assms(7) unfolding assms(6)
    by (intro crc_table_entry [OF assms(2) [unfolded assms(6)] assms(3) [unfolded assms(4)] assms(5) _ _
          assms(1) [unfolded crc_table_upto_def]])
qed

lemma crc_table: "crc_table_upto 256"
proof -
  have "(crc_bit ^^ 8) 0 = 0" by code_simp
  then have "crc_table_upto 1" by (simp add: crc_table_upto_def s_crc_table_def)
  then have "crc_table_upto 2" by (rule crc_table_step [OF _ crc_table_halves(1) crc_powers(1), of 0]) simp_all
  then have "crc_table_upto 4" by (rule crc_table_step [OF _ crc_table_halves(2) crc_powers(2), of 1]) simp_all
  then have "crc_table_upto 8" by (rule crc_table_step [OF _ crc_table_halves(3) crc_powers(3), of 2]) simp_all
  then have "crc_table_upto 16" by (rule crc_table_step [OF _ crc_table_halves(4) crc_powers(4), of 3]) simp_all
  then have "crc_table_upto 32" by (rule crc_table_step [OF _ crc_table_halves(5) crc_powers(5), of 4]) simp_all
  then have "crc_table_upto 64" by (rule crc_table_step [OF _ crc_table_halves(6) crc_powers(6), of 5]) simp_all
  then have "crc_table_upto 128" by (rule crc_table_step [OF _ crc_table_halves(7) crc_powers(7), of 6]) simp_all
  then show ?thesis by (rule crc_table_step [OF _ crc_table_halves(8) crc_powers(8), of 7]) simp_all
qed

text \<open>Eight bits at once: the low byte selects the table entry, the rest is shifted.\<close>

lemma crc_bits_shift: "(\<And>i. i < n \<Longrightarrow> \<not> bit x i) \<Longrightarrow> (crc_bit ^^ n) x = drop_bit n x"
proof (induction n arbitrary: x)
  case (Suc n)
  have "crc_bit x = drop_bit 1 x" using Suc.prems [of 0] by (simp add: crc_bit_def)
  moreover have "(crc_bit ^^ n) (drop_bit 1 x) = drop_bit n (drop_bit 1 x)"
    by (rule Suc.IH) (simp add: bit_simps Suc.prems)
  ultimately show ?case by (simp add: funpow_swap1 drop_bit_drop_bit del: funpow.simps add: funpow_Suc_right)
qed simp

lemma crc_byte_bits: "crc_byte b x = (crc_bit ^^ 8) (x XOR ucast b)"
proof -
  let ?y = "x XOR ucast b"
  have split: "?y = (?y AND NOT 0xFF) XOR (?y AND 0xFF)" by (rule bit_word_eqI) (auto simp: bit_simps)
  have m: "(0xFF :: u32) = mask 8" by (simp add: mask_eq_exp_minus_1)
  have "(crc_bit ^^ 8) (?y AND NOT 0xFF) = drop_bit 8 (?y AND NOT 0xFF)"
    by (rule crc_bits_shift) (simp add: m bit_simps)
  also have "\<dots> = drop_bit 8 x"
    by (rule bit_word_eqI) (auto simp: m bit_simps dest: bit_imp_le_length)
  finally have hi: "(crc_bit ^^ 8) (?y AND NOT 0xFF) = drop_bit 8 x" .
  have "unat (?y AND 0xFF) < 256"
    unfolding m by (simp only: unsigned_take_bit_eq take_bit_eq_mod flip: take_bit_eq_mask) (simp add: unat_mod)
  then have "s_crc_table ! unat (?y AND 0xFF) = (crc_bit ^^ 8) (?y AND 0xFF)"
    using crc_table by (simp add: crc_table_upto_def)
  then show ?thesis by (subst split) (simp only: crc_bits_xor hi crc_byte_def)
qed

lemma crc_loop_fold: "crc_loop p c = fold crc_byte p c"
  by (induction p c rule: crc_loop.induct) simp_all

lemma mz_crc32_is_crc32:
  "mz_crc32 crc p =
    ucast (NOT (fold (\<lambda>b x. (crc_bit ^^ 8) (x XOR ucast b)) p (ucast crc XOR 0xFFFFFFFF)))"
  by (simp add: mz_crc32_def crc_loop_fold crc_byte_bits [abs_def])

end
