(* ===== verification/Tinfl.thy ===== *)
theory Tinfl
  imports Miniz_Checksum
begin

text \<open>
  The decompressor of miniz.c: \<open>tinfl_decompress\<close>, called once on a whole input with a fresh
  \<open>tinfl_decompressor\<close>, as \<open>mz_uncompress\<close> does. The coroutine of the source returns to its caller
  through \<open>TINFL_CR_RETURN\<close>; here an action stops with that status. The macros that read bytes, bits
  and Huffman codes, the block types and the copying of matches are one definition each.

  The configuration is that of x86-64: a 64-bit bit buffer, unaligned loads through \<open>memcpy\<close>. The
  output starts at the beginning of its buffer. Local counters are natural numbers: none exceeds
  32 bits. A read or write outside an array or buffer, a shift by the width of the shifted word or more
  and a failing assertion are stops of their own; every access that the source makes without a test is
  checked here at that place. A \<open>memcpy\<close> reads its source before it writes.
\<close>

section \<open>State and actions\<close>

record huff_table =
  m_code_size :: "nat list"
  m_look_up :: "int list"
  m_tree :: "int list"

record inflator =
  in_buf :: "byte list"
  in_cur :: nat
  out_buf :: "byte list"
  out_cur :: nat
  decomp_flags :: u32
  bit_buf :: u64
  num_bits :: u32
  m_z_adler32 :: u32
  m_check_adler32 :: u32
  m_table_sizes :: "nat list"
  m_tables :: "huff_table list"
  m_len_codes :: "nat list"

datatype stop = Status int | Out_Of_Bounds | Bad_Shift | Assertion | No_Fuel

type_synonym 'a inflate = "inflator \<Rightarrow> (stop + 'a) \<times> inflator"

definition give :: "'a \<Rightarrow> 'a inflate" where
  "give x s = (Inr x, s)"

definition halt :: "stop \<Rightarrow> 'a inflate" where
  "halt e s = (Inl e, s)"

definition bnd :: "'a inflate \<Rightarrow> ('a \<Rightarrow> 'b inflate) \<Rightarrow> 'b inflate" where
  "bnd m f s = (case m s of (Inl e, s') \<Rightarrow> (Inl e, s') | (Inr x, s') \<Rightarrow> f x s')"

definition FLAG_PARSE_ZLIB_HEADER :: u32 where "FLAG_PARSE_ZLIB_HEADER = 1"
definition FLAG_HAS_MORE_INPUT :: u32 where "FLAG_HAS_MORE_INPUT = 2"
definition FLAG_NON_WRAPPING :: u32 where "FLAG_NON_WRAPPING = 4"
definition FLAG_COMPUTE_ADLER32 :: u32 where "FLAG_COMPUTE_ADLER32 = 8"

abbreviation flag :: "u32 \<Rightarrow> inflator \<Rightarrow> bool" where
  "flag f s \<equiv> decomp_flags s AND f \<noteq> 0"

definition STATUS_CANNOT_MAKE_PROGRESS :: int where "STATUS_CANNOT_MAKE_PROGRESS = -4"
definition STATUS_BAD_PARAM :: int where "STATUS_BAD_PARAM = -3"
definition STATUS_ADLER32_MISMATCH :: int where "STATUS_ADLER32_MISMATCH = -2"
definition STATUS_FAILED :: int where "STATUS_FAILED = -1"
definition STATUS_DONE :: int where "STATUS_DONE = 0"
definition STATUS_NEEDS_MORE_INPUT :: int where "STATUS_NEEDS_MORE_INPUT = 1"
definition STATUS_HAS_MORE_OUTPUT :: int where "STATUS_HAS_MORE_OUTPUT = 2"

section \<open>Bytes and bits\<close>

definition no_input :: "inflator \<Rightarrow> stop" where
  "no_input s = Status (if flag FLAG_HAS_MORE_INPUT s then STATUS_NEEDS_MORE_INPUT else STATUS_CANNOT_MAKE_PROGRESS)"

definition get_byte :: "byte inflate" where
  "get_byte s =
     (if length (in_buf s) \<le> in_cur s then (Inl (no_input s), s)
      else (Inr (in_buf s ! in_cur s), s\<lparr>in_cur := in_cur s + 1\<rparr>))"

definition add_byte :: "byte \<Rightarrow> inflator \<Rightarrow> inflator" where
  "add_byte c s = s\<lparr>bit_buf := bit_buf s OR push_bit (unat (num_bits s)) (ucast c),
                    num_bits := num_bits s + 8\<rparr>"

lemma get_byte_Inr:
  "get_byte s = (Inr c, s') \<Longrightarrow> in_cur s < length (in_buf s) \<and> s' = s\<lparr>in_cur := in_cur s + 1\<rparr>"
  by (auto simp: get_byte_def split: if_splits)

function need_bits :: "nat \<Rightarrow> unit inflate" where
  "need_bits n s =
     (case get_byte s of
        (Inl e, s') \<Rightarrow> (Inl e, s')
      | (Inr c, s') \<Rightarrow>
          if 64 \<le> unat (num_bits s') then (Inl Bad_Shift, s')
          else if num_bits (add_byte c s') < of_nat n then need_bits n (add_byte c s')
          else (Inr (), add_byte c s'))"
  by pat_completeness auto
termination
  by (relation "measure (\<lambda>(n, s). length (in_buf s) - in_cur s)")
    (auto dest!: get_byte_Inr [OF sym] simp: add_byte_def)

declare need_bits.simps [simp del]

definition drop_bits :: "nat \<Rightarrow> inflator \<Rightarrow> inflator" where
  "drop_bits n s = s\<lparr>bit_buf := drop_bit n (bit_buf s), num_bits := num_bits s - of_nat n\<rparr>"

definition have_bits :: "nat \<Rightarrow> unit inflate" where
  "have_bits n s = (if num_bits s < of_nat n then need_bits n s else (Inr (), s))"

definition consume :: "nat \<Rightarrow> unit inflate" where
  "consume n s = (if 64 \<le> n then (Inl Bad_Shift, s) else (Inr (), drop_bits n s))"

definition skip_bits :: "nat \<Rightarrow> unit inflate" where
  "skip_bits n = bnd (have_bits n) (\<lambda>_. consume n)"

text \<open>The mask of the bits read is a shifted \<open>int\<close>.\<close>

definition get_bits :: "nat \<Rightarrow> nat inflate" where
  "get_bits n = bnd (have_bits n) (\<lambda>_ s.
     if 31 \<le> n then (Inl Bad_Shift, s) else bnd (consume n) (\<lambda>_. give (unat (bit_buf s AND mask n))) s)"

text \<open>A byte of output behind a test for room.\<close>

definition put_byte :: "byte \<Rightarrow> unit inflate" where
  "put_byte b s =
     (if length (out_buf s) \<le> out_cur s then (Inl (Status STATUS_HAS_MORE_OUTPUT), s)
      else (Inr (), s\<lparr>out_buf := (out_buf s)[out_cur s := b], out_cur := out_cur s + 1\<rparr>))"

text \<open>A store without a test, and moving on after it.\<close>

definition store_out :: "nat \<Rightarrow> byte \<Rightarrow> unit inflate" where
  "store_out k b s =
     (if length (out_buf s) \<le> out_cur s + k then (Inl Out_Of_Bounds, s)
      else (Inr (), s\<lparr>out_buf := (out_buf s)[out_cur s + k := b]\<rparr>))"

definition advance_out :: "nat \<Rightarrow> unit inflate" where
  "advance_out k s = (Inr (), s\<lparr>out_cur := out_cur s + k\<rparr>)"

section \<open>Huffman codes\<close>

definition FAST_LOOKUP_BITS :: nat where "FAST_LOOKUP_BITS = 10"
definition FAST_LOOKUP_SIZE :: nat where "FAST_LOOKUP_SIZE = 1024"
definition MAX_HUFF_SYMBOLS_0 :: nat where "MAX_HUFF_SYMBOLS_0 = 288"

definition look_up :: "huff_table \<Rightarrow> u64 \<Rightarrow> int" where
  "look_up t w = m_look_up t ! unat (w AND mask FAST_LOOKUP_BITS)"

text \<open>The child of the node \<open>temp\<close> (a negative number) selected by bit \<open>n\<close> of the bit buffer.\<close>

definition tree_child :: "huff_table \<Rightarrow> u64 \<Rightarrow> int \<Rightarrow> nat \<Rightarrow> stop + int" where
  "tree_child t w temp n =
     (let i = - temp - 1 + (if bit w n then 1 else 0)
      in if 64 \<le> n then Inl Bad_Shift
         else if 0 \<le> i \<and> nat i < length (m_tree t) then Inr (m_tree t ! nat i) else Inl Out_Of_Bounds)"

function fill_walk :: "huff_table \<Rightarrow> u64 \<Rightarrow> nat \<Rightarrow> int \<Rightarrow> nat \<Rightarrow> stop + int" where
  "fill_walk t w nb temp code_len =
     (case tree_child t w temp code_len of
        Inl e \<Rightarrow> Inl e
      | Inr temp' \<Rightarrow>
          if temp' < 0 \<and> code_len + 1 + 1 \<le> nb then fill_walk t w nb temp' (code_len + 1) else Inr temp')"
  by pat_completeness auto
termination by (relation "measure (\<lambda>(t, w, nb, temp, code_len). nb - code_len)") auto

declare fill_walk.simps [simp del]

text \<open>\<open>TINFL_HUFF_BITBUF_FILL\<close>: whether the bits at hand hold a whole code, and reading until they do.\<close>

definition fill_ready :: "huff_table \<Rightarrow> inflator \<Rightarrow> stop + bool" where
  "fill_ready t s =
     (let temp = look_up t (bit_buf s) in
      if 0 \<le> temp then
        let code_len = drop_bit 9 (nat temp) in Inr (code_len \<noteq> 0 \<and> code_len \<le> unat (num_bits s))
      else if FAST_LOOKUP_BITS < unat (num_bits s) then
        (case fill_walk t (bit_buf s) (unat (num_bits s)) temp FAST_LOOKUP_BITS of
           Inl e \<Rightarrow> Inl e
         | Inr temp \<Rightarrow> Inr (0 \<le> temp))
      else Inr False)"

function huff_fill :: "huff_table \<Rightarrow> unit inflate" where
  "huff_fill t s =
     (case fill_ready t s of
        Inl e \<Rightarrow> (Inl e, s)
      | Inr r \<Rightarrow>
          if r then (Inr (), s)
          else (case get_byte s of
                  (Inl e, s') \<Rightarrow> (Inl e, s')
                | (Inr c, s') \<Rightarrow>
                    if 64 \<le> unat (num_bits s') then (Inl Bad_Shift, s')
                    else if num_bits (add_byte c s') < 15 then huff_fill t (add_byte c s')
                    else (Inr (), add_byte c s')))"
  by pat_completeness auto
termination
  by (relation "measure (\<lambda>(t, s). length (in_buf s) - in_cur s)")
    (auto dest!: get_byte_Inr [OF sym] simp: add_byte_def)

declare huff_fill.simps [simp del]

function huff_walk :: "huff_table \<Rightarrow> u64 \<Rightarrow> int \<Rightarrow> nat \<Rightarrow> stop + nat \<times> nat" where
  "huff_walk t w temp code_len =
     (case tree_child t w temp code_len of
        Inl e \<Rightarrow> Inl e
      | Inr temp' \<Rightarrow>
          if temp' < 0 then huff_walk t w temp' (code_len + 1) else Inr (nat temp', code_len + 1))"
  by pat_completeness auto
termination
  by (relation "measure (\<lambda>(t, w, temp, code_len). 64 - code_len)")
    (auto simp: tree_child_def Let_def split: if_splits)

declare huff_walk.simps [simp del]

text \<open>The entry for the next code and its length, as the fast path leaves them.\<close>

definition huff_symbol :: "huff_table \<Rightarrow> (nat \<times> nat) inflate" where
  "huff_symbol t s =
     (let temp = look_up t (bit_buf s) in
      if 0 \<le> temp then (Inr (nat temp, drop_bit 9 (nat temp)), s)
      else (case huff_walk t (bit_buf s) temp FAST_LOOKUP_BITS of Inl e \<Rightarrow> (Inl e, s) | Inr r \<Rightarrow> (Inr r, s)))"

definition add_two :: "unit inflate" where
  "add_two s =
     (if length (in_buf s) < in_cur s + 2 then (Inl Out_Of_Bounds, s)
      else if 64 \<le> unat (num_bits s) \<or> 64 \<le> unat (num_bits s + 8) then (Inl Bad_Shift, s)
      else (Inr (),
        s\<lparr>bit_buf := bit_buf s OR push_bit (unat (num_bits s)) (ucast (in_buf s ! in_cur s))
                     OR push_bit (unat (num_bits s + 8)) (ucast (in_buf s ! (in_cur s + 1))),
          in_cur := in_cur s + 2, num_bits := num_bits s + 16\<rparr>))"

definition huff_ensure :: "huff_table \<Rightarrow> unit inflate" where
  "huff_ensure t s =
     (if num_bits s < 15 then
        if length (in_buf s) - in_cur s < 2 then huff_fill t s else add_two s
      else (Inr (), s))"

definition huff_decode :: "huff_table \<Rightarrow> nat inflate" where
  "huff_decode t =
     bnd (huff_ensure t) (\<lambda>_. bnd (huff_symbol t) (\<lambda>(sy, code_len) s.
       bnd (consume code_len) (\<lambda>_. give (if 0 \<le> look_up t (bit_buf s) then sy AND 511 else sy)) s))"

section \<open>Header and stored blocks\<close>

definition zlib_header :: "unit inflate" where
  "zlib_header s =
     (if flag FLAG_PARSE_ZLIB_HEADER s then
        bnd get_byte (\<lambda>c0. bnd get_byte (\<lambda>c1 s.
          let z0 = unat c0; z1 = unat c1;
              window = (2 :: nat) ^ (8 + drop_bit 4 z0);
              bad = (z0 * 256 + z1) mod 31 \<noteq> 0 \<or> z1 AND 32 \<noteq> 0 \<or> z0 AND 15 \<noteq> 8;
              bad = (bad \<or> \<not> flag FLAG_NON_WRAPPING s \<and> (32768 < window \<or> length (out_buf s) < window))
          in if bad then (Inl (Status STATUS_FAILED), s) else (Inr (), s))) s
      else (Inr (), s))"

definition raw_byte :: "nat inflate" where
  "raw_byte s = (if num_bits s \<noteq> 0 then get_bits 8 s else bnd get_byte (\<lambda>c. give (unat c)) s)"

text \<open>The bytes of a stored block that are already in the bit buffer; what is left to copy.\<close>

fun stored_bits :: "nat \<Rightarrow> nat inflate" where
  "stored_bits 0 s = (Inr 0, s)"
| "stored_bits (Suc n) s =
     (if num_bits s = 0 then (Inr (Suc n), s)
      else bnd (get_bits 8) (\<lambda>d. bnd (put_byte (of_nat d)) (\<lambda>_. stored_bits n)) s)"

text \<open>\<open>memcpy\<close> of bytes of the input to the output.\<close>

definition copy_in :: "nat \<Rightarrow> unit inflate" where
  "copy_in n s =
     (if length (in_buf s) < in_cur s + n \<or> length (out_buf s) < out_cur s + n then (Inl Out_Of_Bounds, s)
      else (Inr (),
        s\<lparr>out_buf := take (out_cur s) (out_buf s) @ take n (drop (in_cur s) (in_buf s)) @ drop (out_cur s + n) (out_buf s),
          in_cur := in_cur s + n, out_cur := out_cur s + n\<rparr>))"

function stored_copy :: "nat \<Rightarrow> unit inflate" where
  "stored_copy counter s =
     (if counter = 0 then (Inr (), s)
      else if length (out_buf s) \<le> out_cur s then (Inl (Status STATUS_HAS_MORE_OUTPUT), s)
      else if length (in_buf s) \<le> in_cur s then (Inl (no_input s), s)
      else
        let n = min (min (length (out_buf s) - out_cur s) (length (in_buf s) - in_cur s)) counter
        in case copy_in n s of
             (Inl e, s') \<Rightarrow> (Inl e, s')
           | (Inr _, s') \<Rightarrow> stored_copy (counter - n) s')"
  by pat_completeness auto
termination by (relation "measure fst") auto

declare stored_copy.simps [simp del]

definition stored_block :: "unit inflate" where
  "stored_block =
     bnd (\<lambda>s. skip_bits (unat (num_bits s AND 7)) s) (\<lambda>_.
     bnd raw_byte (\<lambda>h0. bnd raw_byte (\<lambda>h1. bnd raw_byte (\<lambda>h2. bnd raw_byte (\<lambda>h3.
       let counter = h0 OR push_bit 8 h1
       in if counter \<noteq> (0xFFFF XOR (h2 OR push_bit 8 h3)) then halt (Status STATUS_FAILED)
          else bnd (stored_bits counter) stored_copy)))))"

section \<open>Huffman tables\<close>

definition s_min_table_sizes :: "nat list" where
  "s_min_table_sizes = [257, 1, 4]"

definition s_length_dezigzag :: "nat list" where
  "s_length_dezigzag = [16, 17, 18, 0, 8, 7, 9, 6, 10, 5, 11, 4, 12, 3, 13, 2, 14, 1, 15]"

definition set_code_size :: "nat \<Rightarrow> nat list \<Rightarrow> inflator \<Rightarrow> inflator" where
  "set_code_size i cs s = s\<lparr>m_tables := (m_tables s)[i := (m_tables s ! i)\<lparr>m_code_size := cs\<rparr>]\<rparr>"

definition static_sizes :: "inflator \<Rightarrow> inflator" where
  "static_sizes s =
     set_code_size 1 (replicate 32 5 @ drop 32 (m_code_size (m_tables s ! 1)))
       (set_code_size 0 (replicate 144 8 @ replicate 112 9 @ replicate 24 7 @ replicate 8 8)
         (s\<lparr>m_table_sizes := (m_table_sizes s)[0 := 288, 1 := 32]\<rparr>))"

fun read_code_sizes :: "nat list \<Rightarrow> nat list \<Rightarrow> nat list inflate" where
  "read_code_sizes [] cs s = (Inr cs, s)"
| "read_code_sizes (z # zs) cs s = bnd (get_bits 3) (\<lambda>x. read_code_sizes zs (cs[z := x])) s"

definition dynamic_sizes :: "unit inflate" where
  "dynamic_sizes =
     bnd (get_bits 5) (\<lambda>n0. bnd (get_bits 5) (\<lambda>n1. bnd (get_bits 4) (\<lambda>n2 s.
       let s = s\<lparr>m_table_sizes := [n0 + s_min_table_sizes ! 0, n1 + s_min_table_sizes ! 1, n2 + s_min_table_sizes ! 2]\<rparr>
       in bnd (read_code_sizes (take (m_table_sizes s ! 2) s_length_dezigzag) (replicate MAX_HUFF_SYMBOLS_0 0))
            (\<lambda>cs s. (Inr (), set_code_size 2 cs (s\<lparr>m_table_sizes := (m_table_sizes s)[2 := 19]\<rparr>))) s)))"

text \<open>Building one table: how often each code size occurs, the first code of each size, and the
  entries of the symbols in their order.\<close>

definition total_syms :: "nat list \<Rightarrow> nat list" where
  "total_syms sizes = fold (\<lambda>c t. t[c := t ! c + 1]) sizes (replicate 16 0)"

definition next_codes :: "nat list \<Rightarrow> nat \<times> nat \<times> nat list" where
  "next_codes tot =
     fold (\<lambda>i (used_syms, total, next_code).
       let total = 2 * (total + tot ! i) in (used_syms + tot ! i, total, next_code[i + 1 := total]))
       [1..<16] (0, 0, replicate 17 0)"

fun rev_bits :: "nat \<Rightarrow> nat \<Rightarrow> nat \<Rightarrow> nat" where
  "rev_bits 0 cur_code rev_code = rev_code"
| "rev_bits (Suc l) cur_code rev_code = rev_bits l (cur_code div 2) (2 * rev_code OR (cur_code AND 1))"

function fill_look_up :: "nat \<Rightarrow> nat \<Rightarrow> int \<Rightarrow> int list \<Rightarrow> int list" where
  "fill_look_up rev_code code_size k tab =
     (if rev_code < FAST_LOOKUP_SIZE
      then fill_look_up (rev_code + 2 ^ code_size) code_size k (tab[rev_code := k]) else tab)"
  by pat_completeness auto
termination by (relation "measure (\<lambda>(r, c, k, t). FAST_LOOKUP_SIZE - r)") (auto intro!: diff_less_mono2)

declare fill_look_up.simps [simp del]

definition tree_index :: "int list \<Rightarrow> int \<Rightarrow> nat option" where
  "tree_index tree tree_cur =
     (if tree_cur < 0 \<and> nat (- tree_cur - 1) < length tree then Some (nat (- tree_cur - 1)) else None)"

text \<open>Going down from \<open>tree_cur\<close>, one bit of the code at a time, making nodes where there are none.\<close>

fun descend :: "nat \<Rightarrow> nat \<Rightarrow> int \<Rightarrow> int list \<Rightarrow> int \<Rightarrow> stop + nat \<times> int \<times> int list \<times> int" where
  "descend 0 rev_code tree_cur tree tree_next = Inr (rev_code, tree_cur, tree, tree_next)"
| "descend (Suc j) rev_code tree_cur tree tree_next =
     (let rev_code = rev_code div 2; tree_cur = tree_cur - int (rev_code AND 1) in
      case tree_index tree tree_cur of
        None \<Rightarrow> Inl Out_Of_Bounds
      | Some i \<Rightarrow>
          if tree ! i = 0 then descend j rev_code tree_next (tree[i := tree_next]) (tree_next - 2)
          else descend j rev_code (tree ! i) tree tree_next)"

record table_build =
  tb_next_code :: "nat list"
  tb_look_up :: "int list"
  tb_tree :: "int list"
  tb_tree_next :: int

definition insert_symbol :: "nat \<Rightarrow> nat \<Rightarrow> table_build \<Rightarrow> stop + table_build" where
  "insert_symbol sy code_size b =
     (if code_size = 0 then Inr b
      else if 16 \<le> code_size then Inl Out_Of_Bounds
      else
        let cur_code = tb_next_code b ! code_size;
            b = b\<lparr>tb_next_code := (tb_next_code b)[code_size := cur_code + 1]\<rparr>;
            rev_code = rev_bits code_size cur_code 0
        in if code_size \<le> FAST_LOOKUP_BITS then
             Inr (b\<lparr>tb_look_up := fill_look_up rev_code code_size (int (push_bit 9 code_size OR sy)) (tb_look_up b)\<rparr>)
           else
             let slot = rev_code AND (FAST_LOOKUP_SIZE - 1);
                 (tree_cur, b) =
                   (if tb_look_up b ! slot = 0
                    then (tb_tree_next b, b\<lparr>tb_look_up := (tb_look_up b)[slot := tb_tree_next b],
                                            tb_tree_next := tb_tree_next b - 2\<rparr>)
                    else (tb_look_up b ! slot, b))
             in (case descend (code_size - (FAST_LOOKUP_BITS + 1)) (drop_bit (FAST_LOOKUP_BITS - 1) rev_code)
                        tree_cur (tb_tree b) (tb_tree_next b) of
                   Inl e \<Rightarrow> Inl e
                 | Inr (rev_code, tree_cur, tree, tree_next) \<Rightarrow>
                     let tree_cur = tree_cur - int ((rev_code div 2) AND 1) in
                     (case tree_index tree tree_cur of
                        None \<Rightarrow> Inl Out_Of_Bounds
                      | Some i \<Rightarrow> Inr (b\<lparr>tb_tree := tree[i := int sy], tb_tree_next := tree_next\<rparr>))))"

fun insert_symbols :: "nat \<Rightarrow> nat list \<Rightarrow> table_build \<Rightarrow> stop + table_build" where
  "insert_symbols sy [] b = Inr b"
| "insert_symbols sy (c # cs) b =
     (case insert_symbol sy c b of Inl e \<Rightarrow> Inl e | Inr b' \<Rightarrow> insert_symbols (sy + 1) cs b')"

definition make_table :: "nat list \<Rightarrow> stop + int list \<times> int list" where
  "make_table sizes =
     (let (used_syms, total, next_code) = next_codes (total_syms sizes)
      in if list_ex (\<lambda>c. 16 \<le> c) sizes then Inl Out_Of_Bounds
         else if total \<noteq> 65536 \<and> 1 < used_syms then Inl (Status STATUS_FAILED)
         else case insert_symbols 0 sizes
                     \<lparr>tb_next_code = next_code, tb_look_up = replicate FAST_LOOKUP_SIZE 0,
                      tb_tree = replicate (MAX_HUFF_SYMBOLS_0 * 2) 0, tb_tree_next = -1\<rparr> of
                Inl e \<Rightarrow> Inl e
              | Inr b \<Rightarrow> Inr (tb_look_up b, tb_tree b))"

definition build_table :: "nat \<Rightarrow> unit inflate" where
  "build_table i s =
     (let t = m_tables s ! i in
      if length (m_code_size t) < m_table_sizes s ! i then (Inl Out_Of_Bounds, s)
      else case make_table (take (m_table_sizes s ! i) (m_code_size t)) of
        Inl e \<Rightarrow> (Inl e, s)
      | Inr (look, tree) \<Rightarrow>
          (Inr (), s\<lparr>m_tables := (m_tables s)[i := t\<lparr>m_look_up := look, m_tree := tree\<rparr>]\<rparr>))"

text \<open>The code sizes of the other two tables, which a dynamic block holds in compressed form.\<close>

definition repeat_extra :: "nat \<Rightarrow> nat" where
  "repeat_extra sy = (if sy = 16 then 2 else if sy = 17 then 3 else 7)"

definition repeat_base :: "nat \<Rightarrow> nat" where
  "repeat_base sy = (if sy = 18 then 11 else 3)"

function read_len_codes :: "huff_table \<Rightarrow> nat \<Rightarrow> nat \<Rightarrow> nat list \<Rightarrow> (nat \<times> nat list) inflate" where
  "read_len_codes t tot counter codes s =
     (if counter < tot then
        (case huff_decode t s of
           (Inl e, s') \<Rightarrow> (Inl e, s')
         | (Inr dist, s') \<Rightarrow>
             if dist < 16 then
               if length codes \<le> counter then (Inl Out_Of_Bounds, s')
               else read_len_codes t tot (counter + 1) (codes[counter := dist]) s'
             else if dist = 16 \<and> counter = 0 then (Inl (Status STATUS_FAILED), s')
             else if 18 < dist then (Inl Out_Of_Bounds, s')
             else (case get_bits (repeat_extra dist) s' of
                     (Inl e, s'') \<Rightarrow> (Inl e, s'')
                   | (Inr x, s'') \<Rightarrow>
                       let n = x + repeat_base dist;
                           v = (if dist = 16 then codes ! (counter - 1) else 0)
                       in if length codes < counter + n then (Inl Out_Of_Bounds, s'')
                          else read_len_codes t tot (counter + n)
                                 (take counter codes @ replicate n v @ drop (counter + n) codes) s''))
      else (Inr (counter, codes), s))"
  by pat_completeness auto
termination
  by (relation "measure (\<lambda>(t, tot, counter, codes, s). tot - counter)") (auto simp: repeat_base_def)

declare read_len_codes.simps [simp del]

definition set_len_codes :: "unit inflate" where
  "set_len_codes s =
     (let n0 = m_table_sizes s ! 0; n1 = m_table_sizes s ! 1 in
      bnd (read_len_codes (m_tables s ! 2) (n0 + n1) 0 (m_len_codes s)) (\<lambda>(counter, codes) s.
        let s = s\<lparr>m_len_codes := codes\<rparr> in
        if n0 + n1 \<noteq> counter then (Inl (Status STATUS_FAILED), s)
        else if length codes < n0 + n1 \<or> length (m_code_size (m_tables s ! 0)) < n0 \<or>
                length (m_code_size (m_tables s ! 1)) < n1 then (Inl Out_Of_Bounds, s)
        else (Inr (), set_code_size 1 (take n1 (drop n0 codes) @ drop n1 (m_code_size (m_tables s ! 1)))
                        (set_code_size 0 (take n0 codes @ drop n0 (m_code_size (m_tables s ! 0))) s))) s)"

definition build_tables :: "nat \<Rightarrow> unit inflate" where
  "build_tables m_type =
     bnd (if m_type = 2 then bnd (build_table 2) (\<lambda>_. set_len_codes) else give ())
       (\<lambda>_. bnd (build_table 1) (\<lambda>_. build_table 0))"

section \<open>Literals and matches\<close>

definition s_length_base :: "nat list" where
  "s_length_base = [3, 4, 5, 6, 7, 8, 9, 10, 11, 13, 15, 17, 19, 23, 27, 31, 35, 43, 51, 59, 67, 83, 99, 115,
     131, 163, 195, 227, 258, 0, 0]"

definition s_length_extra :: "nat list" where
  "s_length_extra = [0, 0, 0, 0, 0, 0, 0, 0, 1, 1, 1, 1, 2, 2, 2, 2, 3, 3, 3, 3, 4, 4, 4, 4, 5, 5, 5, 5, 0, 0, 0]"

definition s_dist_base :: "nat list" where
  "s_dist_base = [1, 2, 3, 4, 5, 7, 9, 13, 17, 25, 33, 49, 65, 97, 129, 193, 257, 385, 513, 769, 1025, 1537,
     2049, 3073, 4097, 6145, 8193, 12289, 16385, 24577, 0, 0]"

definition s_dist_extra :: "nat list" where
  "s_dist_extra = [0, 0, 0, 0, 1, 1, 2, 2, 3, 3, 4, 4, 5, 5, 6, 6, 7, 7, 8, 8, 9, 9, 10, 10, 11, 11, 12, 12, 13, 13, 0, 0]"

definition read_at :: "nat list \<Rightarrow> nat \<Rightarrow> nat inflate" where
  "read_at xs i s = (if i < length xs then (Inr (xs ! i), s) else (Inl Out_Of_Bounds, s))"

text \<open>Four bytes at once into the bit buffer (\<open>MZ_READ_LE32\<close>).\<close>

definition add_four :: "unit inflate" where
  "add_four s =
     (if length (in_buf s) < in_cur s + 4 then (Inl Out_Of_Bounds, s)
      else if 64 \<le> unat (num_bits s) then (Inl Bad_Shift, s)
      else
        let w = ucast (in_buf s ! in_cur s) OR push_bit 8 (ucast (in_buf s ! (in_cur s + 1)))
                OR push_bit 16 (ucast (in_buf s ! (in_cur s + 2))) OR push_bit 24 (ucast (in_buf s ! (in_cur s + 3)))
        in (Inr (), s\<lparr>bit_buf := bit_buf s OR push_bit (unat (num_bits s)) w,
                      in_cur := in_cur s + 4, num_bits := num_bits s + 32\<rparr>))"

text \<open>One pass of the loop over literals: \<open>None\<close> when it goes on, else the symbol it ends with.\<close>

definition slow_literal :: "nat option inflate" where
  "slow_literal =
     bnd (\<lambda>s. huff_decode (m_tables s ! 0) s) (\<lambda>counter.
       if 256 \<le> counter then give (Some counter)
       else bnd (put_byte (of_nat counter)) (\<lambda>_. give None))"

definition fast_symbol :: "nat inflate" where
  "fast_symbol =
     bnd (\<lambda>s. huff_symbol (m_tables s ! 0) s) (\<lambda>(sy, code_len). bnd (consume code_len) (\<lambda>_. give sy))"

definition fast_literals :: "nat option inflate" where
  "fast_literals =
     bnd (\<lambda>s. if num_bits s < 30 then add_four s else (Inr (), s)) (\<lambda>_.
     bnd fast_symbol (\<lambda>counter.
       if counter AND 256 \<noteq> 0 then give (Some counter)
       else
         bnd fast_symbol (\<lambda>sym2.
         bnd (store_out 0 (of_nat counter)) (\<lambda>_.
           if sym2 AND 256 \<noteq> 0 then bnd (advance_out 1) (\<lambda>_. give (Some sym2))
           else bnd (store_out 1 (of_nat sym2)) (\<lambda>_. bnd (advance_out 2) (\<lambda>_. give None))))))"

definition literal_pass :: "nat option inflate" where
  "literal_pass s =
     (if length (in_buf s) - in_cur s < 4 \<or> length (out_buf s) - out_cur s < 2 then slow_literal s
      else fast_literals s)"

text \<open>The source of a match: \<open>(from - dist) & out_buf_size_mask\<close>, where the mask of a wrapping buffer is
  its size (a power of two) less one.\<close>

definition match_source :: "inflator \<Rightarrow> nat \<Rightarrow> nat \<Rightarrow> nat" where
  "match_source s frm dist =
     (if flag FLAG_NON_WRAPPING s then frm - dist
      else nat ((int frm - int dist) mod int (length (out_buf s))))"

definition read_out :: "nat \<Rightarrow> byte inflate" where
  "read_out i s = (if i < length (out_buf s) then (Inr (out_buf s ! i), s) else (Inl Out_Of_Bounds, s))"

fun copy_bytes :: "nat \<Rightarrow> nat \<Rightarrow> nat \<Rightarrow> unit inflate" where
  "copy_bytes 0 frm dist s = (Inr (), s)"
| "copy_bytes (Suc n) frm dist s =
     (if length (out_buf s) \<le> out_cur s then (Inl (Status STATUS_HAS_MORE_OUTPUT), s)
      else bnd (read_out (match_source s frm dist)) (\<lambda>b. bnd (put_byte b) (\<lambda>_. copy_bytes n (frm + 1) dist)) s)"

text \<open>The copying loops of the fast path work on the buffer with a source and a target position; \<open>None\<close> is
  an access outside the buffer.\<close>

definition copy8 :: "nat \<Rightarrow> nat \<Rightarrow> byte list \<Rightarrow> byte list option" where
  "copy8 src dst buf =
     (if length buf < src + 8 \<or> length buf < dst + 8 then None
      else Some (take dst buf @ take 8 (drop src buf) @ drop (dst + 8) buf))"

fun copy_eights :: "nat \<Rightarrow> nat \<Rightarrow> nat \<Rightarrow> byte list \<Rightarrow> byte list option" where
  "copy_eights 0 src dst buf = Some buf"
| "copy_eights (Suc n) src dst buf =
     (case copy8 src dst buf of None \<Rightarrow> None | Some buf \<Rightarrow> copy_eights n (src + 8) (dst + 8) buf)"

definition copy1 :: "nat \<Rightarrow> nat \<Rightarrow> byte list \<Rightarrow> byte list option" where
  "copy1 src dst buf = (if length buf \<le> src \<or> length buf \<le> dst then None else Some (buf[dst := buf ! src]))"

fun copy_ones :: "nat \<Rightarrow> nat \<Rightarrow> nat \<Rightarrow> byte list \<Rightarrow> byte list option" where
  "copy_ones 0 src dst buf = Some buf"
| "copy_ones (Suc n) src dst buf =
     (case copy1 src dst buf of None \<Rightarrow> None | Some buf \<Rightarrow> copy_ones n (src + 1) (dst + 1) buf)"

fun copy_threes :: "nat \<Rightarrow> nat \<Rightarrow> nat \<Rightarrow> byte list \<Rightarrow> byte list option" where
  "copy_threes (Suc (Suc (Suc n))) src dst buf =
     (case copy_ones 3 src dst buf of None \<Rightarrow> None | Some buf \<Rightarrow> copy_threes n (src + 3) (dst + 3) buf)"
| "copy_threes (Suc (Suc 0)) src dst buf = copy_ones 2 src dst buf"
| "copy_threes (Suc 0) src dst buf = copy_ones 1 src dst buf"
| "copy_threes 0 src dst buf = Some buf"

definition fast_copy :: "nat \<Rightarrow> nat \<Rightarrow> nat \<Rightarrow> nat \<Rightarrow> byte list \<Rightarrow> byte list option" where
  "fast_copy counter dist src dst buf =
     (if 9 \<le> counter \<and> counter \<le> dist then
        let k = counter div 8 in
        (case copy_eights k src dst buf of
           None \<Rightarrow> None
         | Some buf \<Rightarrow>
             let src = src + 8 * k; dst = dst + 8 * k; counter = counter AND 7
             in if counter < 3 then copy_ones counter src dst buf else copy_threes counter src dst buf)
      else copy_threes counter src dst buf)"

text \<open>A base value and the extra bits that the input adds to it.\<close>

definition with_extra :: "nat list \<Rightarrow> nat list \<Rightarrow> nat \<Rightarrow> nat inflate" where
  "with_extra bases extras i =
     bnd (read_at extras i) (\<lambda>num_extra. bnd (read_at bases i) (\<lambda>base.
       bnd (if num_extra \<noteq> 0 then get_bits num_extra else give 0) (\<lambda>extra_bits. give (base + extra_bits))))"

definition copy_from :: "nat \<Rightarrow> nat \<Rightarrow> unit inflate" where
  "copy_from counter dist s =
     (let frm = out_cur s; src = match_source s frm dist
      in if frm < dist \<and> flag FLAG_NON_WRAPPING s then (Inl (Status STATUS_FAILED), s)
         else if length (out_buf s) < max frm src + counter then copy_bytes counter frm dist s
         else case fast_copy counter dist src frm (out_buf s) of
                None \<Rightarrow> (Inl Out_Of_Bounds, s)
              | Some buf \<Rightarrow> (Inr (), s\<lparr>out_buf := buf, out_cur := frm + counter\<rparr>))"

definition copy_match :: "nat \<Rightarrow> unit inflate" where
  "copy_match sy =
     (if sy < 257 then halt Out_Of_Bounds
      else bnd (with_extra s_length_base s_length_extra (sy - 257)) (\<lambda>counter.
           bnd (\<lambda>s. huff_decode (m_tables s ! 1) s) (\<lambda>dsym.
           bnd (with_extra s_dist_base s_dist_extra dsym) (copy_from counter))))"

fun inflate_symbols :: "nat \<Rightarrow> unit inflate" where
  "inflate_symbols 0 s = (Inl No_Fuel, s)"
| "inflate_symbols (Suc fuel) s =
     bnd literal_pass (\<lambda>r.
       case r of
         None \<Rightarrow> inflate_symbols fuel
       | Some counter \<Rightarrow>
           if counter AND 511 = 256 then give ()
           else bnd (copy_match (counter AND 511)) (\<lambda>_. inflate_symbols fuel)) s"

section \<open>The decompressor\<close>

definition inflate_block :: "nat \<Rightarrow> nat \<Rightarrow> unit inflate" where
  "inflate_block fuel m_type =
     (if m_type = 0 then stored_block
      else if m_type = 3 then halt (Status STATUS_FAILED)
      else bnd (if m_type = 1 then (\<lambda>s. (Inr (), static_sizes s)) else dynamic_sizes) (\<lambda>_.
           bnd (build_tables m_type) (\<lambda>_. inflate_symbols fuel)))"

fun inflate_blocks :: "nat \<Rightarrow> unit inflate" where
  "inflate_blocks 0 s = (Inl No_Fuel, s)"
| "inflate_blocks (Suc fuel) s =
     bnd (get_bits 3) (\<lambda>m_final.
     bnd (inflate_block (Suc fuel) (drop_bit 1 m_final)) (\<lambda>_.
       if m_final AND 1 \<noteq> 0 then give () else inflate_blocks fuel)) s"

text \<open>Bytes read ahead are put back.\<close>

function put_back :: "inflator \<Rightarrow> inflator" where
  "put_back s =
     (if 0 < in_cur s \<and> 8 \<le> num_bits s then put_back (s\<lparr>in_cur := in_cur s - 1, num_bits := num_bits s - 8\<rparr>) else s)"
  by pat_completeness auto
termination by (relation "measure in_cur") auto

declare put_back.simps [simp del]

definition adler_byte :: "unit inflate" where
  "adler_byte =
     bnd raw_byte (\<lambda>b s. (Inr (), s\<lparr>m_z_adler32 := push_bit 8 (m_z_adler32 s) OR of_nat b\<rparr>))"

definition trailer :: "unit inflate" where
  "trailer =
     bnd (\<lambda>s. skip_bits (unat (num_bits s AND 7)) s) (\<lambda>_ s.
       let s = put_back s in
       if 64 \<le> unat (num_bits s) then (Inl Bad_Shift, s)
       else let s = s\<lparr>bit_buf := bit_buf s AND mask (unat (num_bits s))\<rparr> in
       if num_bits s \<noteq> 0 then (Inl Assertion, s)
       else if flag FLAG_PARSE_ZLIB_HEADER s then
         bnd adler_byte (\<lambda>_. bnd adler_byte (\<lambda>_. bnd adler_byte (\<lambda>_. adler_byte))) s
       else (Inr (), s))"

definition tinfl_body :: "nat \<Rightarrow> unit inflate" where
  "tinfl_body fuel =
     bnd zlib_header (\<lambda>_. bnd (inflate_blocks fuel) (\<lambda>_. bnd trailer (\<lambda>_. halt (Status STATUS_DONE))))"

text \<open>\<open>common_exit\<close>: read-ahead is put back, the checksum of the output computed and compared.\<close>

definition common_exit :: "int \<Rightarrow> inflator \<Rightarrow> stop + int \<times> inflator" where
  "common_exit status s =
     (let s = (if status \<noteq> STATUS_NEEDS_MORE_INPUT \<and> status \<noteq> STATUS_CANNOT_MAKE_PROGRESS then put_back s else s) in
      if 64 \<le> unat (num_bits s) then Inl Bad_Shift
      else let s = s\<lparr>bit_buf := bit_buf s AND mask (unat (num_bits s))\<rparr> in
      if (flag FLAG_PARSE_ZLIB_HEADER s \<or> flag FLAG_COMPUTE_ADLER32 s) \<and> 0 \<le> status then
        if length (out_buf s) < out_cur s then Inl Out_Of_Bounds
        else
          let (s1, s2) = adler_blocks (out_cur s mod 5552) (take (out_cur s) (out_buf s))
                           (m_check_adler32 s AND 0xFFFF, drop_bit 16 (m_check_adler32 s));
              s = s\<lparr>m_check_adler32 := push_bit 16 s2 + s1\<rparr>
          in Inr (if status = STATUS_DONE \<and> flag FLAG_PARSE_ZLIB_HEADER s \<and> m_check_adler32 s \<noteq> m_z_adler32 s
                  then STATUS_ADLER32_MISMATCH else status, s)
      else Inr (status, s))"

definition table_zero :: huff_table where
  "table_zero = \<lparr>m_code_size = replicate MAX_HUFF_SYMBOLS_0 0, m_look_up = replicate FAST_LOOKUP_SIZE 0,
     m_tree = replicate (MAX_HUFF_SYMBOLS_0 * 2) 0\<rparr>"

definition tinfl_start :: "byte list \<Rightarrow> byte list \<Rightarrow> u32 \<Rightarrow> inflator" where
  "tinfl_start inp out flags =
     \<lparr>in_buf = inp, in_cur = 0, out_buf = out, out_cur = 0, decomp_flags = flags, bit_buf = 0, num_bits = 0,
      m_z_adler32 = 1, m_check_adler32 = 1, m_table_sizes = [0, 0, 0], m_tables = replicate 3 table_zero,
      m_len_codes = replicate (288 + 32 + 137) 0\<rparr>"

definition tinfl_fuel :: "byte list \<Rightarrow> byte list \<Rightarrow> nat" where
  "tinfl_fuel inp out = 8 * length inp + length out + 1"

definition tinfl_decompress :: "byte list \<Rightarrow> byte list \<Rightarrow> u32 \<Rightarrow> stop + int \<times> inflator" where
  "tinfl_decompress inp out flags =
     (let s = tinfl_start inp out flags; n = length out in
      if \<not> flag FLAG_NON_WRAPPING s \<and> of_nat n AND (of_nat n - 1 :: u64) \<noteq> 0 then Inr (STATUS_BAD_PARAM, s)
      else case fst (tinfl_body (tinfl_fuel inp out) s) of
             Inl (Status st) \<Rightarrow> common_exit st (snd (tinfl_body (tinfl_fuel inp out) s))
           | Inl e \<Rightarrow> Inl e
           | Inr _ \<Rightarrow> Inl No_Fuel)"

end
