(* ===== verification/Huffman_Tables.thy ===== *)
theory Huffman_Tables
  imports Tinfl
begin

text \<open>
  The Huffman tables of the decompressor. The codes that \<open>next_codes\<close> assigns form a prefix code; the
  builder enters them into a direct table of 1024 entries and a binary tree, never leaves either array
  and never meets the entry of another code on its way.
\<close>

section \<open>Reversed codes\<close>

fun rev_code :: "nat \<Rightarrow> nat \<Rightarrow> nat" where
  "rev_code 0 c = 0"
| "rev_code (Suc l) c = (c mod 2) * 2 ^ l + rev_code l (c div 2)"

lemma rev_code_less: "rev_code l c < 2 ^ l"
proof (induction l arbitrary: c)
  case (Suc l)
  consider "c mod 2 = 0" | "c mod 2 = 1" by linarith
  then show ?case using Suc [of "c div 2"] by cases simp_all
qed simp

lemma or_bit: "2 * (r :: nat) OR (c AND 1) = 2 * r + c mod 2"
  by (cases "even c") (simp_all add: and_one_eq mod_2_eq_odd or_Suc_0_eq)

lemma rev_bits_eq: "rev_bits l c r = r * 2 ^ l + rev_code l c"
  by (induction l c r rule: rev_bits.induct) (simp_all only: rev_bits.simps or_bit, simp_all add: algebra_simps)

lemma rev_code_mod: "d \<le> l \<Longrightarrow> rev_code l c mod 2 ^ d = rev_code d (c div 2 ^ (l - d))"
proof (induction l arbitrary: c)
  case (Suc l)
  show ?case
  proof (cases "d = Suc l")
    case False
    then have d: "d \<le> l" using Suc.prems by simp
    then have "(c mod 2) * 2 ^ l mod 2 ^ d = 0"
      by (simp add: dvd_imp_mod_0 le_imp_power_dvd)
    then have "rev_code (Suc l) c mod 2 ^ d = rev_code l (c div 2) mod 2 ^ d"
      by (simp add: mod_add_eq [of "(c mod 2) * 2 ^ l", symmetric] del: mult_mod_left)
    also have "\<dots> = rev_code d (c div 2 ^ (Suc l - d))"
      using Suc.IH [OF d, of "c div 2"] d by (simp add: Suc_diff_le div_mult2_eq)
    finally show ?thesis .
  qed (use rev_code_less [of "Suc l" c] in simp)
qed simp

lemma rev_code_bit: "d < l \<Longrightarrow> rev_code l c div 2 ^ d mod 2 = c div 2 ^ (l - Suc d) mod 2"
proof -
  assume d: "d < l"
  have "rev_code l c div 2 ^ d mod 2 = rev_code l c mod 2 ^ Suc d div 2 ^ d"
    using div_exp_mod_exp_eq [of "rev_code l c" d 1] by simp
  also have "\<dots> = rev_code (Suc d) (c div 2 ^ (l - Suc d)) div 2 ^ d"
    using rev_code_mod [of "Suc d" l c] d by (simp only: Suc_leI)
  also have "\<dots> = c div 2 ^ (l - Suc d) mod 2"
    using rev_code_less [of d "c div 2 ^ (l - Suc d) div 2"] by simp
  finally show ?thesis .
qed

lemma rev_code_inject: "c < 2 ^ l \<Longrightarrow> c' < 2 ^ l \<Longrightarrow> rev_code l c = rev_code l c' \<longleftrightarrow> c = c'"
proof (induction l arbitrary: c c')
  case (Suc l)
  have "c = c'" if eq: "rev_code (Suc l) c = rev_code (Suc l) c'"
  proof -
    have "rev_code (Suc l) c div 2 ^ l = c mod 2" "rev_code (Suc l) c' div 2 ^ l = c' mod 2" for c
      using rev_code_less [of l "c div 2"] rev_code_less [of l "c' div 2"] by simp_all
    then have m: "c mod 2 = c' mod 2" using eq by metis
    then have "rev_code l (c div 2) = rev_code l (c' div 2)" using eq by simp
    then have "c div 2 = c' div 2" using Suc.IH [of "c div 2" "c' div 2"] Suc.prems by simp
    then show ?thesis using m by (metis div_mult_mod_eq)
  qed
  then show ?case by auto
qed simp

lemma rev_code_onto: "i < 2 ^ l \<Longrightarrow> \<exists>c < 2 ^ l. i = rev_code l c"
proof -
  have "inj_on (rev_code l) {..<2 ^ l}" by (auto intro!: inj_onI simp: rev_code_inject)
  then have "rev_code l ` {..<2 ^ l} = {..<2 ^ l}"
    by (intro endo_inj_surj) (auto simp: rev_code_less)
  then show "i < 2 ^ l \<Longrightarrow> \<exists>c < 2 ^ l. i = rev_code l c" by (auto simp: image_iff set_eq_iff)
qed

text \<open>The slot of a code of ten bits or more in the direct table.\<close>

lemma rev_code_slot: "10 \<le> l \<Longrightarrow> rev_code l c AND 1023 = rev_code 10 (c div 2 ^ (l - 10))"
  using rev_code_mod [of 10 l c] take_bit_eq_mask [of 10 "rev_code l c"] take_bit_eq_mod [of 10 "rev_code l c"]
  by (simp add: mask_eq_exp_minus_1)

section \<open>The codes assigned to the sizes\<close>

definition sizes_ok :: "nat list \<Rightarrow> bool" where
  "sizes_ok sizes \<longleftrightarrow> length sizes \<le> 288 \<and> (\<forall>c \<in> set sizes. c < 16)"

lemma fold_counts:
  "\<forall>c \<in> set cs. c < length t \<Longrightarrow>
   length (fold (\<lambda>c t. t[c := t ! c + 1]) cs t) = length t \<and>
   (\<forall>i < length t. fold (\<lambda>c t. t[c := t ! c + 1]) cs t ! i = t ! i + count_list cs i)" for t :: "nat list"
  by (induction cs arbitrary: t) (auto simp: nth_list_update)

lemma total_syms_nth:
  "sizes_ok sizes \<Longrightarrow> i < 16 \<Longrightarrow> total_syms sizes ! i = count_list sizes i"
  using fold_counts [of sizes "replicate 16 0"] by (simp add: total_syms_def sizes_ok_def)

fun first_code :: "nat list \<Rightarrow> nat \<Rightarrow> nat" where
  "first_code sizes 0 = 0"
| "first_code sizes (Suc l) = (if l = 0 then 0 else 2 * (first_code sizes l + count_list sizes l))"

lemma next_codes_eq:
  assumes "sizes_ok sizes"
  shows "\<exists>nc. next_codes (total_syms sizes) = (\<Sum>i\<in>{1..<16}. count_list sizes i, first_code sizes 16, nc) \<and>
    length nc = 17 \<and> (\<forall>i \<le> 16. nc ! i = first_code sizes i)"
proof -
  let ?f = "\<lambda>i (used_syms, total, next_code). let total = 2 * (total + total_syms sizes ! i)
    in (used_syms + total_syms sizes ! i, total, next_code[i + 1 := total])"
  have "\<exists>nc. fold ?f [1..<Suc n] (0, 0, replicate 17 0) = (\<Sum>i\<in>{1..<Suc n}. count_list sizes i, first_code sizes (Suc n), nc) \<and>
    length nc = 17 \<and> (\<forall>i \<le> Suc n. nc ! i = first_code sizes i)" if "n < 16" for n
    using that
  proof (induction n)
    case 0
    have "replicate 17 0 ! i = first_code sizes i" if "i \<le> Suc 0" for i
      using that by (cases i) simp_all
    then show ?case by simp
  next
    case (Suc n)
    then obtain nc where nc: "fold ?f [1..<Suc n] (0, 0, replicate 17 0) =
        (\<Sum>i\<in>{1..<Suc n}. count_list sizes i, first_code sizes (Suc n), nc)"
      and len: "length nc = 17" and nth: "\<forall>i \<le> Suc n. nc ! i = first_code sizes i" by auto
    have "[1..<Suc (Suc n)] = [1..<Suc n] @ [Suc n]" by simp
    then have "fold ?f [1..<Suc (Suc n)] (0, 0, replicate 17 0) =
        ?f (Suc n) (\<Sum>i\<in>{1..<Suc n}. count_list sizes i, first_code sizes (Suc n), nc)"
      by (simp only: fold_append nc fold.simps o_apply id_apply)
    then show ?case
      using Suc.prems len nth total_syms_nth [OF assms, of "Suc n"]
      by (auto simp: Let_def nth_list_update le_Suc_eq)
  qed
  from this [of 15] show ?thesis by (simp add: next_codes_def)
qed

text \<open>The codes of a list of sizes that passes the check of the builder.\<close>

definition codes :: "nat list \<Rightarrow> (nat \<times> nat) set" where
  "codes sizes = {(l, c). 1 \<le> l \<and> l \<le> 15 \<and> first_code sizes l \<le> c \<and> c < first_code sizes l + count_list sizes l}"

lemma first_code_later:
  assumes "1 \<le> l" and "l < l'"
  shows "(first_code sizes l + count_list sizes l) * 2 ^ (l' - l) \<le> first_code sizes l'"
  using assms(2)
proof (induction l')
  case (Suc n)
  show ?case
  proof (cases "l = n")
    case False
    then have "(first_code sizes l + count_list sizes l) * 2 ^ (n - l) \<le> first_code sizes n"
      using Suc by simp
    then show ?thesis using Suc.prems assms(1) False by (simp add: Suc_diff_le)
  qed (use assms in simp)
qed simp

lemma codes_prefix_free:
  assumes "(l, c) \<in> codes sizes" and "(l', c') \<in> codes sizes" and "l \<le> l'" and "c' div 2 ^ (l' - l) = c"
  shows "l' = l"
proof (rule ccontr)
  assume "l' \<noteq> l"
  then have "(first_code sizes l + count_list sizes l) * 2 ^ (l' - l) \<le> c'"
    using assms first_code_later [of l l' sizes] by (force simp: codes_def)
  then have "first_code sizes l + count_list sizes l \<le> c' div 2 ^ (l' - l)"
    by (simp add: less_eq_div_iff_mult_less_eq)
  then show False using assms by (auto simp: codes_def)
qed

definition kraft :: "nat list \<Rightarrow> bool" where
  "kraft sizes \<longleftrightarrow> first_code sizes 16 = 65536 \<or> (\<Sum>i\<in>{1..<16}. count_list sizes i) \<le> 1"

lemma first_code_few: "first_code sizes (Suc l) \<le> 2 ^ l * (\<Sum>i\<in>{1..<Suc l}. count_list sizes i)"
proof (induction l)
  case (Suc l)
  let ?S = "\<Sum>i\<in>{1..<Suc l}. count_list sizes i" and ?k = "count_list sizes (Suc l)"
  have "2 * ?k \<le> 2 ^ Suc l * ?k" by simp
  moreover have "first_code sizes (Suc (Suc l)) = 2 * first_code sizes (Suc l) + 2 * ?k" by simp
  moreover have "(\<Sum>i\<in>{1..<Suc (Suc l)}. count_list sizes i) = ?S + ?k" by simp
  ultimately show ?case using Suc.IH by (simp only: power_Suc algebra_simps)
qed simp

lemma kraft_total: "kraft sizes \<Longrightarrow> first_code sizes 16 \<le> 65536"
  using first_code_few [of sizes 15] by (auto simp: kraft_def intro: order_trans)

lemma codes_bound:
  assumes "kraft sizes" and "1 \<le> l" and "l \<le> 15"
  shows "first_code sizes l + count_list sizes l \<le> 2 ^ l"
proof -
  have "(first_code sizes l + count_list sizes l) * 2 ^ (16 - l) \<le> 65536"
    using first_code_later [of l 16 sizes] kraft_total [OF assms(1)] assms by simp
  also have "(65536 :: nat) = 2 ^ l * 2 ^ (16 - l)"
    using assms by (simp flip: power_add)
  finally show ?thesis by simp
qed

lemma codes_less: "kraft sizes \<Longrightarrow> (l, c) \<in> codes sizes \<Longrightarrow> c < 2 ^ l"
  using codes_bound [of sizes l] by (simp add: codes_def)

text \<open>The proper prefixes of at least ten bits: the nodes of the tree. There are at most 288.\<close>

definition inner :: "nat list \<Rightarrow> (nat \<times> nat) set" where
  "inner sizes = {(d, p). 10 \<le> d \<and> (\<exists>l c. (l, c) \<in> codes sizes \<and> d < l \<and> p = c div 2 ^ (l - d))}"

lemma inner_range:
  assumes "kraft sizes" and "(d, p) \<in> inner sizes"
  shows "10 \<le> d \<and> d \<le> 14 \<and> first_code sizes d + count_list sizes d \<le> p \<and> p < 2 ^ d"
proof -
  obtain l c where lc: "(l, c) \<in> codes sizes" "d < l" "p = c div 2 ^ (l - d)" and d: "10 \<le> d"
    using assms(2) by (auto simp: inner_def)
  have "c < 2 ^ d * 2 ^ (l - d)"
    using codes_less [OF assms(1) lc(1)] lc(2) by (simp flip: power_add)
  then have "p < 2 ^ d" using lc(3) by (simp add: less_mult_imp_div_less)
  moreover have "(first_code sizes d + count_list sizes d) * 2 ^ (l - d) \<le> c"
    using first_code_later [of d l sizes] d lc by (simp add: codes_def)
  then have "first_code sizes d + count_list sizes d \<le> p"
    using lc(3) by (simp add: less_eq_div_iff_mult_less_eq)
  ultimately show ?thesis using d lc by (simp add: codes_def)
qed

lemma count_sum: "(\<Sum>i\<in>{1..<n}. count_list sizes i) \<le> length sizes" for sizes :: "nat list"
proof (induction sizes)
  case (Cons a sizes)
  have "(\<Sum>i\<in>{1..<n}. count_list (a # sizes) i) = (\<Sum>i\<in>{1..<n}. count_list sizes i) + (\<Sum>i\<in>{1..<n}. if a = i then 1 else 0)"
    unfolding sum.distrib [symmetric] by (intro sum.cong) simp_all
  also have "(\<Sum>i\<in>{1..<n}. if a = i then 1 else 0) \<le> (1 :: nat)"
    by (subst sum.delta') simp_all
  finally show ?case using Cons.IH by simp
qed simp

lemma inner_subset:
  "kraft sizes \<Longrightarrow> inner sizes \<subseteq> (SIGMA d:{10..14}. {first_code sizes d + count_list sizes d..<2 ^ d})"
  using inner_range [of sizes] by auto

lemma inner_finite: "kraft sizes \<Longrightarrow> finite (inner sizes)"
  by (rule finite_subset [OF inner_subset]) (auto intro: finite_SigmaI)

lemma card_inner_complete:
  assumes "first_code sizes 16 = 65536" and "length sizes \<le> 288"
  shows "card (inner sizes) \<le> 288"
proof -
  let ?f = "first_code sizes" and ?k = "count_list sizes"
  have k: "kraft sizes" using assms by (simp add: kraft_def)
  have "card (inner sizes) \<le> card (SIGMA d:{10..14}. {?f d + ?k d..<2 ^ d})"
    by (rule card_mono [OF _ inner_subset [OF k]]) simp
  also have "\<dots> = (\<Sum>d\<in>{10..14}. 2 ^ d - (?f d + ?k d))" by simp
  also have "{10..14} = {10, 11, 12, 13, 14 :: nat}" by auto
  also have "(\<Sum>d\<in>{10, 11, 12, 13, 14}. 2 ^ d - (?f d + ?k d)) \<le> ?k 11 + ?k 12 + ?k 13 + ?k 14 + ?k 15"
  proof -
    have "?f (Suc d) = 2 * (?f d + ?k d)" if "1 \<le> d" for d using that by simp
    from this [of 10] this [of 11] this [of 12] this [of 13] this [of 14] this [of 15]
    have "?f 11 = 2 * (?f 10 + ?k 10)" "?f 12 = 2 * (?f 11 + ?k 11)" "?f 13 = 2 * (?f 12 + ?k 12)"
      "?f 14 = 2 * (?f 13 + ?k 13)" "?f 15 = 2 * (?f 14 + ?k 14)" "?f 16 = 2 * (?f 15 + ?k 15)"
      by (simp_all add: eval_nat_numeral del: first_code.simps)
    moreover have "?f d + ?k d \<le> 2 ^ d" if "d \<in> {10..15}" for d
      using codes_bound [OF k, of d] that by simp
    from this [of 10] this [of 11] this [of 12] this [of 13] this [of 14] this [of 15]
    have "?f 10 + ?k 10 \<le> 1024" "?f 11 + ?k 11 \<le> 2048" "?f 12 + ?k 12 \<le> 4096" "?f 13 + ?k 13 \<le> 8192"
      "?f 14 + ?k 14 \<le> 16384" "?f 15 + ?k 15 \<le> 32768" by simp_all
    ultimately show ?thesis using assms(1) by (simp del: first_code.simps)
  qed
  also have "\<dots> \<le> (\<Sum>i\<in>{1..<16}. ?k i)" by (simp add: atLeastLessThan_nat_numeral eval_nat_numeral)
  also have "\<dots> \<le> 288" using count_sum [of sizes 16] assms(2) by simp
  finally show ?thesis .
qed

lemma codes_single:
  assumes "(\<Sum>i\<in>{1..<16}. count_list sizes i) \<le> 1" and "(l, c) \<in> codes sizes" and "(l', c') \<in> codes sizes"
  shows "l' = l \<and> c' = c"
proof -
  have k: "1 \<le> count_list sizes l" "1 \<le> count_list sizes l'" "l \<in> {1..<16}" "l' \<in> {1..<16}"
    using assms(2,3) by (auto simp: codes_def)
  have "l = l'"
  proof (rule ccontr)
    assume "l \<noteq> l'"
    then have "(\<Sum>i\<in>{l, l'}. count_list sizes i) \<le> (\<Sum>i\<in>{1..<16}. count_list sizes i)"
      using k by (intro sum_mono2) auto
    then show False using assms(1) k \<open>l \<noteq> l'\<close> by simp
  qed
  moreover have "count_list sizes l \<le> 1"
    using member_le_sum [OF k(3), of "count_list sizes"] assms(1) by simp
  ultimately show ?thesis using assms(2,3) by (auto simp: codes_def)
qed

lemma card_inner:
  assumes "kraft sizes" and "length sizes \<le> 288"
  shows "card (inner sizes) \<le> 288"
proof (cases "first_code sizes 16 = 65536 \<or> codes sizes = {}")
  case True
  then show ?thesis
    using card_inner_complete [OF _ assms(2)] by (auto simp: inner_def)
next
  case False
  then obtain l c where lc: "(l, c) \<in> codes sizes" by auto
  have "inner sizes \<subseteq> (\<lambda>d. (d, c div 2 ^ (l - d))) ` {10..14}"
  proof
    fix x assume x: "x \<in> inner sizes"
    then obtain d l' c' where "(l', c') \<in> codes sizes" "x = (d, c' div 2 ^ (l' - d))" "10 \<le> d"
      by (auto simp: inner_def)
    moreover have "l' = l \<and> c' = c"
      using codes_single [OF _ lc calculation(1)] False assms(1) by (auto simp: kraft_def)
    ultimately show "x \<in> (\<lambda>d. (d, c div 2 ^ (l - d))) ` {10..14}"
      using inner_range [OF assms(1), of d] x by auto
  qed
  then have "card (inner sizes) \<le> card ((\<lambda>d. (d, c div 2 ^ (l - d))) ` {10..14})"
    by (intro card_mono) simp_all
  also have "\<dots> \<le> card {10..14 :: nat}" by (rule card_image_le) simp
  finally show ?thesis by simp
qed

section \<open>The state of the builder\<close>

text \<open>\<open>ps\<close> lists the prefixes of the tree's nodes in the order in which they were made. Node \<open>q\<close> is the
  number \<open>node q\<close> in the tables, and its children are the entries \<open>2 q\<close> and \<open>2 q + 1\<close> of the tree.\<close>

definition node :: "nat \<Rightarrow> int" where
  "node q = - int (2 * q) - 1"

lemma node_simps [simp]: "node q < 0" "nat (node q) = 0" "\<not> 0 < node q" "node q \<noteq> 0" "(node q = node q') = (q = q')" "\<not> 0 \<le> node q"
  by (auto simp: node_def)

definition child :: "(nat \<times> nat) list \<Rightarrow> nat \<Rightarrow> nat \<Rightarrow> nat \<times> nat" where
  "child ps q b = (fst (ps ! q) + 1, 2 * snd (ps ! q) + b)"

definition entry_ok :: "nat list \<Rightarrow> (nat \<times> nat) list \<Rightarrow> nat \<times> nat \<Rightarrow> int \<Rightarrow> bool" where
  "entry_ok sizes ps dp v \<longleftrightarrow>
     (if v < 0 then \<exists>q < length ps. v = node q \<and> ps ! q = dp
      else dp \<notin> set ps \<and> (0 < v \<longrightarrow> dp \<notin> inner sizes))"

definition nodes_ok :: "nat list \<Rightarrow> (nat \<times> nat) list \<Rightarrow> bool" where
  "nodes_ok sizes ps \<longleftrightarrow> distinct ps \<and> set ps \<subseteq> inner sizes \<and>
     (\<forall>(d, p) \<in> set ps. d = 10 \<or> (d - 1, p div 2) \<in> set ps)"

definition tree_ok :: "nat list \<Rightarrow> (nat \<times> nat) list \<Rightarrow> int list \<Rightarrow> bool" where
  "tree_ok sizes ps tree \<longleftrightarrow> length tree = 576 \<and> nodes_ok sizes ps \<and>
     (\<forall>i. 2 * length ps \<le> i \<and> i < 576 \<longrightarrow> tree ! i = 0) \<and>
     (\<forall>q < length ps. \<forall>b < 2. tree ! (2 * q + b) < int (max 1 (length sizes)) \<and>
        entry_ok sizes ps (child ps q b) (tree ! (2 * q + b)))"

definition look_ok :: "nat list \<Rightarrow> (nat \<times> nat) list \<Rightarrow> int list \<Rightarrow> bool" where
  "look_ok sizes ps tab \<longleftrightarrow> length tab = 1024 \<and>
     (\<forall>x < 1024. let v = tab ! rev_code 10 x in entry_ok sizes ps (10, x) v \<and>
        nat v AND 511 < max 1 (length sizes) \<and>
        (0 < v \<longrightarrow> drop_bit 9 (nat v) \<le> 10 \<and> (drop_bit 9 (nat v), x div 2 ^ (10 - drop_bit 9 (nat v))) \<in> codes sizes))"

definition builder_ok :: "nat list \<Rightarrow> (nat \<times> nat) list \<Rightarrow> table_build \<Rightarrow> bool" where
  "builder_ok sizes ps b \<longleftrightarrow> tree_ok sizes ps (tb_tree b) \<and> look_ok sizes ps (tb_look_up b) \<and>
     tb_tree_next b = node (length ps)"

text \<open>What entering a code leaves alone: the entries that lead to no node.\<close>

definition kept :: "nat list \<Rightarrow> (nat \<times> nat) list \<Rightarrow> int list \<Rightarrow> int list \<Rightarrow> bool" where
  "kept sizes ps tree tree' \<longleftrightarrow>
     (\<forall>q < length ps. \<forall>b < 2. child ps q b \<notin> inner sizes \<longrightarrow> tree' ! (2 * q + b) = tree ! (2 * q + b))"

lemma nodes_few:
  assumes "nodes_ok sizes ps" and "kraft sizes" and "length sizes \<le> 288"
  shows "length ps \<le> 288"
proof -
  have "length ps = card (set ps)" using assms(1) by (simp add: nodes_ok_def distinct_card)
  also have "\<dots> \<le> card (inner sizes)"
    using assms(1) inner_finite [OF assms(2)] by (intro card_mono) (auto simp: nodes_ok_def)
  finally show ?thesis using card_inner [OF assms(2,3)] by simp
qed

lemma child_inject:
  assumes "distinct ps" and "q < length ps" and "q' < length ps" and "b < 2" and "b' < 2"
  shows "child ps q b = child ps q' b' \<longleftrightarrow> q = q' \<and> b = b'"
proof -
  have "ps ! q = ps ! q'" "b = b'" if "child ps q b = child ps q' b'"
    using that assms(4,5) by (auto simp: child_def prod_eq_iff; presburger)+
  then show ?thesis using assms nth_eq_iff_index_eq by blast
qed

lemma child_append [simp]: "q < length ps \<Longrightarrow> child (ps @ zs) q b = child ps q b"
  by (simp add: child_def nth_append)

lemma child_append_new [simp]: "child (ps @ [(d, p)]) (length ps) b = (d + 1, 2 * p + b)"
  by (simp add: child_def)

lemma add_mult_index: "2 * r + b = 2 * q + b' \<Longrightarrow> b < 2 \<Longrightarrow> b' < 2 \<Longrightarrow> r = q \<and> b = b'" for r b q b' :: nat
  by presburger

lemma nodes_append:
  assumes "nodes_ok sizes ps" and "(d, p) \<in> inner sizes" and "(d, p) \<notin> set ps" and "d = 10 \<or> (d - 1, p div 2) \<in> set ps"
  shows "nodes_ok sizes (ps @ [(d, p)])"
  using assms by (auto simp: nodes_ok_def)

lemma entry_append:
  assumes "entry_ok sizes ps dp v" and "dp \<notin> set zs"
  shows "entry_ok sizes (ps @ zs) dp v"
proof (cases "v < 0")
  case True
  then obtain q where "q < length ps" "v = node q" "ps ! q = dp" using assms(1) by (auto simp: entry_ok_def)
  then have "q < length (ps @ zs)" "(ps @ zs) ! q = dp" by (simp_all add: nth_append)
  then show ?thesis using True \<open>v = node q\<close> unfolding entry_ok_def by auto
qed (use assms in \<open>simp add: entry_ok_def\<close>)

text \<open>A new node: the entry that leads to it, if it is one of the tree's, is set to its number.\<close>

lemma tree_append:
  assumes "tree_ok sizes ps tree" and "nodes_ok sizes (ps @ [(d, p)])" and "length tree' = 576"
    and "\<And>q b. q < length ps \<Longrightarrow> b < 2 \<Longrightarrow>
      tree' ! (2 * q + b) = (if child ps q b = (d, p) then node (length ps) else tree ! (2 * q + b))"
    and "\<And>i. 2 * length ps \<le> i \<Longrightarrow> tree' ! i = tree ! i" and "length ps < 288"
  shows "tree_ok sizes (ps @ [(d, p)]) tree'"
proof -
  have new: "(d + 1, 2 * p + b) \<notin> set (ps @ [(d, p)])" if "b < 2" for b
  proof
    assume a: "(d + 1, 2 * p + b) \<in> set (ps @ [(d, p)])"
    have "10 \<le> d" using assms(2) by (auto simp: nodes_ok_def inner_def)
    then have "(d, (2 * p + b) div 2) \<in> set ps"
      using a assms(1) by (auto simp: tree_ok_def nodes_ok_def)
    then show False using assms(2) that by (simp add: nodes_ok_def)
  qed
  have "tree' ! (2 * q + b) < int (max 1 (length sizes)) \<and>
      entry_ok sizes (ps @ [(d, p)]) (child (ps @ [(d, p)]) q b) (tree' ! (2 * q + b))"
    if "q < length (ps @ [(d, p)])" "b < 2" for q b
  proof (cases "q = length ps")
    case True
    have "tree' ! (2 * length ps + b) = 0"
      using assms(1,5,6) that(2) by (simp add: tree_ok_def)
    then show ?thesis using new [OF that(2)] True by (simp add: entry_ok_def)
  next
    case False
    then have q: "q < length ps" using that by simp
    note e = assms(4) [OF q that(2)]
    show ?thesis
    proof (cases "child ps q b = (d, p)")
      case True
      then have "entry_ok sizes (ps @ [(d, p)]) (d, p) (node (length ps))" by (auto simp: entry_ok_def)
      then show ?thesis using e q True by (simp add: order_less_trans [OF node_simps(1)])
    next
      case False
      then show ?thesis using e q assms(1) that(2) entry_append [of sizes ps "child ps q b" _ "[(d, p)]"]
        by (simp add: tree_ok_def)
    qed
  qed
  then show ?thesis using assms(1-3,5) by (simp add: tree_ok_def)
qed

lemma tree_index_node: "tree_index tree (node q - int b) = (if 2 * q + b < length tree then Some (2 * q + b) else None)"
  by (auto simp: tree_index_def node_def nat_eq_iff algebra_simps)

lemma tree_entry:
  "tree_ok sizes ps tree \<Longrightarrow> q < length ps \<Longrightarrow> b < 2 \<Longrightarrow> entry_ok sizes ps (child ps q b) (tree ! (2 * q + b))"
  by (simp add: tree_ok_def)

text \<open>The leaf of a code.\<close>

lemma tree_leaf:
  assumes "tree_ok sizes ps tree" and "q < length ps" and "b < 2" and "child ps q b = (l, c)"
    and "(l, c) \<in> codes sizes" and "sy < length sizes"
  shows "tree_ok sizes ps (tree[2 * q + b := int sy])"
proof -
  have not_inner: "(l, c) \<notin> inner sizes"
    using codes_prefix_free [OF assms(5)] by (fastforce simp: inner_def)
  then have e: "entry_ok sizes ps (l, c) (int sy)"
    using assms(1) by (auto simp: entry_ok_def tree_ok_def nodes_ok_def)
  have other: "2 * q' + b' \<noteq> 2 * q + b" if "q' \<noteq> q \<or> b' \<noteq> b" "b' < 2" for q' b'
    using that assms(3) by presburger
  have "tree[2 * q + b := int sy] ! (2 * q' + b') < int (max 1 (length sizes)) \<and>
      entry_ok sizes ps (child ps q' b') (tree[2 * q + b := int sy] ! (2 * q' + b'))"
    if q': "q' < length ps" "b' < 2" for q' b'
  proof (cases "q' = q \<and> b' = b")
    case True
    show ?thesis
    proof (cases "2 * q + b < length tree")
      case True
      then show ?thesis using \<open>q' = q \<and> b' = b\<close> e assms(4,6) by simp
    next
      case False
      then have "tree[2 * q + b := int sy] = tree" by (simp add: list_update_beyond)
      then show ?thesis using assms(1) q' by (simp add: tree_ok_def)
    qed
  next
    case False
    then show ?thesis using assms(1) q' other [of q' b'] by (simp add: tree_ok_def)
  qed
  moreover have "tree[2 * q + b := int sy] ! i = 0" if "2 * length ps \<le> i" "i < 576" for i
    using that assms(1-3) by (simp add: tree_ok_def nth_list_update_neq)
  ultimately show ?thesis using assms(1) by (simp add: tree_ok_def)
qed

text \<open>A new node below node \<open>q\<close>.\<close>

lemma tree_alloc:
  assumes t: "tree_ok sizes ps tree" and "q < length ps" and "b < 2" and "child ps q b = (d, p)"
    and "(d, p) \<in> inner sizes" and "tree ! (2 * q + b) = 0" and "kraft sizes" and "length sizes \<le> 288"
  shows "tree_ok sizes (ps @ [(d, p)]) (tree[2 * q + b := node (length ps)])" and "2 * length ps + 1 < 576"
proof -
  have dist: "distinct ps" and nodes: "nodes_ok sizes ps" using t by (simp_all add: tree_ok_def nodes_ok_def)
  have "entry_ok sizes ps (d, p) 0"
    using t assms(2-4,6) by (fastforce simp: tree_ok_def)
  then have "(d, p) \<notin> set ps" by (simp add: entry_ok_def)
  moreover have "(d - 1, p div 2) = ps ! q" using assms(3,4) by (auto simp: child_def prod_eq_iff)
  ultimately have new: "nodes_ok sizes (ps @ [(d, p)])"
    using nodes assms(2,5) by (intro nodes_append) auto
  note few = nodes_few [OF new assms(7,8)]
  then show "2 * length ps + 1 < 576" by simp
  show "tree_ok sizes (ps @ [(d, p)]) (tree[2 * q + b := node (length ps)])"
  proof (rule tree_append [OF t new])
    fix q' b' assume q': "q' < length ps" "b' < (2 :: nat)"
    have "2 * q + b = 2 * q' + b' \<longleftrightarrow> q' = q \<and> b' = b" using q'(2) assms(3) by presburger
    then show "tree[2 * q + b := node (length ps)] ! (2 * q' + b') =
        (if child ps q' b' = (d, p) then node (length ps) else tree ! (2 * q' + b'))"
      using child_inject [OF dist q'(1) assms(2) q'(2) assms(3)] assms(2,3,4) few t
      by (simp add: nth_list_update tree_ok_def)
  qed (use t assms(2,3) few in \<open>auto simp: tree_ok_def nth_list_update_neq\<close>)
qed

text \<open>A new node at the root of the tree, reached from the direct table.\<close>

lemma tree_root:
  assumes t: "tree_ok sizes ps tree" and "(10, p) \<in> inner sizes" and "(10, p) \<notin> set ps"
    and "kraft sizes" and "length sizes \<le> 288"
  shows "tree_ok sizes (ps @ [(10, p)]) tree"
proof -
  have new: "nodes_ok sizes (ps @ [(10, p)])"
    using t assms(2,3) by (intro nodes_append) (auto simp: tree_ok_def)
  note few = nodes_few [OF new assms(4,5)]
  have "10 \<le> fst (ps ! q)" if "q < length ps" for q
    using t nth_mem [OF that] by (auto simp: tree_ok_def nodes_ok_def inner_def)
  then have "child ps q b \<noteq> (10, p)" if "q < length ps" for q b
    using that by (fastforce simp: child_def)
  then show ?thesis
    by (intro tree_append [OF t new]) (use t few in \<open>auto simp: tree_ok_def\<close>)
qed

section \<open>Entering a code\<close>

lemma child_on_path:
  assumes "ps ! q = (d, c div 2 ^ (l - d))" and "d < l"
  shows "child ps q (c div 2 ^ (l - Suc d) mod 2) = (Suc d, c div 2 ^ (l - Suc d))"
proof -
  have "l - d = Suc (l - Suc d)" using assms(2) by simp
  then have "(2 :: nat) ^ (l - d) = 2 ^ (l - Suc d) * 2" by simp
  then have "c div 2 ^ (l - d) = c div 2 ^ (l - Suc d) div 2" by (simp only: div_mult2_eq)
  then show ?thesis using assms(1) by (simp add: child_def)
qed

lemma next_bit:
  assumes "10 \<le> d" and "d < l"
  shows "rev_code l c div 2 ^ (d - 1) div 2 = rev_code l c div 2 ^ d"
    and "(rev_code l c div 2 ^ (d - 1) div 2) AND 1 = c div 2 ^ (l - Suc d) mod 2"
proof -
  have "2 ^ d = (2 :: nat) ^ (d - 1) * 2" using assms(1) by (simp flip: power_Suc2)
  then show e: "rev_code l c div 2 ^ (d - 1) div 2 = rev_code l c div 2 ^ d" by (simp add: div_mult2_eq)
  show "(rev_code l c div 2 ^ (d - 1) div 2) AND 1 = c div 2 ^ (l - Suc d) mod 2"
    unfolding e using rev_code_bit [OF assms(2), of c] by (simp add: and_one_eq)
qed

lemma descend_ok:
  assumes "tree_ok sizes ps tree" and "q < length ps" and "ps ! q = (d, c div 2 ^ (l - d))"
    and "(l, c) \<in> codes sizes" and "l = Suc d + j" and "10 \<le> d" and kr: "kraft sizes" "length sizes \<le> 288"
  shows "\<exists>zs tree' q'. descend j (rev_code l c div 2 ^ (d - 1)) (node q) tree (node (length ps)) =
      Inr (rev_code l c div 2 ^ (l - 2), node q', tree', node (length (ps @ zs))) \<and>
    tree_ok sizes (ps @ zs) tree' \<and> q' < length (ps @ zs) \<and> (ps @ zs) ! q' = (l - 1, c div 2) \<and>
    kept sizes ps tree tree' \<and> (\<forall>x. (10, x) \<notin> set zs)"
  using assms(1-3,5,6)
proof (induction j arbitrary: ps tree q d)
  case 0
  then have "l - 2 = d - 1" "l - 1 = d" "l - d = 1" by simp_all
  then show ?case using 0 by (intro exI [of _ "[]"] exI [of _ tree] exI [of _ q]) (simp add: kept_def)
next
  case (Suc j)
  let ?b = "c div 2 ^ (l - Suc d) mod 2" and ?p = "c div 2 ^ (l - Suc d)"
  have d: "d < l" "Suc d < l" using Suc.prems(4) by simp_all
  note bit = next_bit [OF Suc.prems(5) d(1), of c]
  note ch = child_on_path [OF Suc.prems(3) d(1)]
  have inn: "(Suc d, ?p) \<in> inner sizes" using Suc.prems(5) assms(4) d(2) by (auto simp: inner_def)
  have few: "length ps \<le> 288" using nodes_few [OF _ kr] Suc.prems(1) by (simp add: tree_ok_def)
  have i: "2 * q + ?b < length tree" using few Suc.prems(1,2) by (simp add: tree_ok_def)
  have e: "entry_ok sizes ps (Suc d, ?p) (tree ! (2 * q + ?b))"
    using tree_entry [OF Suc.prems(1,2), of ?b] ch by simp
  have step: "descend (Suc j) (rev_code l c div 2 ^ (d - 1)) (node q) tree (node (length ps)) =
      (if tree ! (2 * q + ?b) = 0
       then descend j (rev_code l c div 2 ^ d) (node (length ps)) (tree[2 * q + ?b := node (length ps)]) (node (Suc (length ps)))
       else descend j (rev_code l c div 2 ^ d) (tree ! (2 * q + ?b)) tree (node (length ps)))"
    using bit i tree_index_node [of tree q ?b] by (simp add: Let_def node_def)
  show ?case
  proof (cases "tree ! (2 * q + ?b) = 0")
    case True
    let ?ps = "ps @ [(Suc d, ?p)]" and ?tree = "tree[2 * q + ?b := node (length ps)]"
    have "tree_ok sizes ?ps ?tree"
      by (rule tree_alloc(1) [OF Suc.prems(1,2) _ ch inn True kr]) simp
    from Suc.IH [OF this, of "length ps" "Suc d"] obtain zs tree' q' where
      "descend j (rev_code l c div 2 ^ d) (node (length ps)) ?tree (node (Suc (length ps))) =
         Inr (rev_code l c div 2 ^ (l - 2), node q', tree', node (length (?ps @ zs)))"
      "tree_ok sizes (?ps @ zs) tree'" "q' < length (?ps @ zs)" "(?ps @ zs) ! q' = (l - 1, c div 2)"
      "kept sizes ?ps ?tree tree'" "\<forall>x. (10, x) \<notin> set zs"
      using Suc.prems(4,5) by auto
    moreover have "kept sizes ps tree tree'"
    proof -
      have "tree' ! (2 * r + b) = tree ! (2 * r + b)" if "r < length ps" "b < 2" "child ps r b \<notin> inner sizes" for r b
      proof -
        have "tree' ! (2 * r + b) = ?tree ! (2 * r + b)" using calculation(5) that by (simp add: kept_def)
        moreover have "2 * r + b \<noteq> 2 * q + ?b" using that(2,3) inn ch add_mult_index [of r b q ?b] by auto
        ultimately show ?thesis by simp
      qed
      then show ?thesis by (simp add: kept_def)
    qed
    ultimately show ?thesis
      using True step Suc.prems(5) by (intro exI [of _ "(Suc d, ?p) # zs"] exI [of _ tree'] exI [of _ q']) simp
  next
    case False
    then obtain r where r: "tree ! (2 * q + ?b) = node r" "r < length ps" "ps ! r = (Suc d, ?p)"
      using e inn by (auto simp: entry_ok_def split: if_splits)
    from Suc.IH [OF Suc.prems(1) r(2,3)] show ?thesis
      using Suc.prems(4,5) step r(1) False by simp
  qed
qed

text \<open>A code of more than ten bits, once its slot holds a node.\<close>

lemma enter_long:
  assumes "tree_ok sizes ps tree" and "q < length ps" and "ps ! q = (10, c div 2 ^ (l - 10))"
    and lc: "(l, c) \<in> codes sizes" and "10 < l" and kr: "kraft sizes" "length sizes \<le> 288" and "sy < length sizes"
  shows "\<exists>zs rc tree_cur tree' i. descend (l - 11) (rev_code l c div 2 ^ 9) (node q) tree (node (length ps)) =
      Inr (rc, tree_cur, tree', node (length (ps @ zs))) \<and>
    tree_index tree' (tree_cur - int ((rc div 2) AND 1)) = Some i \<and>
    tree_ok sizes (ps @ zs) (tree'[i := int sy]) \<and> (\<forall>x. (10, x) \<notin> set zs) \<and> kept sizes ps tree tree' \<and>
    (\<exists>r < length (ps @ zs). i = 2 * r + c mod 2 \<and> i < length tree' \<and> child (ps @ zs) r (c mod 2) = (l, c))"
proof -
  let ?b = "c mod 2"
  obtain zs tree' q' where d: "descend (l - 11) (rev_code l c div 2 ^ 9) (node q) tree (node (length ps)) =
      Inr (rev_code l c div 2 ^ (l - 2), node q', tree', node (length (ps @ zs)))"
    and t: "tree_ok sizes (ps @ zs) tree'" and q': "q' < length (ps @ zs)" and p: "(ps @ zs) ! q' = (l - 1, c div 2)"
    and zs: "\<forall>x. (10, x) \<notin> set zs" and k: "kept sizes ps tree tree'"
    using descend_ok [OF assms(1-3) lc _ _ kr, of "l - 11"] assms(5) by auto
  have "l - 2 = (l - 1) - 1" "l - Suc (l - 1) = 0" using assms(5) by simp_all
  then have bit: "(rev_code l c div 2 ^ (l - 2) div 2) AND 1 = ?b"
    using next_bit(2) [of "l - 1" l c] assms(5) by simp
  have ch: "child (ps @ zs) q' ?b = (l, c)"
    using p assms(5) by (simp add: child_def)
  have "length (ps @ zs) \<le> 288" using nodes_few [OF _ kr, of "ps @ zs"] t unfolding tree_ok_def by blast
  then have lt: "2 * q' + ?b < length tree'" using q' t by (simp add: tree_ok_def)
  then have i: "tree_index tree' (node q' - int ((rev_code l c div 2 ^ (l - 2) div 2) AND 1)) = Some (2 * q' + ?b)"
    using tree_index_node [of tree' q' ?b] bit by simp
  show ?thesis
    using d i tree_leaf [OF t q' _ ch lc assms(8)] zs k lt q' ch by (intro exI conjI) auto
qed

lemma look_node:
  assumes "look_ok sizes ps tab" and "x < 1024" and "(10, x) \<in> inner sizes" and "tab ! rev_code 10 x \<noteq> 0"
  obtains q where "tab ! rev_code 10 x = node q" and "q < length ps" and "ps ! q = (10, x)"
  using assms by (auto simp: look_ok_def Let_def entry_ok_def split: if_splits)

lemma look_append:
  assumes "look_ok sizes ps tab" and "\<forall>x. (10, x) \<notin> set zs"
  shows "look_ok sizes (ps @ zs) tab"
  using assms by (simp add: look_ok_def Let_def entry_append)

lemma look_root:
  assumes "look_ok sizes ps tab" and "x < 1024"
  shows "look_ok sizes (ps @ [(10, x)]) (tab[rev_code 10 x := node (length ps)])"
proof -
  have less: "rev_code 10 y < 1024" for y using rev_code_less [of 10 y] by simp
  have "entry_ok sizes (ps @ [(10, x)]) (10, y) (tab[rev_code 10 x := node (length ps)] ! rev_code 10 y)" if "y < 1024" for y
  proof (cases "y = x")
    case True
    then have "tab[rev_code 10 x := node (length ps)] ! rev_code 10 y = node (length ps)"
      using less assms(1) by (simp add: look_ok_def)
    then show ?thesis using True by (auto simp: entry_ok_def)
  next
    case False
    then have "rev_code 10 x \<noteq> rev_code 10 y" using rev_code_inject [of x 10 y] that assms(2) by simp
    moreover have "entry_ok sizes (ps @ [(10, x)]) (10, y) (tab ! rev_code 10 y)"
      using assms(1) that False by (intro entry_append) (simp_all add: look_ok_def Let_def)
    ultimately show ?thesis by simp
  qed
  moreover have "nat v AND 511 < max 1 (length sizes) \<and> (0 < v \<longrightarrow> drop_bit 9 (nat v) \<le> 10 \<and>
      (drop_bit 9 (nat v), y div 2 ^ (10 - drop_bit 9 (nat v))) \<in> codes sizes)"
    if "y < 1024" "v = tab[rev_code 10 x := node (length ps)] ! rev_code 10 y" for y v
  proof (cases "y = x")
    case True
    then have "v = node (length ps)" using that less assms(1) by (simp add: look_ok_def)
    then show ?thesis by simp
  next
    case False
    then have "rev_code 10 x \<noteq> rev_code 10 y" using rev_code_inject [of x 10 y] that assms(2) by simp
    then show ?thesis using assms(1) that by (simp add: look_ok_def Let_def)
  qed
  ultimately have "let v = tab[rev_code 10 x := node (length ps)] ! rev_code 10 y
      in entry_ok sizes (ps @ [(10, x)]) (10, y) v \<and> nat v AND 511 < max 1 (length sizes) \<and>
        (0 < v \<longrightarrow> drop_bit 9 (nat v) \<le> 10 \<and> (drop_bit 9 (nat v), y div 2 ^ (10 - drop_bit 9 (nat v))) \<in> codes sizes)"
    if "y < 1024" for y
    using that by (simp add: Let_def)
  then show ?thesis using assms(1) by (simp add: look_ok_def)
qed

text \<open>A code of at most ten bits: all slots that end in it.\<close>

lemma fill_look_up_nth:
  "length (fill_look_up r l k tab) = length tab \<and> (\<forall>i < length tab.
     fill_look_up r l k tab ! i = (if r \<le> i \<and> i < 1024 \<and> (i - r) mod 2 ^ l = 0 then k else tab ! i))"
proof (induction r l k tab rule: fill_look_up.induct)
  case (1 r l k tab)
  show ?case
  proof (cases "r < FAST_LOOKUP_SIZE")
    case True
    note ih = 1 [OF True]
    have cond: "(r \<le> i \<and> (i - r) mod 2 ^ l = 0) \<longleftrightarrow> i = r \<or> r + 2 ^ l \<le> i \<and> (i - (r + 2 ^ l)) mod 2 ^ l = 0" for i
    proof (cases "r + 2 ^ l \<le> i")
      case True
      then have "i - (r + 2 ^ l) = i - r - 2 ^ l" "2 ^ l \<le> i - r" by simp_all
      then show ?thesis using True le_mod_geq [of "2 ^ l" "i - r"] by auto
    next
      case False
      then show ?thesis by (cases "i - r = 0") (auto simp: mod_less)
    qed
    have "fill_look_up r l k tab ! i = (if i < 1024 \<and> (r \<le> i \<and> (i - r) mod 2 ^ l = 0) then k else tab ! i)"
      if "i < length tab" for i
      unfolding cond using ih that True
      by (cases "i = r") (simp_all add: fill_look_up.simps [of r] FAST_LOOKUP_SIZE_def conj_ac)
    then show ?thesis
      using ih True by (simp add: fill_look_up.simps [of r] conj_ac)
  qed (auto simp: fill_look_up.simps [of r] FAST_LOOKUP_SIZE_def)
qed

lemma fill_slot:
  assumes "l \<le> 10" and "c < 2 ^ l" and "x < 1024" and "length tab = 1024"
  shows "fill_look_up (rev_code l c) l k tab ! rev_code 10 x = (if x div 2 ^ (10 - l) = c then k else tab ! rev_code 10 x)"
proof -
  have less: "rev_code 10 x < 1024" using rev_code_less [of 10 x] by simp
  have "x < 2 ^ l * 2 ^ (10 - l)" using assms(1,3) by (simp flip: power_add)
  then have x: "x div 2 ^ (10 - l) < 2 ^ l" by (simp add: less_mult_imp_div_less)
  have "(rev_code l c \<le> rev_code 10 x \<and> (rev_code 10 x - rev_code l c) mod 2 ^ l = 0) \<longleftrightarrow>
      rev_code 10 x mod 2 ^ l = rev_code l c"
    using rev_code_less [of l c] by (metis mod_eq_dvd_iff_nat mod_less mod_less_eq_dividend mod_0_imp_dvd mod_eq_0_iff_dvd)
  also have "\<dots> \<longleftrightarrow> x div 2 ^ (10 - l) = c"
    using rev_code_mod [OF assms(1), of x] rev_code_inject [OF x assms(2)] by simp
  finally show ?thesis using fill_look_up_nth [of "rev_code l c" l k tab] less assms(4) by auto
qed

lemma entry_value:
  fixes l sy :: nat
  assumes "sy < 512"
  shows "(push_bit 9 l OR sy) AND 511 = sy" and "drop_bit 9 (push_bit 9 l OR sy) = l"
proof -
  have "drop_bit 9 sy = 0" "take_bit 9 sy = sy"
    using assms by (simp_all add: drop_bit_eq_div take_bit_eq_mod)
  moreover have "drop_bit 9 (push_bit 9 l) = l" by (simp add: drop_bit_eq_div push_bit_eq_mult)
  moreover have "take_bit 9 (push_bit 9 l) = 0" by (simp add: take_bit_push_bit)
  ultimately show "drop_bit 9 (push_bit 9 l OR sy) = l" "(push_bit 9 l OR sy) AND 511 = sy"
    using take_bit_eq_mask [of 9 "push_bit 9 l OR sy"] take_bit_or [of 9 "push_bit 9 l" sy]
    by (simp_all add: drop_bit_or mask_eq_exp_minus_1)
qed

lemma enter_short:
  assumes "look_ok sizes ps tab" and "nodes_ok sizes ps" and lc: "(l, c) \<in> codes sizes" and "l \<le> 10"
    and kr: "kraft sizes" and "length sizes \<le> 288" and "sy < length sizes"
  shows "look_ok sizes ps (fill_look_up (rev_code l c) l (int (push_bit 9 l OR sy)) tab)"
proof -
  let ?v = "int (push_bit 9 l OR sy)"
  have len: "length tab = 1024" using assms(1) by (simp add: look_ok_def)
  note slot = fill_slot [OF assms(4) codes_less [OF kr lc] _ len]
  have v: "nat ?v AND 511 = sy" "drop_bit 9 (nat ?v) = l"
    using entry_value [of sy l] assms(6,7) by (simp_all only: nat_int)
  have "(10, x) \<notin> inner sizes" if x: "x div 2 ^ (10 - l) = c" for x
  proof
    assume "(10, x) \<in> inner sizes"
    then obtain l' c' where l': "(l', c') \<in> codes sizes" "10 < l'" "x = c' div 2 ^ (l' - 10)"
      by (auto simp: inner_def)
    have "c' div 2 ^ (l' - l) = c"
      using x l' assms(4) by (simp flip: div_mult2_eq power_add)
    then show False using codes_prefix_free [OF lc l'(1)] l'(2) assms(4) by simp
  qed
  then have "entry_ok sizes ps (10, x) ?v" if "x div 2 ^ (10 - l) = c" for x
    using that assms(2) by (auto simp: entry_ok_def nodes_ok_def)
  moreover have "1 \<le> l" "l \<le> 15" using lc by (auto simp: codes_def)
  ultimately show ?thesis
    using assms(1,4,7) lc fill_look_up_nth [of "rev_code l c" l ?v tab] v slot by (simp add: look_ok_def Let_def)
qed

section \<open>The whole table\<close>

text \<open>The codes handed out so far are those of the sizes met so far.\<close>

definition counters_ok :: "nat list \<Rightarrow> nat \<Rightarrow> nat list \<Rightarrow> bool" where
  "counters_ok sizes sy nc \<longleftrightarrow> length nc = 17 \<and>
     (\<forall>l \<in> {1..15}. nc ! l = first_code sizes l + count_list (take sy sizes) l)"

lemma counters_code:
  assumes "counters_ok sizes sy nc" and "sizes_ok sizes" and "sy < length sizes" and "0 < sizes ! sy"
  shows "(sizes ! sy, nc ! (sizes ! sy)) \<in> codes sizes"
    and "counters_ok sizes (Suc sy) (nc[sizes ! sy := nc ! (sizes ! sy) + 1])"
proof -
  let ?l = "sizes ! sy"
  have l: "?l \<in> {1..15}" using assms(2-4) by (auto simp: sizes_ok_def dest!: bspec [OF _ nth_mem [OF assms(3)]])
  have "count_list sizes ?l = count_list (take (Suc sy) sizes) ?l + count_list (drop (Suc sy) sizes) ?l"
    by (simp flip: count_list_append)
  moreover have "count_list (take (Suc sy) sizes) i = count_list (take sy sizes) i + (if ?l = i then 1 else 0)" for i
    using assms(3) by (simp add: take_Suc_conv_app_nth)
  ultimately show "(?l, nc ! ?l) \<in> codes sizes" "counters_ok sizes (Suc sy) (nc[?l := nc ! ?l + 1])"
    using assms(1) l by (auto simp: codes_def counters_ok_def nth_list_update)
qed

lemma counters_skip:
  assumes "counters_ok sizes sy nc" and "sy < length sizes" and "sizes ! sy = 0"
  shows "counters_ok sizes (Suc sy) nc"
  using assms by (auto simp: counters_ok_def take_Suc_conv_app_nth)

text \<open>The code of a symbol, and where a table holds it.\<close>

definition code_of :: "nat list \<Rightarrow> nat \<Rightarrow> nat \<times> nat" where
  "code_of sizes sy = (sizes ! sy, first_code sizes (sizes ! sy) + count_list (take sy sizes) (sizes ! sy))"

definition entered :: "(nat \<times> nat) list \<Rightarrow> int list \<Rightarrow> int list \<Rightarrow> nat \<Rightarrow> nat \<times> nat \<Rightarrow> bool" where
  "entered ps look tree sy = (\<lambda>(l, c).
     if l \<le> 10 then \<forall>x < 1024. x div 2 ^ (10 - l) = c \<longrightarrow> look ! rev_code 10 x = int (push_bit 9 l OR sy)
     else \<exists>q < length ps. child ps q (c mod 2) = (l, c) \<and> tree ! (2 * q + c mod 2) = int sy)"

lemma code_not_inner: "(l, c) \<in> codes sizes \<Longrightarrow> (l, c) \<notin> inner sizes"
  using codes_prefix_free [of l c] by (fastforce simp: inner_def)

lemma codes_apart_le:
  assumes "(l, c) \<in> codes sizes" and "(l', c') \<in> codes sizes" and "l \<le> l'" and "l' \<le> 10"
    and "x div 2 ^ (10 - l) = c" and "x div 2 ^ (10 - l') = c'"
  shows "l = l' \<and> c = c'"
proof -
  have "10 - l = (10 - l') + (l' - l)" using assms(3,4) by simp
  then have "c' div 2 ^ (l' - l) = c" using assms(5,6) by (simp add: div_mult2_eq power_add)
  with codes_prefix_free [OF assms(1,2,3)] show ?thesis using assms(5,6) by auto
qed

lemma codes_apart:
  assumes "(l, c) \<in> codes sizes" and "(l', c') \<in> codes sizes" and "l \<le> 10" and "l' \<le> 10"
    and "x div 2 ^ (10 - l) = c" and "x div 2 ^ (10 - l') = c'"
  shows "l = l' \<and> c = c'"
  using codes_apart_le [OF assms(1,2) _ assms(4-6)] codes_apart_le [OF assms(2,1) _ assms(3,6,5)] by linarith

lemma entered_mono:
  assumes e: "entered ps look tree sy lc" and lc: "lc \<in> codes sizes" "lc0 \<in> codes sizes" "lc \<noteq> lc0"
    and tree: "\<And>q b. q < length ps \<Longrightarrow> b < 2 \<Longrightarrow> child ps q b \<notin> inner sizes \<Longrightarrow> child ps q b \<noteq> lc0 \<Longrightarrow>
      tree' ! (2 * q + b) = tree ! (2 * q + b)"
    and look: "\<And>x. x < 1024 \<Longrightarrow> look ! rev_code 10 x \<noteq> 0 \<Longrightarrow> \<not> (fst lc0 \<le> 10 \<and> x div 2 ^ (10 - fst lc0) = snd lc0) \<Longrightarrow>
      look' ! rev_code 10 x = look ! rev_code 10 x"
  shows "entered (ps @ zs) look' tree' sy lc"
proof -
  obtain l c l0 c0 where c: "lc = (l, c)" "lc0 = (l0, c0)" by fastforce
  show ?thesis
  proof (cases "l \<le> 10")
    case True
    have "look' ! rev_code 10 x = int (push_bit 9 l OR sy)" if x: "x < 1024" "x div 2 ^ (10 - l) = c" for x
    proof -
      have v: "look ! rev_code 10 x = int (push_bit 9 l OR sy)" using e x True c by (simp add: entered_def)
      have "push_bit 9 l OR sy \<noteq> 0" using lc(1) c by (auto simp: codes_def push_bit_eq_mult or_eq_0_iff)
      then have "look ! rev_code 10 x \<noteq> 0" unfolding v by (metis of_nat_eq_0_iff)
      moreover have "\<not> (l0 \<le> 10 \<and> x div 2 ^ (10 - l0) = c0)"
        using codes_apart [of l c sizes l0 c0 x] lc c x True by auto
      ultimately show ?thesis using look [OF x(1)] v c by simp
    qed
    then show ?thesis using True c by (simp add: entered_def)
  next
    case False
    then obtain q where q: "q < length ps" "child ps q (c mod 2) = (l, c)" "tree ! (2 * q + c mod 2) = int sy"
      using e c by (auto simp: entered_def)
    have "tree' ! (2 * q + c mod 2) = int sy"
      using tree [OF q(1), of "c mod 2"] q code_not_inner [of l c sizes] lc c by simp
    then show ?thesis using q False c by (auto simp: entered_def intro!: exI [of _ q])
  qed
qed

definition all_entered :: "nat list \<Rightarrow> nat \<Rightarrow> (nat \<times> nat) list \<Rightarrow> table_build \<Rightarrow> bool" where
  "all_entered sizes n ps b \<longleftrightarrow>
     (\<forall>sy < n. sizes ! sy \<noteq> 0 \<longrightarrow> entered ps (tb_look_up b) (tb_tree b) sy (code_of sizes sy))"

lemma code_of_codes:
  assumes "sizes_ok sizes" and "sy < length sizes" and "sizes ! sy \<noteq> 0"
  shows "code_of sizes sy \<in> codes sizes"
proof -
  let ?l = "sizes ! sy"
  have "count_list sizes ?l = count_list (take sy sizes) ?l + count_list (drop sy sizes) ?l"
    by (simp flip: count_list_append)
  moreover have "0 < count_list (drop sy sizes) ?l" using assms(2) by (simp flip: Cons_nth_drop_Suc)
  moreover have "?l < 16" using assms(1,2) by (simp add: sizes_ok_def)
  ultimately show ?thesis using assms(3) by (simp add: codes_def code_of_def)
qed

lemma code_of_inject:
  assumes "sy < sy'" and "sy' < length sizes"
  shows "code_of sizes sy \<noteq> code_of sizes sy'"
proof
  assume e: "code_of sizes sy = code_of sizes sy'"
  have "take sy' sizes = take sy sizes @ take (sy' - sy) (drop sy sizes)"
    using assms(1) by (metis le_add_diff_inverse less_imp_le take_add)
  moreover have "drop sy sizes = sizes ! sy # drop (Suc sy) sizes" using assms by (simp add: Cons_nth_drop_Suc)
  ultimately have "count_list (take sy sizes) (sizes ! sy) < count_list (take sy' sizes) (sizes ! sy)"
    using assms(1) by (cases "sy' - sy") simp_all
  moreover have eq: "sizes ! sy = sizes ! sy'" using e by (simp add: code_of_def)
  then have "count_list (take sy sizes) (sizes ! sy') = count_list (take sy' sizes) (sizes ! sy')"
    using e by (simp add: code_of_def)
  ultimately show False using eq by simp
qed

lemma all_entered_Suc:
  assumes "all_entered sizes sy ps b" and s: "sizes_ok sizes" "kraft sizes" "sy < length sizes" "sizes ! sy \<noteq> 0"
    and "entered (ps @ zs) (tb_look_up b') (tb_tree b') sy (code_of sizes sy)"
    and tree: "\<And>q r. q < length ps \<Longrightarrow> r < 2 \<Longrightarrow> child ps q r \<notin> inner sizes \<Longrightarrow> child ps q r \<noteq> code_of sizes sy \<Longrightarrow>
      tb_tree b' ! (2 * q + r) = tb_tree b ! (2 * q + r)"
    and look: "\<And>x. x < 1024 \<Longrightarrow> tb_look_up b ! rev_code 10 x \<noteq> 0 \<Longrightarrow>
      \<not> (fst (code_of sizes sy) \<le> 10 \<and> x div 2 ^ (10 - fst (code_of sizes sy)) = snd (code_of sizes sy)) \<Longrightarrow>
      tb_look_up b' ! rev_code 10 x = tb_look_up b ! rev_code 10 x"
  shows "all_entered sizes (Suc sy) (ps @ zs) b'"
  unfolding all_entered_def
proof (intro allI impI)
  fix i assume i: "i < Suc sy" "sizes ! i \<noteq> 0"
  show "entered (ps @ zs) (tb_look_up b') (tb_tree b') i (code_of sizes i)"
  proof (cases "i = sy")
    case False
    then have sy: "i < sy" using i by simp
    then have "entered ps (tb_look_up b) (tb_tree b) i (code_of sizes i)" using assms(1) i by (simp add: all_entered_def)
    moreover have "code_of sizes i \<in> codes sizes" "code_of sizes sy \<in> codes sizes" "code_of sizes i \<noteq> code_of sizes sy"
      using code_of_codes s i code_of_inject [OF sy s(3)] sy by auto
    ultimately show ?thesis by (rule entered_mono) (use tree look in blast)+
  qed (use assms(6) in simp)
qed

lemma enter_slot:
  assumes b: "builder_ok sizes ps b" and lc: "(l, c) \<in> codes sizes" and "10 < l" and kr: "kraft sizes" "length sizes \<le> 288"
  shows "\<exists>q ps1 b1.
      (if tb_look_up b ! rev_code 10 (c div 2 ^ (l - 10)) = 0
       then (tb_tree_next b, b\<lparr>tb_next_code := nc, tb_look_up := (tb_look_up b)[rev_code 10 (c div 2 ^ (l - 10)) := tb_tree_next b],
               tb_tree_next := tb_tree_next b - 2\<rparr>)
       else (tb_look_up b ! rev_code 10 (c div 2 ^ (l - 10)), b\<lparr>tb_next_code := nc\<rparr>)) = (node q, b1) \<and>
    builder_ok sizes ps1 b1 \<and> tb_next_code b1 = nc \<and> q < length ps1 \<and> ps1 ! q = (10, c div 2 ^ (l - 10)) \<and>
    (\<exists>zs. ps1 = ps @ zs) \<and> tb_tree b1 = tb_tree b \<and>
    (\<forall>i. tb_look_up b ! i \<noteq> 0 \<longrightarrow> tb_look_up b1 ! i = tb_look_up b ! i)"
proof -
  let ?x = "c div 2 ^ (l - 10)"
  have t: "tree_ok sizes ps (tb_tree b)" and lk: "look_ok sizes ps (tb_look_up b)" and nx: "tb_tree_next b = node (length ps)"
    using b by (simp_all add: builder_ok_def)
  have inn: "(10, ?x) \<in> inner sizes" using lc assms(3) by (auto simp: inner_def)
  then have x: "?x < 1024" using inner_range [OF kr(1)] by fastforce
  show ?thesis
  proof (cases "tb_look_up b ! rev_code 10 ?x = 0")
    case True
    have "entry_ok sizes ps (10, ?x) (tb_look_up b ! rev_code 10 ?x)"
      using lk x by (simp add: look_ok_def Let_def)
    then have new: "(10, ?x) \<notin> set ps" using True by (simp add: entry_ok_def)
    have upd: "(tb_look_up b)[rev_code 10 ?x := v] ! i = tb_look_up b ! i" if "tb_look_up b ! i \<noteq> 0" for i v
      using True that by (metis nth_list_update_neq)
    from tree_root [OF t inn new kr] look_root [OF lk x] show ?thesis
      using True nx by (intro exI [of _ "length ps"] exI [of _ "ps @ [(10, ?x)]"]
          exI [of _ "b\<lparr>tb_next_code := nc, tb_look_up := (tb_look_up b)[rev_code 10 ?x := tb_tree_next b],
            tb_tree_next := tb_tree_next b - 2\<rparr>"]) (auto simp: builder_ok_def node_def upd)
  next
    case False
    then obtain q where "tb_look_up b ! rev_code 10 ?x = node q" "q < length ps" "ps ! q = (10, ?x)"
      using look_node [OF lk x inn] by blast
    then show ?thesis
      using b by (intro exI [of _ q] exI [of _ ps] exI [of _ "b\<lparr>tb_next_code := nc\<rparr>"]) (auto simp: builder_ok_def)
  qed
qed

lemma insert_symbol_ok:
  assumes b: "builder_ok sizes ps b" and c: "counters_ok sizes sy (tb_next_code b)"
    and s: "sizes_ok sizes" "kraft sizes" and sy: "sy < length sizes" and en: "all_entered sizes sy ps b"
  shows "\<exists>b' zs. insert_symbol sy (sizes ! sy) b = Inr b' \<and> builder_ok sizes (ps @ zs) b' \<and>
    counters_ok sizes (Suc sy) (tb_next_code b') \<and> all_entered sizes (Suc sy) (ps @ zs) b'"
proof (cases "sizes ! sy = 0")
  case True
  then show ?thesis using b counters_skip [OF c sy] en
    by (intro exI [of _ b] exI [of _ "[]"]) (auto simp: insert_symbol_def all_entered_def less_Suc_eq)
next
  case False
  let ?l = "sizes ! sy" and ?c = "tb_next_code b ! (sizes ! sy)"
  let ?r = "rev_code ?l ?c" and ?nc = "(tb_next_code b)[?l := ?c + 1]"
  have len: "length sizes \<le> 288" "?l < 16" using s(1) sy by (simp_all add: sizes_ok_def)
  note cc = counters_code [OF c s(1) sy] and kr = s(2) len(1)
  have code: "(?l, ?c) \<in> codes sizes" and cnt: "counters_ok sizes (Suc sy) ?nc" using cc False by simp_all
  have t: "tree_ok sizes ps (tb_tree b)" and lk: "look_ok sizes ps (tb_look_up b)" and nx: "tb_tree_next b = node (length ps)"
    using b by (simp_all add: builder_ok_def)
  have nd: "nodes_ok sizes ps" using t by (simp add: tree_ok_def)
  have own: "code_of sizes sy = (?l, ?c)"
    using c len False by (simp add: code_of_def counters_ok_def)
  show ?thesis
  proof (cases "?l \<le> 10")
    case True
    let ?look = "fill_look_up ?r ?l (int (push_bit 9 ?l OR sy)) (tb_look_up b)"
    note slot = fill_slot [OF True codes_less [OF kr(1) code]]
    let ?b = "b\<lparr>tb_next_code := ?nc, tb_look_up := ?look\<rparr>"
    have "all_entered sizes (Suc sy) (ps @ []) ?b"
    proof (rule all_entered_Suc [OF en s sy False])
      show "entered (ps @ []) (tb_look_up ?b) (tb_tree ?b) sy (code_of sizes sy)"
        using slot lk True by (simp add: entered_def own look_ok_def)
    qed (use slot lk True in \<open>auto simp: own look_ok_def\<close>)
    then show ?thesis
      using enter_short [OF lk nd code True kr sy] False len(2) t nx cnt True
      by (intro exI [of _ ?b] exI [of _ "[]"])
        (auto simp: insert_symbol_def Let_def rev_bits_eq FAST_LOOKUP_BITS_def builder_ok_def)
  next
    case long: False
    let ?x = "?c div 2 ^ (?l - 10)"
    have slot: "?r AND (FAST_LOOKUP_SIZE - 1) = rev_code 10 ?x"
      using rev_code_slot [of ?l ?c] long by (simp add: FAST_LOOKUP_SIZE_def)
    let ?b = "b\<lparr>tb_next_code := ?nc\<rparr>"
    let ?slot = "if tb_look_up b ! rev_code 10 ?x = 0
      then (tb_tree_next b, ?b\<lparr>tb_look_up := (tb_look_up b)[rev_code 10 ?x := tb_tree_next b], tb_tree_next := tb_tree_next b - 2\<rparr>)
      else (tb_look_up b ! rev_code 10 ?x, ?b)"
    obtain q ps1 b1 where s1: "?slot = (node q, b1)" "builder_ok sizes ps1 b1" "tb_next_code b1 = ?nc"
        "q < length ps1" "ps1 ! q = (10, ?x)" "\<exists>zs. ps1 = ps @ zs" "tb_tree b1 = tb_tree b"
        "\<forall>i. tb_look_up b ! i \<noteq> 0 \<longrightarrow> tb_look_up b1 ! i = tb_look_up b ! i"
      using enter_slot [OF b code _ kr, of ?nc] long by auto
    have t1: "tree_ok sizes ps1 (tb_tree b1)" "tb_tree_next b1 = node (length ps1)" and l: "10 < ?l"
      using s1(2) long by (simp_all add: builder_ok_def)
    obtain zs rc cur tree' i where d: "descend (?l - 11) (?r div 2 ^ 9) (node q) (tb_tree b1) (tb_tree_next b1) =
        Inr (rc, cur, tree', node (length (ps1 @ zs)))"
      "tree_index tree' (cur - int ((rc div 2) AND 1)) = Some i" "tree_ok sizes (ps1 @ zs) (tree'[i := int sy])"
      "\<forall>x. (10, x) \<notin> set zs" "kept sizes ps1 (tb_tree b1) tree'"
      "\<exists>r < length (ps1 @ zs). i = 2 * r + ?c mod 2 \<and> i < length tree' \<and> child (ps1 @ zs) r (?c mod 2) = (?l, ?c)"
      using enter_long [OF t1(1) s1(4,5) code l kr sy] unfolding t1(2) by blast
    obtain zs1 where zs1: "ps1 = ps @ zs1" using s1(6) by blast
    let ?b2 = "b1\<lparr>tb_tree := tree'[i := int sy], tb_tree_next := node (length (ps1 @ zs))\<rparr>"
    have "insert_symbol sy ?l b = Inr ?b2"
      using s1(1) d(1,2) slot False long len(2)
      by (cases "tb_look_up b ! rev_code 10 ?x = 0")
        (auto simp: insert_symbol_def Let_def rev_bits_eq FAST_LOOKUP_BITS_def drop_bit_eq_div simp del: One_nat_def)
    moreover have "all_entered sizes (Suc sy) (ps @ zs1 @ zs) ?b2"
    proof (rule all_entered_Suc [OF en s sy False])
      show "entered (ps @ zs1 @ zs) (tb_look_up ?b2) (tb_tree ?b2) sy (code_of sizes sy)"
        using d(6) long zs1 by (auto simp: entered_def own)
    next
      fix q' b' assume q': "q' < length ps" "b' < (2 :: nat)" "child ps q' b' \<notin> inner sizes" "child ps q' b' \<noteq> code_of sizes sy"
      have "i \<noteq> 2 * q' + b'"
      proof
        assume "i = 2 * q' + b'"
        then obtain r where r: "2 * r + ?c mod 2 = 2 * q' + b'" "child (ps @ zs1 @ zs) r (?c mod 2) = (?l, ?c)"
          using d(6) zs1 by auto
        then have "r = q'" "?c mod 2 = b'" using add_mult_index [OF r(1)] q' by auto
        then show False using r(2) q' own by simp
      qed
      then show "tb_tree ?b2 ! (2 * q' + b') = tb_tree b ! (2 * q' + b')"
        using d(5) q' zs1 s1(7) by (simp add: kept_def)
    qed (use s1(8) in simp_all)
    ultimately show ?thesis
      using d(3,4) s1(2,3) cnt look_append [of sizes ps1 "tb_look_up b1" zs] zs1
      by (intro exI [of _ ?b2] exI [of _ "zs1 @ zs"]) (auto simp: builder_ok_def)
  qed
qed

lemma insert_symbols_ok:
  assumes "builder_ok sizes ps b" and "counters_ok sizes sy (tb_next_code b)"
    and "sizes_ok sizes" "kraft sizes" and "sizes = pre @ cs" and "sy = length pre" and "all_entered sizes sy ps b"
  shows "\<exists>b' ps'. insert_symbols sy cs b = Inr b' \<and> builder_ok sizes ps' b' \<and> all_entered sizes (length sizes) ps' b'"
  using assms
proof (induction cs arbitrary: pre sy ps b)
  case (Cons c cs)
  have c: "sizes ! sy = c" "sy < length sizes" using Cons.prems(5,6) by simp_all
  obtain b' ps' where b': "insert_symbol sy c b = Inr b'" "builder_ok sizes ps' b'" "counters_ok sizes (Suc sy) (tb_next_code b')"
      "all_entered sizes (Suc sy) ps' b'"
    using insert_symbol_ok [OF Cons.prems(1-4) c(2) Cons.prems(7)] c(1) by auto
  from Cons.IH [OF b'(2,3) Cons.prems(3,4), of "pre @ [c]"] show ?case
    using b'(1,4) Cons.prems(5,6) by simp
qed auto

lemma builder_start:
  assumes "length nc = 17" and "\<forall>i \<le> 16. nc ! i = first_code sizes i"
  shows "builder_ok sizes [] \<lparr>tb_next_code = nc, tb_look_up = replicate FAST_LOOKUP_SIZE 0,
      tb_tree = replicate (MAX_HUFF_SYMBOLS_0 * 2) 0, tb_tree_next = -1\<rparr>"
    and "counters_ok sizes 0 nc"
proof -
  have "rev_code 10 x < 1024" for x using rev_code_less [of 10 x] by simp
  then show "builder_ok sizes [] \<lparr>tb_next_code = nc, tb_look_up = replicate FAST_LOOKUP_SIZE 0,
      tb_tree = replicate (MAX_HUFF_SYMBOLS_0 * 2) 0, tb_tree_next = -1\<rparr>"
    by (simp add: builder_ok_def tree_ok_def look_ok_def nodes_ok_def entry_ok_def node_def FAST_LOOKUP_SIZE_def
        MAX_HUFF_SYMBOLS_0_def Let_def less_max_iff_disj)
  show "counters_ok sizes 0 nc" using assms by (simp add: counters_ok_def)
qed

text \<open>A table is built, or its sizes are refused: no array is left.\<close>

lemma make_table_cases:
  assumes "sizes_ok sizes"
  shows "if kraft sizes
    then \<exists>b ps. make_table sizes = Inr (tb_look_up b, tb_tree b) \<and> builder_ok sizes ps b \<and> all_entered sizes (length sizes) ps b
    else make_table sizes = Inl (Status STATUS_FAILED)"
proof -
  obtain nc where nc: "next_codes (total_syms sizes) = (\<Sum>i\<in>{1..<16}. count_list sizes i, first_code sizes 16, nc)"
      "length nc = 17" "\<forall>i \<le> 16. nc ! i = first_code sizes i"
    using next_codes_eq [OF assms] by blast
  have small: "\<not> list_ex (\<lambda>c. 16 \<le> c) sizes" using assms by (auto simp: sizes_ok_def list_ex_iff)
  show ?thesis
  proof (cases "kraft sizes")
    case True
    then have ok: "\<not> (first_code sizes 16 \<noteq> 65536 \<and> 1 < (\<Sum>i\<in>{1..<16}. count_list sizes i))"
      by (auto simp: kraft_def)
    from insert_symbols_ok [OF builder_start(1) [OF nc(2,3)] _ assms True, where pre = "[]" and cs = sizes and sy = 0] builder_start(2) [OF nc(2,3)]
    show ?thesis using True nc(1) ok small by (auto simp: make_table_def all_entered_def simp del: first_code.simps)
  qed (use nc(1) small in \<open>simp add: make_table_def kraft_def del: first_code.simps\<close>)
qed

section \<open>What a finished table promises\<close>

text \<open>From the entry \<open>v\<close> every walk meets a symbol below \<open>n\<close> within \<open>k\<close> steps, inside the tree.\<close>

fun shallow :: "nat \<Rightarrow> int list \<Rightarrow> nat \<Rightarrow> int \<Rightarrow> bool" where
  "shallow n tree 0 v \<longleftrightarrow> 0 \<le> v \<and> v < int n"
| "shallow n tree (Suc k) v \<longleftrightarrow>
     (if 0 \<le> v then v < int n
      else \<forall>i \<in> {nat (- v - 1), nat (- v)}. i < length tree \<and> shallow n tree k (tree ! i))"

definition table_ok :: "nat \<Rightarrow> huff_table \<Rightarrow> bool" where
  "table_ok n t \<longleftrightarrow> length (m_look_up t) = FAST_LOOKUP_SIZE \<and>
     (\<forall>v \<in> set (m_look_up t). if v < 0 then shallow n (m_tree t) 5 v
        else nat v AND 511 < n \<and> (v = 0 \<or> 1 \<le> drop_bit 9 (nat v) \<and> drop_bit 9 (nat v) \<le> 15))"

lemma tree_shallow:
  assumes "tree_ok sizes ps tree" and kr: "kraft sizes" "length sizes \<le> 288" and "q < length ps" and "15 \<le> fst (ps ! q) + k"
  shows "shallow (max 1 (length sizes)) tree k (node q)"
  using assms(4,5)
proof (induction k arbitrary: q)
  case 0
  have "ps ! q \<in> inner sizes" using 0 assms(1) nth_mem by (fastforce simp: tree_ok_def nodes_ok_def)
  then show ?case using inner_range [OF kr(1)] 0 by (cases "ps ! q") fastforce
next
  case (Suc k)
  have few: "length ps \<le> 288" using nodes_few [OF _ kr] assms(1) by (simp add: tree_ok_def)
  have ch: "2 * q + b < length tree \<and> shallow (max 1 (length sizes)) tree k (tree ! (2 * q + b))" if b: "b < 2" for b
  proof (cases "tree ! (2 * q + b) < 0")
    case True
    then obtain r where r: "tree ! (2 * q + b) = node r" "r < length ps" "ps ! r = child ps q b"
      using tree_entry [OF assms(1) Suc.prems(1) b] by (auto simp: entry_ok_def)
    then show ?thesis using Suc.IH [OF r(2)] Suc.prems few b assms(1) by (simp add: child_def tree_ok_def)
  next
    case False
    then have "shallow (max 1 (length sizes)) tree k (tree ! (2 * q + b))"
      using assms(1) Suc.prems(1) b by (cases k) (simp_all add: tree_ok_def)
    then show ?thesis using few b Suc.prems(1) assms(1) by (simp add: tree_ok_def)
  qed
  have "nat (- node q - 1) = 2 * q" "nat (- node q) = 2 * q + 1" by (simp_all add: node_def)
  then show ?case using ch [of 0] ch [of 1] by simp
qed

lemma make_table_ok:
  assumes "sizes_ok sizes" and "make_table sizes = Inr (look, tree)"
  shows "table_ok (max 1 (length sizes)) (t\<lparr>m_look_up := look, m_tree := tree\<rparr>)"
proof -
  obtain b ps where b: "look = tb_look_up b" "tree = tb_tree b" "builder_ok sizes ps b" and k: "kraft sizes"
    using make_table_cases [OF assms(1)] assms(2) by (auto split: if_splits)
  have len: "length sizes \<le> 288" using assms(1) by (simp add: sizes_ok_def)
  have lk: "look_ok sizes ps look" and tr: "tree_ok sizes ps tree" using b by (simp_all add: builder_ok_def)
  have all: "\<forall>v \<in> set look. if v < 0 then shallow (max 1 (length sizes)) tree 5 v
      else nat v AND 511 < max 1 (length sizes) \<and> (v = 0 \<or> 1 \<le> drop_bit 9 (nat v) \<and> drop_bit 9 (nat v) \<le> 15)"
  proof
    fix v assume v: "v \<in> set look"
    obtain i where i: "i < 1024" "v = look ! i"
      using v lk by (auto simp: in_set_conv_nth look_ok_def)
    obtain x where x: "x < 1024" "i = rev_code 10 x"
      using rev_code_onto [of i 10] i(1) by auto
    have e: "entry_ok sizes ps (10, x) v" "nat v AND 511 < max 1 (length sizes)"
      "0 < v \<longrightarrow> 1 \<le> drop_bit 9 (nat v) \<and> drop_bit 9 (nat v) \<le> 15"
      using lk x i(2) by (auto simp: look_ok_def Let_def codes_def)
    show "if v < 0 then shallow (max 1 (length sizes)) tree 5 v
      else nat v AND 511 < max 1 (length sizes) \<and> (v = 0 \<or> 1 \<le> drop_bit 9 (nat v) \<and> drop_bit 9 (nat v) \<le> 15)"
    proof (cases "v < 0")
      case True
      then obtain q where "v = node q" "q < length ps" "ps ! q = (10, x)" using e(1) by (auto simp: entry_ok_def)
      then show ?thesis using tree_shallow [OF tr k len, of q 5] True by simp
    qed (use e in auto)
  qed
  show ?thesis
    unfolding table_ok_def
  proof (intro conjI ballI)
    fix v assume "v \<in> set (m_look_up (t\<lparr>m_look_up := look, m_tree := tree\<rparr>))"
    then show "if v < 0 then shallow (max 1 (length sizes)) (m_tree (t\<lparr>m_look_up := look, m_tree := tree\<rparr>)) 5 v
        else nat v AND 511 < max 1 (length sizes) \<and> (v = 0 \<or> 1 \<le> drop_bit 9 (nat v) \<and> drop_bit 9 (nat v) \<le> 15)"
      using bspec [OF all, of v] by (simp split: if_splits)
  qed (use lk in \<open>simp add: look_ok_def FAST_LOOKUP_SIZE_def\<close>)
qed

section \<open>Symbols are found by their codes\<close>

text \<open>Every proper prefix of a code that the tree holds is a node.\<close>

lemma prefix_nodes:
  assumes "nodes_ok sizes ps" and "(l - 1, c div 2) \<in> set ps" and "10 \<le> d" and "d \<le> l - 1" and "1 \<le> l"
  shows "(d, c div 2 ^ (l - d)) \<in> set ps"
  using assms(4)
proof (induction rule: inc_induct)
  case base
  then show ?case using assms(2,5) by simp
next
  case (step n)
  have "l - n = Suc (l - Suc n)" using step.hyps by simp
  then have "(2 :: nat) ^ (l - n) = 2 ^ (l - Suc n) * 2" by simp
  then have "c div 2 ^ (l - n) = c div 2 ^ (l - Suc n) div 2" by (simp only: div_mult2_eq)
  then show ?case using assms(1,3) step by (auto simp: nodes_ok_def)
qed

lemma entry_node:
  assumes "entry_ok sizes ps dp v" and "dp \<in> set ps"
  obtains q where "v = node q" and "q < length ps" and "ps ! q = dp"
  using assms by (auto simp: entry_ok_def split: if_splits)

lemma tree_child_node:
  "n < 64 \<Longrightarrow> 2 * q + of_bool (bit w n) < length (m_tree t) \<Longrightarrow>
    tree_child t w (node q) n = Inr (m_tree t ! (2 * q + of_bool (bit w n)))"
  by (auto simp: tree_child_def Let_def node_def nat_add_distrib nat_mult_distrib)

end
