(* ===== verification/Tinfl_Checked.thy ===== *)
theory Tinfl_Checked
  imports Tinfl
begin

text \<open>
  The decompressor tests nothing where its own guards make a test superfluous. Here the guards are
  shown to do so: behind them the unchecked reads, stores and copies of the fast paths are in range,
  so that each of these paths equals a plain function on the state. Where the guard is part of the
  operation itself the equation has no condition.
\<close>

section \<open>The same operations without the checks\<close>

definition taken_two :: "inflator \<Rightarrow> inflator" where
  "taken_two s =
     s\<lparr>bit_buf := bit_buf s OR push_bit (unat (num_bits s)) (ucast (in_buf s ! in_cur s))
                  OR push_bit (unat (num_bits s) + 8) (ucast (in_buf s ! (in_cur s + 1))),
       in_cur := in_cur s + 2, num_bits := num_bits s + 16\<rparr>"

definition taken_four :: "inflator \<Rightarrow> inflator" where
  "taken_four s =
     (let w = ucast (in_buf s ! in_cur s) OR push_bit 8 (ucast (in_buf s ! (in_cur s + 1)))
              OR push_bit 16 (ucast (in_buf s ! (in_cur s + 2))) OR push_bit 24 (ucast (in_buf s ! (in_cur s + 3)))
      in s\<lparr>bit_buf := bit_buf s OR push_bit (unat (num_bits s)) w,
           in_cur := in_cur s + 4, num_bits := num_bits s + 32\<rparr>)"

definition copied_in :: "nat \<Rightarrow> inflator \<Rightarrow> inflator" where
  "copied_in n s =
     s\<lparr>out_buf := take (out_cur s) (out_buf s) @ take n (drop (in_cur s) (in_buf s)) @ drop (out_cur s + n) (out_buf s),
       in_cur := in_cur s + n, out_cur := out_cur s + n\<rparr>"

definition copied8 :: "nat \<Rightarrow> nat \<Rightarrow> byte list \<Rightarrow> byte list" where
  "copied8 src dst buf = take dst buf @ take 8 (drop src buf) @ drop (dst + 8) buf"

fun copied_eights :: "nat \<Rightarrow> nat \<Rightarrow> nat \<Rightarrow> byte list \<Rightarrow> byte list" where
  "copied_eights 0 src dst buf = buf"
| "copied_eights (Suc n) src dst buf = copied_eights n (src + 8) (dst + 8) (copied8 src dst buf)"

definition copied1 :: "nat \<Rightarrow> nat \<Rightarrow> byte list \<Rightarrow> byte list" where
  "copied1 src dst buf = buf[dst := buf ! src]"

fun copied_threes :: "nat \<Rightarrow> nat \<Rightarrow> nat \<Rightarrow> byte list \<Rightarrow> byte list" where
  "copied_threes (Suc (Suc (Suc n))) src dst buf =
     copied_threes n (src + 3) (dst + 3) (copied1 (src + 2) (dst + 2) (copied1 (src + 1) (dst + 1) (copied1 src dst buf)))"
| "copied_threes (Suc (Suc 0)) src dst buf = copied1 (src + 1) (dst + 1) (copied1 src dst buf)"
| "copied_threes (Suc 0) src dst buf = copied1 src dst buf"
| "copied_threes 0 src dst buf = buf"

definition fast_copied :: "nat \<Rightarrow> nat \<Rightarrow> nat \<Rightarrow> nat \<Rightarrow> byte list \<Rightarrow> byte list" where
  "fast_copied counter dist src dst buf =
     (if 9 \<le> counter \<and> counter \<le> dist then
        let k = counter div 8; buf = copied_eights k src dst buf; src = src + 8 * k; dst = dst + 8 * k;
            counter = counter AND 7
        in if counter < 3 then
             (if counter = 0 then buf
              else let buf = copied1 src dst buf in if 1 < counter then copied1 (src + 1) (dst + 1) buf else buf)
           else copied_threes counter src dst buf
      else copied_threes counter src dst buf)"

section \<open>Bits\<close>

lemma bnd_give [simp]: "bnd m (\<lambda>x. give x) = m"
  by (rule ext) (simp add: bnd_def give_def split: prod.split sum.split)

lemma consume_eq: "n < 64 \<Longrightarrow> consume n s = (Inr (), drop_bits n s)"
  by (simp add: consume_def)

lemma skip_bits_eq: "n < 64 \<Longrightarrow> skip_bits n = bnd (have_bits n) (\<lambda>_ s. (Inr (), drop_bits n s))"
  by (simp add: skip_bits_def consume_def [abs_def])

lemma get_bits_eq: "n < 31 \<Longrightarrow> get_bits n = bnd (have_bits n) (\<lambda>_ s. (Inr (unat (bit_buf s AND mask n)), drop_bits n s))"
  by (simp add: get_bits_def consume_eq bnd_def [of "consume n"] give_def)

lemma huff_ensure_eq:
  "huff_ensure t s =
     (if num_bits s < 15 then
        if length (in_buf s) - in_cur s < 2 then huff_fill t s else (Inr (), taken_two s)
      else (Inr (), s))"
proof -
  have "add_two s = (Inr (), taken_two s)" if "num_bits s < 15" "\<not> length (in_buf s) - in_cur s < 2"
  proof -
    have "unat (num_bits s) < 15" using that(1) by (simp add: word_less_nat_alt)
    moreover from this have "unat (num_bits s + 8) = unat (num_bits s) + 8" by (simp add: unat_word_ariths(1))
    ultimately show ?thesis using that(2) by (simp add: add_two_def taken_two_def)
  qed
  then show ?thesis by (simp add: huff_ensure_def)
qed

section \<open>Stores\<close>

lemma stored_copy_eq:
  "stored_copy counter s =
     (if counter = 0 then (Inr (), s)
      else if length (out_buf s) \<le> out_cur s then (Inl (Status STATUS_HAS_MORE_OUTPUT), s)
      else if length (in_buf s) \<le> in_cur s then (Inl (no_input s), s)
      else
        let n = min (min (length (out_buf s) - out_cur s) (length (in_buf s) - in_cur s)) counter
        in stored_copy (counter - n) (copied_in n s))"
proof -
  have "copy_in n s = (Inr (), copied_in n s)"
    if "n = min (min (length (out_buf s) - out_cur s) (length (in_buf s) - in_cur s)) counter"
      "\<not> length (out_buf s) \<le> out_cur s" "\<not> length (in_buf s) \<le> in_cur s" for n
  proof -
    have "n \<le> length (out_buf s) - out_cur s" "n \<le> length (in_buf s) - in_cur s" using that(1) by linarith+
    then have "\<not> (length (in_buf s) < in_cur s + n \<or> length (out_buf s) < out_cur s + n)" using that(2,3) by linarith
    then show ?thesis by (simp add: copy_in_def copied_in_def)
  qed
  then show ?thesis by (subst stored_copy.simps) (simp add: Let_def)
qed

text \<open>Two literals stored without a test are two bytes stored behind one, when there is room for them.\<close>

definition two_literals :: "nat option inflate" where
  "two_literals =
     bnd (\<lambda>s. (Inr (), if num_bits s < 30 then taken_four s else s)) (\<lambda>_.
     bnd fast_symbol (\<lambda>counter.
       if counter AND 256 \<noteq> 0 then give (Some counter)
       else
         bnd fast_symbol (\<lambda>sym2.
         bnd (put_byte (of_nat counter)) (\<lambda>_.
           if sym2 AND 256 \<noteq> 0 then give (Some sym2)
           else bnd (put_byte (of_nat sym2)) (\<lambda>_. give None)))))"

lemma fast_symbol_keeps:
  assumes "fast_symbol s = (r, s')"
  shows "in_buf s' = in_buf s" "in_cur s' = in_cur s" "out_buf s' = out_buf s" "out_cur s' = out_cur s" "m_tables s' = m_tables s"
  using assms
  by (auto simp: fast_symbol_def bnd_def huff_symbol_def consume_def give_def drop_bits_def Let_def
      split: prod.splits sum.splits if_splits)

lemma fast_literals_eq:
  assumes "4 \<le> length (in_buf s) - in_cur s" and "2 \<le> length (out_buf s) - out_cur s"
  shows "fast_literals s = two_literals s"
proof -
  have four: "(if num_bits s < 30 then add_four s else (Inr (), s)) = (Inr (), if num_bits s < 30 then taken_four s else s)"
  proof (cases "num_bits s < 30")
    case True
    then have "unat (num_bits s) < 30" by (simp add: word_less_nat_alt)
    then show ?thesis using assms(1) True by (simp add: add_four_def taken_four_def Let_def)
  qed simp
  let ?store = "\<lambda>counter sym2. bnd (store_out 0 (of_nat counter)) (\<lambda>_.
      if sym2 AND 256 \<noteq> 0 then bnd (advance_out 1) (\<lambda>_. give (Some sym2))
      else bnd (store_out 1 (of_nat sym2)) (\<lambda>_. bnd (advance_out 2) (\<lambda>_. give None)))"
  let ?put = "\<lambda>counter sym2. bnd (put_byte (of_nat counter)) (\<lambda>_.
      if sym2 AND 256 \<noteq> 0 then give (Some sym2) else bnd (put_byte (of_nat sym2)) (\<lambda>_. give None))"
  have two: "?store c c2 s' = ?put c c2 s'" if "2 \<le> length (out_buf s') - out_cur s'" for c c2 :: nat and s'
  proof -
    have "\<not> length (out_buf s') \<le> out_cur s'" "\<not> length (out_buf s') \<le> out_cur s' + 1" using that by linarith+
    then show ?thesis by (simp add: bnd_def store_out_def advance_out_def put_byte_def give_def)
  qed
  have one: "bnd fast_symbol (?store c) s' = bnd fast_symbol (?put c) s'"
    if "2 \<le> length (out_buf s') - out_cur s'" for c :: nat and s'
  proof (cases "fast_symbol s'")
    case (Pair r s'')
    note k = fast_symbol_keeps [OF Pair]
    have "?store c x s'' = ?put c x s''" for x by (rule two) (use that k in simp)
    then show ?thesis using Pair by (simp add: bnd_def [of fast_symbol] split: sum.split)
  qed
  let ?s1 = "if num_bits s < 30 then taken_four s else s"
  have o1: "2 \<le> length (out_buf ?s1) - out_cur ?s1"
    using assms(2) by (simp add: taken_four_def Let_def)
  have "bnd fast_symbol (\<lambda>counter. if counter AND 256 \<noteq> 0 then give (Some counter) else bnd fast_symbol (?store counter)) ?s1 =
      bnd fast_symbol (\<lambda>counter. if counter AND 256 \<noteq> 0 then give (Some counter) else bnd fast_symbol (?put counter)) ?s1"
  proof (cases "fast_symbol ?s1")
    case (Pair r s'')
    note k = fast_symbol_keeps [OF Pair]
    have "bnd fast_symbol (?store c) s'' = bnd fast_symbol (?put c) s''" for c by (rule one) (use o1 k in simp)
    then show ?thesis using Pair by (simp add: bnd_def [of fast_symbol _ ?s1] split: sum.split)
  qed
  then show ?thesis
    unfolding fast_literals_def two_literals_def
    by (simp only: bnd_def [of "\<lambda>s. if num_bits s < 30 then add_four s else (Inr (), s)"]
        bnd_def [of "\<lambda>s. (Inr (), if num_bits s < 30 then taken_four s else s)"] four prod.case sum.case)
qed

lemma literal_pass_eq:
  "literal_pass s =
     (if length (in_buf s) - in_cur s < 4 \<or> length (out_buf s) - out_cur s < 2 then slow_literal s
      else two_literals s)"
  using fast_literals_eq [of s] by (simp add: literal_pass_def not_less)

section \<open>Copies\<close>

lemma copy_eights_eq:
  "src + 8 * n \<le> length buf \<Longrightarrow> dst + 8 * n \<le> length buf \<Longrightarrow> copy_eights n src dst buf = Some (copied_eights n src dst buf)"
proof (induction n arbitrary: src dst buf)
  case (Suc n)
  then have "copy8 src dst buf = Some (copied8 src dst buf)" "length (copied8 src dst buf) = length buf"
    by (simp_all add: copy8_def copied8_def)
  with Suc show ?case by simp
qed simp

lemma copy1_eq: "src < length buf \<Longrightarrow> dst < length buf \<Longrightarrow> copy1 src dst buf = Some (copied1 src dst buf)"
  by (simp add: copy1_def copied1_def)

lemma length_copied1 [simp]: "length (copied1 src dst buf) = length buf"
  by (simp add: copied1_def)

lemma length_copied_eights: "src + 8 * n \<le> length buf \<Longrightarrow> dst + 8 * n \<le> length buf \<Longrightarrow> length (copied_eights n src dst buf) = length buf"
  by (induction n arbitrary: src dst buf) (simp_all add: copied8_def)

lemma copy_threes_eq:
  "src + n \<le> length buf \<Longrightarrow> dst + n \<le> length buf \<Longrightarrow> copy_threes n src dst buf = Some (copied_threes n src dst buf)"
  by (induction n src dst buf rule: copied_threes.induct) (simp_all add: copy1_eq numeral_3_eq_3 numeral_2_eq_2)

lemma fast_copy_eq:
  assumes "src + counter \<le> length buf" and "dst + counter \<le> length buf"
  shows "fast_copy counter dist src dst buf = Some (fast_copied counter dist src dst buf)"
proof (cases "9 \<le> counter \<and> counter \<le> dist")
  case True
  let ?k = "counter div 8" and ?r = "counter AND 7"
  have r: "?r = counter mod 8"
    using take_bit_eq_mask [of 3 counter] by (simp add: mask_eq_exp_minus_1 take_bit_eq_mod)
  have c: "counter = 8 * ?k + ?r" unfolding r by simp
  have e: "copy_eights ?k src dst buf = Some (copied_eights ?k src dst buf)"
    by (rule copy_eights_eq) (use assms c in linarith)+
  have l: "length (copied_eights ?k src dst buf) = length buf"
    by (rule length_copied_eights) (use assms c in linarith)+
  have in_range: "src + 8 * ?k + ?r \<le> length buf" "dst + 8 * ?k + ?r \<le> length buf" using assms c by linarith+
  have threes: "copy_threes ?r (src + 8 * ?k) (dst + 8 * ?k) (copied_eights ?k src dst buf) =
      Some (copied_threes ?r (src + 8 * ?k) (dst + 8 * ?k) (copied_eights ?k src dst buf))"
    by (rule copy_threes_eq) (use in_range l in simp_all)
  have ones: "copy_ones ?r (src + 8 * ?k) (dst + 8 * ?k) b =
      Some (if ?r = 0 then b else let b = copied1 (src + 8 * ?k) (dst + 8 * ?k) b
            in if 1 < ?r then copied1 (src + 8 * ?k + 1) (dst + 8 * ?k + 1) b else b)"
    if "?r < 3" "length b = length buf" for b
  proof -
    have "?r = 0 \<or> ?r = 1 \<or> ?r = 2" using that(1) by linarith
    then show ?thesis using in_range that(2)
      by (elim disjE) (simp_all add: copy1_eq Let_def numeral_2_eq_2)
  qed
  show ?thesis
    unfolding fast_copy_def fast_copied_def Let_def e option.case
    using True threes ones [OF _ l] by (simp add: Let_def)
next
  case False
  show ?thesis unfolding fast_copy_def fast_copied_def if_not_P [OF False] by (rule copy_threes_eq [OF assms])
qed

lemma copy_from_eq:
  "copy_from counter dist s =
     (let frm = out_cur s; src = match_source s frm dist
      in if frm < dist \<and> flag FLAG_NON_WRAPPING s then (Inl (Status STATUS_FAILED), s)
         else if length (out_buf s) < max frm src + counter then copy_bytes counter frm dist s
         else (Inr (), s\<lparr>out_buf := fast_copied counter dist src frm (out_buf s), out_cur := frm + counter\<rparr>))"
proof -
  have "fast_copy counter dist src frm (out_buf s) = Some (fast_copied counter dist src frm (out_buf s))"
    if "\<not> length (out_buf s) < max frm src + counter" for src frm
    using that by (intro fast_copy_eq) simp_all
  then show ?thesis unfolding copy_from_def Let_def by simp
qed

section \<open>The exit\<close>

definition exit_state :: "int \<Rightarrow> inflator \<Rightarrow> int \<times> inflator" where
  "exit_state status s =
     (let s = (if status \<noteq> STATUS_NEEDS_MORE_INPUT \<and> status \<noteq> STATUS_CANNOT_MAKE_PROGRESS then put_back s else s);
          s = s\<lparr>bit_buf := bit_buf s AND mask (unat (num_bits s))\<rparr>
      in if (flag FLAG_PARSE_ZLIB_HEADER s \<or> flag FLAG_COMPUTE_ADLER32 s) \<and> 0 \<le> status then
           let (s1, s2) = adler_blocks (out_cur s mod 5552) (take (out_cur s) (out_buf s))
                            (m_check_adler32 s AND 0xFFFF, drop_bit 16 (m_check_adler32 s));
               s = s\<lparr>m_check_adler32 := push_bit 16 s2 + s1\<rparr>
           in (if status = STATUS_DONE \<and> flag FLAG_PARSE_ZLIB_HEADER s \<and> m_check_adler32 s \<noteq> m_z_adler32 s
               then STATUS_ADLER32_MISMATCH else status, s)
         else (status, s))"

lemma common_exit_eq:
  assumes "unat (num_bits s) < 64" and "unat (num_bits (put_back s)) < 64" and "out_cur s \<le> length (out_buf s)"
    and "out_cur (put_back s) = out_cur s" and "out_buf (put_back s) = out_buf s"
  shows "common_exit status s = Inr (exit_state status s)"
  using assms by (auto simp: common_exit_def exit_state_def Let_def split: prod.split)

end
