(* ===== verification/Inflate.thy ===== *)
theory Inflate
  imports Huffman_Tables Tinfl_Checked
begin

text \<open>
  Facts on the decompressor: every action keeps its positions inside the buffers and makes
  progress, codes have at most 15 bits, and so the decompressor ends on every input.
\<close>

section \<open>Progress\<close>

definition work_left :: "inflator \<Rightarrow> nat" where
  "work_left s = 8 * (length (in_buf s) - in_cur s) + unat (num_bits s) + (length (out_buf s) - out_cur s)"

text \<open>The arrays of the decompressor: their lengths, and the bounds of the code sizes in them.\<close>

definition arrays_ok :: "inflator \<Rightarrow> bool" where
  "arrays_ok s \<longleftrightarrow> length (m_tables s) = 3 \<and>
     (\<forall>t \<in> set (m_tables s). length (m_code_size t) = 288 \<and> (\<forall>c \<in> set (m_code_size t). c < 16)) \<and>
     length (m_len_codes s) = 457 \<and> (\<forall>c \<in> set (m_len_codes s). c < 16) \<and>
     length (m_table_sizes s) = 3 \<and> m_table_sizes s ! 0 \<le> 288 \<and> m_table_sizes s ! 1 \<le> 32 \<and> m_table_sizes s ! 2 \<le> 19"

definition inflator_ok :: "inflator \<Rightarrow> bool" where
  "inflator_ok s \<longleftrightarrow> in_cur s \<le> length (in_buf s) \<and> out_cur s \<le> length (out_buf s) \<and>
     unat (num_bits s) < 64 \<and> unat (num_bits s) \<le> 8 * in_cur s \<and> arrays_ok s"

lemma arrays_ok_simps [simp]:
  "arrays_ok (s\<lparr>in_cur := i\<rparr>) = arrays_ok s" "arrays_ok (s\<lparr>out_cur := j\<rparr>) = arrays_ok s"
  "arrays_ok (s\<lparr>out_buf := buf\<rparr>) = arrays_ok s" "arrays_ok (s\<lparr>bit_buf := w\<rparr>) = arrays_ok s"
  "arrays_ok (s\<lparr>num_bits := n\<rparr>) = arrays_ok s" "arrays_ok (s\<lparr>m_z_adler32 := a\<rparr>) = arrays_ok s"
  by (simp_all add: arrays_ok_def)

text \<open>The only stops before the end are those with a status other than success.\<close>

definition stop_ok :: "stop \<Rightarrow> bool" where
  "stop_ok e \<longleftrightarrow> (case e of Status st \<Rightarrow> st \<noteq> STATUS_DONE | _ \<Rightarrow> False)"

lemma stop_ok_simps [simp]:
  "stop_ok (Status st) \<longleftrightarrow> st \<noteq> STATUS_DONE" "\<not> stop_ok Out_Of_Bounds" "\<not> stop_ok No_Fuel" "\<not> stop_ok Assertion" "\<not> stop_ok Bad_Shift"
  by (simp_all add: stop_ok_def)

lemma status_simps [simp]:
  "STATUS_FAILED \<noteq> STATUS_DONE" "STATUS_HAS_MORE_OUTPUT \<noteq> STATUS_DONE" "STATUS_NEEDS_MORE_INPUT \<noteq> STATUS_DONE"
  "STATUS_CANNOT_MAKE_PROGRESS \<noteq> STATUS_DONE"
  by (simp_all add: STATUS_FAILED_def STATUS_HAS_MORE_OUTPUT_def STATUS_NEEDS_MORE_INPUT_def
      STATUS_CANNOT_MAKE_PROGRESS_def STATUS_DONE_def)

text \<open>What every action keeps: the buffers' sizes and the output already written.\<close>

definition extends :: "inflator \<Rightarrow> inflator \<Rightarrow> bool" where
  "extends s s' \<longleftrightarrow> inflator_ok s' \<and> in_buf s' = in_buf s \<and> length (out_buf s') = length (out_buf s) \<and>
     decomp_flags s' = decomp_flags s \<and> m_check_adler32 s' = m_check_adler32 s \<and>
     out_cur s \<le> out_cur s' \<and> take (out_cur s) (out_buf s') = take (out_cur s) (out_buf s)"

text \<open>An action stops with a status only and, when it returns, has done \<open>k\<close> bits or bytes of work; with
  \<open>t\<close>, it leaves the Huffman tables alone.\<close>

definition works :: "bool \<Rightarrow> nat \<Rightarrow> 'a inflate \<Rightarrow> inflator \<Rightarrow> bool" where
  "works t k m s \<longleftrightarrow> (inflator_ok s \<longrightarrow>
     (case m s of
        (Inl e, s') \<Rightarrow> stop_ok e \<and> extends s s'
      | (Inr x, s') \<Rightarrow> extends s s' \<and> work_left s' + k \<le> work_left s \<and>
          (t \<longrightarrow> m_tables s' = m_tables s \<and> m_table_sizes s' = m_table_sizes s)))"

lemma extends_refl: "inflator_ok s \<Longrightarrow> extends s s"
  by (simp add: extends_def)

lemma extends_trans: "extends s s' \<Longrightarrow> extends s' s'' \<Longrightarrow> extends s s''"
  unfolding extends_def by (auto dest!: arg_cong [where f = "take (out_cur s)" and x = "take (out_cur s') (out_buf s'')"])

lemma works_ok: "works t k m s \<Longrightarrow> m s = (Inr x, s') \<Longrightarrow> inflator_ok s \<Longrightarrow>
    inflator_ok s' \<and> extends s s' \<and> work_left s' + k \<le> work_left s \<and>
    (t \<longrightarrow> m_tables s' = m_tables s \<and> m_table_sizes s' = m_table_sizes s)"
  by (simp add: works_def extends_def)

lemma works_tables: "works True k m s \<Longrightarrow> m s = (Inr x, s') \<Longrightarrow> inflator_ok s \<Longrightarrow> m_tables s' = m_tables s"
  by (simp add: works_def)

lemma works_bnd:
  assumes "works t j m s"
    and "\<And>x s'. m s = (Inr x, s') \<Longrightarrow> inflator_ok s \<Longrightarrow> inflator_ok s' \<Longrightarrow> works t k (f x) s'"
  shows "works t (j + k) (bnd m f) s"
proof (cases "inflator_ok s")
  case True
  show ?thesis
  proof (cases "fst (m s)")
    case (Inl e)
    then show ?thesis
      using assms(1) by (cases "m s") (auto simp: works_def bnd_def)
  next
    case (Inr x)
    then obtain s' where m: "m s = (Inr x, s')" by (cases "m s") auto
    note s' = works_ok [OF assms(1) m True]
    show ?thesis
      using assms(2) [OF m True] s' extends_trans [of s s']
      by (auto simp: works_def bnd_def m split: prod.splits sum.splits)
  qed
qed (simp add: works_def)

lemma bnd_Inr: "bnd m f s = (Inr y, s') \<longleftrightarrow> (\<exists>x s1. m s = (Inr x, s1) \<and> f x s1 = (Inr y, s'))"
  by (auto simp: bnd_def split: prod.splits sum.splits)

text \<open>An action that first makes some progress of its own.\<close>

lemma works_after:
  assumes "m s = m' s'" and "inflator_ok s \<Longrightarrow> extends s s' \<and> work_left s' + j \<le> work_left s \<and>
      m_tables s' = m_tables s \<and> m_table_sizes s' = m_table_sizes s"
    and "works t k m' s'"
  shows "works t (j + k) m s"
proof (cases "inflator_ok s")
  case True
  then have a: "extends s s'" "inflator_ok s'" "work_left s' + j \<le> work_left s" "m_tables s' = m_tables s"
    "m_table_sizes s' = m_table_sizes s"
    using assms(2) by (auto simp: extends_def)
  show ?thesis
    using assms(3) a extends_trans [OF a(1)]
    by (simp add: works_def assms(1) True split: prod.splits sum.splits)
qed (simp add: works_def)

lemma works_eq: "works t k m' s \<Longrightarrow> m s = m' s \<Longrightarrow> works t k m s"
  by (simp add: works_def)

lemma works_mono: "works t k m s \<Longrightarrow> j \<le> k \<Longrightarrow> works t j m s"
  by (auto simp: works_def split: prod.splits sum.splits)

lemma works_forget: "works True k m s \<Longrightarrow> works t k m s"
  by (auto simp: works_def split: prod.splits sum.splits)

lemma works_give [simp]: "works t 0 (give x) s"
  by (simp add: works_def give_def extends_refl)

lemma works_halt [simp]: "stop_ok e \<Longrightarrow> works t k (halt e) s"
  by (simp add: works_def halt_def extends_refl)

section \<open>Bytes and bits\<close>

lemma unat_num_add: "unat (n :: u32) < 2 ^ 31 \<Longrightarrow> k < 2 ^ 31 \<Longrightarrow> unat (n + of_nat k) = unat n + k"
  by (simp add: unat_word_ariths(1) unsigned_of_nat take_bit_nat_eq_self)

lemma unat_num_sub: "k \<le> unat (n :: u32) \<Longrightarrow> unat (n - of_nat k) = unat n - k"
  by (metis le_unat_uoi unat_sub word_le_nat_alt)

lemma no_input_ok [simp]: "stop_ok (no_input s)"
  by (simp add: no_input_def)

lemma works_get_byte: "works t 8 get_byte s"
  by (auto simp: works_def get_byte_def extends_refl extends_def inflator_ok_def work_left_def)

text \<open>A byte moved from the input into the bit buffer: no work is lost.\<close>

lemma add_byte_extends:
  assumes "inflator_ok s" and "get_byte s = (Inr c, s')" and "unat (num_bits s) < 32"
  shows "extends s (add_byte c s')" and "work_left (add_byte c s') = work_left s"
    and "unat (num_bits (add_byte c s')) = unat (num_bits s) + 8"
    and "m_tables (add_byte c s') = m_tables s" and "m_table_sizes (add_byte c s') = m_table_sizes s"
proof -
  note g = get_byte_Inr [OF assms(2)]
  show n: "unat (num_bits (add_byte c s')) = unat (num_bits s) + 8"
    using assms(3) g unat_num_add [of "num_bits s" 8] by (simp add: add_byte_def)
  show "extends s (add_byte c s')" "work_left (add_byte c s') = work_left s"
    using assms(1,3) g n by (auto simp: extends_def inflator_ok_def work_left_def add_byte_def)
  show "m_tables (add_byte c s') = m_tables s" "m_table_sizes (add_byte c s') = m_table_sizes s"
    using g by (simp_all add: add_byte_def)
qed

lemma of_nat_less_num: "n < 2 ^ 31 \<Longrightarrow> (num :: u32) < of_nat n \<longleftrightarrow> unat num < n"
  by (simp add: word_less_nat_alt unsigned_of_nat take_bit_nat_eq_self)

lemma works_need_bits:
  assumes "n \<le> 16" and "unat (num_bits s) < n"
  shows "works True 0 (need_bits n) s \<and>
    (\<forall>x s'. inflator_ok s \<longrightarrow> need_bits n s = (Inr x, s') \<longrightarrow> n \<le> unat (num_bits s') \<and> unat (num_bits s') < 24)"
  using assms
proof (induction n s rule: need_bits.induct)
  case (1 n s)
  show ?case
  proof (cases "inflator_ok s")
    case ok: True
    show ?thesis
    proof (cases "fst (get_byte s)")
      case (Inl e)
      then obtain s' where "get_byte s = (Inl e, s')" by (cases "get_byte s") auto
      then show ?thesis
        using ok by (auto simp: works_def need_bits.simps [of n s] get_byte_def extends_refl split: if_splits)
    next
      case (Inr c)
      then obtain s' where g: "get_byte s = (Inr c, s')" by (cases "get_byte s") auto
      note a = add_byte_extends [OF ok g]
      have nb: "unat (num_bits s) < 32" using 1(2,3) by simp
      have lt: "num_bits (add_byte c s') < of_nat n \<longleftrightarrow> unat (num_bits s) + 8 < n"
        using 1(2) a(3) nb by (simp add: of_nat_less_num)
      have sh: "\<not> 64 \<le> unat (num_bits s')" using get_byte_Inr [OF g] nb by simp
      show ?thesis
      proof (cases "unat (num_bits s) + 8 < n")
        case True
        have ih: "works True 0 (need_bits n) (add_byte c s')"
          "\<And>x s''. need_bits n (add_byte c s') = (Inr x, s'') \<Longrightarrow> n \<le> unat (num_bits s'') \<and> unat (num_bits s'') < 24"
          using 1(1) [OF g [symmetric] refl sh] lt True 1(2) a nb by (auto simp: extends_def)
        have e: "need_bits n s = need_bits n (add_byte c s')"
          using True lt sh by (subst need_bits.simps) (simp add: g)
        show ?thesis
          using ih a nb extends_trans [of s "add_byte c s'"]
          by (auto simp: works_def e extends_def split: prod.splits sum.splits)
      next
        case False
        then have "need_bits n s = (Inr (), add_byte c s')"
          using lt sh by (subst need_bits.simps) (simp add: g)
        then show ?thesis using a nb False 1(2,3) by (auto simp: works_def)
      qed
    qed
  qed (simp add: works_def)
qed

lemma works_have_bits:
  assumes "n \<le> 16"
  shows "works True 0 (have_bits n) s"
    and "inflator_ok s \<Longrightarrow> have_bits n s = (Inr x, s') \<Longrightarrow> n \<le> unat (num_bits s')"
proof -
  have lt: "num_bits s < of_nat n \<longleftrightarrow> unat (num_bits s) < n" using assms by (simp add: of_nat_less_num)
  show "works True 0 (have_bits n) s"
    using works_need_bits [OF assms, of s] lt by (auto simp: works_def have_bits_def extends_refl split: if_splits)
  show "inflator_ok s \<Longrightarrow> have_bits n s = (Inr x, s') \<Longrightarrow> n \<le> unat (num_bits s')"
    using works_need_bits [OF assms, of s] lt by (auto simp: have_bits_def split: if_splits)
qed

lemma drop_bits_extends:
  assumes "inflator_ok s" and "n \<le> unat (num_bits s)"
  shows "extends s (drop_bits n s)" and "work_left (drop_bits n s) + n = work_left s"
    and "m_tables (drop_bits n s) = m_tables s" and "m_table_sizes (drop_bits n s) = m_table_sizes s"
    and "unat (num_bits (drop_bits n s)) = unat (num_bits s) - n"
  using assms unat_num_sub [OF assms(2)]
  by (auto simp: drop_bits_def extends_def inflator_ok_def work_left_def)

lemma works_drop_bits: "n \<le> unat (num_bits s) \<Longrightarrow> works t n (\<lambda>s. (Inr (f s), drop_bits n s)) s"
  using drop_bits_extends [of s n] by (auto simp: works_def)

lemma works_bits: "n \<le> 16 \<Longrightarrow> works True n (skip_bits n) s" "n \<le> 16 \<Longrightarrow> works True n (get_bits n) s"
proof -
  have b: "works True (0 + n) (bnd (have_bits n) (\<lambda>_ s. (Inr (f s), drop_bits n s))) s"
    if "n \<le> 16" for f :: "inflator \<Rightarrow> 'a"
    by (rule works_bnd [OF works_have_bits(1) [OF that]]) (rule works_drop_bits, rule works_have_bits(2) [OF that])
  show "n \<le> 16 \<Longrightarrow> works True n (skip_bits n) s" "n \<le> 16 \<Longrightarrow> works True n (get_bits n) s"
    using b by (simp_all add: skip_bits_eq get_bits_eq)
qed

lemma works_put_byte: "works t 1 (put_byte b) s"
  by (auto simp: works_def put_byte_def extends_refl extends_def inflator_ok_def work_left_def)

lemma works_raw_byte: "works True 8 raw_byte s"
proof -
  have "works True (8 + 0) (bnd get_byte (\<lambda>c. give (unat c))) s"
    by (rule works_bnd [OF works_get_byte]) simp
  then show ?thesis using works_bits(2) [of 8 s] by (auto simp: works_def raw_byte_def)
qed

section \<open>Header and stored blocks\<close>

lemma works_zlib_header: "works True 0 zlib_header s"
proof -
  have "works True (8 + (8 + 0)) (bnd get_byte (\<lambda>c0. bnd get_byte (\<lambda>c1 s.
      let z0 = unat c0; z1 = unat c1; window = (2 :: nat) ^ (8 + drop_bit 4 z0);
          bad = (z0 * 256 + z1) mod 31 \<noteq> 0 \<or> z1 AND 32 \<noteq> 0 \<or> z0 AND 15 \<noteq> 8;
          bad = (bad \<or> \<not> flag FLAG_NON_WRAPPING s \<and> (32768 < window \<or> length (out_buf s) < window))
      in if bad then (Inl (Status STATUS_FAILED), s) else (Inr (), s)))) s"
    by (intro works_bnd works_get_byte) (auto simp: works_def Let_def extends_refl)
  then show ?thesis by (auto simp: works_def zlib_header_def extends_refl split: prod.splits sum.splits)
qed

lemma works_stored_bits: "works True 0 (stored_bits n) s"
proof (induction n arbitrary: s)
  case (Suc n)
  have "works True (8 + (1 + 0)) (bnd (get_bits 8) (\<lambda>d. bnd (put_byte (of_nat d)) (\<lambda>_. stored_bits n))) s"
    by (intro works_bnd works_bits works_put_byte Suc.IH) simp
  then show ?case by (auto simp: works_def extends_refl split: prod.splits sum.splits)
qed (simp add: works_def extends_refl)

lemma copy_in_extends:
  assumes "inflator_ok s" and "n \<le> length (out_buf s) - out_cur s" and "n \<le> length (in_buf s) - in_cur s"
  shows "extends s (copied_in n s)" and "work_left (copied_in n s) \<le> work_left s"
    and "m_tables (copied_in n s) = m_tables s" and "m_table_sizes (copied_in n s) = m_table_sizes s"
  using assms by (auto simp: extends_def copied_in_def inflator_ok_def work_left_def)

lemma works_stored_copy: "works True 0 (stored_copy n) s"
proof (induction n arbitrary: s rule: less_induct)
  case (less n s)
  let ?n = "min (min (length (out_buf s) - out_cur s) (length (in_buf s) - in_cur s)) n"
  show ?case
  proof (cases "n = 0 \<or> length (out_buf s) \<le> out_cur s \<or> length (in_buf s) \<le> in_cur s")
    case True
    then show ?thesis by (auto simp: works_def stored_copy_eq [of n s] extends_refl)
  next
    case False
    then have e: "stored_copy n s = stored_copy (n - ?n) (copied_in ?n s)"
      by (subst stored_copy_eq) (simp add: Let_def)
    have ih: "works True 0 (stored_copy (n - ?n)) (copied_in ?n s)"
      using False by (intro less) auto
    have "inflator_ok s \<Longrightarrow> extends s (copied_in ?n s) \<and> work_left (copied_in ?n s) + 0 \<le> work_left s \<and>
        m_tables (copied_in ?n s) = m_tables s \<and> m_table_sizes (copied_in ?n s) = m_table_sizes s"
      using copy_in_extends [of s ?n] by (simp only: add_0_right min.cobounded1 min.coboundedI1 min.cobounded2 simp_thms)
    from works_after [where m = "stored_copy n" and s = s, OF e this ih] show ?thesis by simp
  qed
qed

lemma unat_and_7: "unat (w AND 7) \<le> 7" for w :: u32
  using word_and_le1 [of w 7] by (simp add: word_le_nat_alt)

lemma works_align: "works True 0 (\<lambda>s. skip_bits (unat (num_bits s AND 7)) s) s"
  using works_mono [OF works_bits(1) [of "unat (num_bits s AND 7)" s], of 0] unat_and_7 [of "num_bits s"]
  by (simp add: works_def)

lemma works_stored_block: "works True 0 stored_block s"
proof -
  have "works True (0 + (8 + (8 + (8 + (8 + 0))))) stored_block s"
    unfolding stored_block_def
  proof (intro works_bnd works_align works_raw_byte)
    fix h0 h1 h2 h3 s
    have "works True (0 + 0) (bnd (stored_bits n) stored_copy) s" for n
      by (intro works_bnd works_stored_bits works_stored_copy)
    then show "works True 0 (let counter = h0 OR push_bit 8 h1
       in if counter \<noteq> 65535 XOR (h2 OR push_bit 8 h3) then halt (Status STATUS_FAILED)
          else bnd (stored_bits counter) stored_copy) s"
      by (simp add: Let_def)
  qed
  then show ?thesis by (rule works_mono) simp
qed

section \<open>Huffman codes\<close>

lemma look_up_in: "table_ok n t \<Longrightarrow> look_up t w \<in> set (m_look_up t)"
proof -
  have "unat (w AND mask 10) = unat w mod 1024"
    by (simp only: unsigned_take_bit_eq take_bit_eq_mod flip: take_bit_eq_mask) (simp add: unat_mod)
  then have "unat (w AND mask FAST_LOOKUP_BITS) < 1024" by (simp add: FAST_LOOKUP_BITS_def)
  then show "table_ok n t \<Longrightarrow> look_up t w \<in> set (m_look_up t)"
    by (auto simp: look_up_def table_ok_def FAST_LOOKUP_SIZE_def)
qed

lemma look_up_cases:
  assumes "table_ok n t"
  shows "look_up t w < 0 \<Longrightarrow> shallow n (m_tree t) 5 (look_up t w)"
    and "\<not> look_up t w < 0 \<Longrightarrow> nat (look_up t w) AND 511 < n \<and> (look_up t w = 0 \<or>
      1 \<le> drop_bit 9 (nat (look_up t w)) \<and> drop_bit 9 (nat (look_up t w)) \<le> 15)"
  using look_up_in [OF assms, of w] assms unfolding table_ok_def by metis+

lemma tree_child_shallow:
  assumes "shallow n (m_tree t) (Suc k) v" and "v < 0" and "c < 64"
  shows "\<exists>v'. tree_child t w v c = Inr v' \<and> shallow n (m_tree t) k v'"
  using assms by (auto simp: tree_child_def Let_def nat_add_distrib nat_diff_distrib split: if_splits)

lemma shallow_nonneg: "shallow n tree k v \<Longrightarrow> \<not> v < 0 \<Longrightarrow> v < int n"
  by (cases k) (simp_all split: if_splits)

lemma huff_walk_shallow:
  assumes "shallow n (m_tree t) k v" and "v < 0" and "c + k \<le> 64"
  shows "\<exists>sy l. huff_walk t w v c = Inr (sy, l) \<and> c < l \<and> l \<le> c + k \<and> sy < n"
  using assms
proof (induction k arbitrary: v c)
  case (Suc k)
  obtain v' where v': "tree_child t w v c = Inr v'" "shallow n (m_tree t) k v'"
    using tree_child_shallow [OF Suc.prems(1,2), of c w] Suc.prems(3) by auto
  show ?case
  proof (cases "v' < 0")
    case True
    then obtain sy l where "huff_walk t w v' (c + 1) = Inr (sy, l)" "c + 1 < l" "l \<le> c + 1 + k" "sy < n"
      using Suc.IH [OF v'(2) True, of "c + 1"] Suc.prems(3) by auto
    then show ?thesis using v' True by (subst huff_walk.simps) auto
  next
    case False
    then show ?thesis using v' shallow_nonneg [OF v'(2)] by (subst huff_walk.simps) auto
  qed
qed simp

text \<open>The symbol at the front of the bit buffer: it exists, has at most 15 bits and is one of the table's.\<close>

lemma huff_symbol_ok:
  assumes "table_ok n t"
  shows "\<exists>sy l. huff_symbol t s = (Inr (sy, l), s) \<and> l \<le> 15 \<and> (l = 0 \<longrightarrow> sy = 0) \<and>
    (if look_up t (bit_buf s) < 0 then sy < n else sy AND 511 < n)"
proof (cases "look_up t (bit_buf s) < 0")
  case True
  from huff_walk_shallow [OF look_up_cases(1) [OF assms True] True, of FAST_LOOKUP_BITS "bit_buf s"] True show ?thesis
    by (auto simp: huff_symbol_def FAST_LOOKUP_BITS_def)
next
  case False
  from look_up_cases(2) [OF assms False] False show ?thesis
    by (auto simp: huff_symbol_def Let_def)
qed

lemma huff_symbol_length:
  assumes "table_ok n t" and "huff_symbol t s = (Inr (sy, l), s')"
  shows "s' = s \<and> l \<le> 15 \<and> (l = 0 \<longrightarrow> sy = 0) \<and> (if look_up t (bit_buf s) < 0 then sy < n else sy AND 511 < n)"
  using huff_symbol_ok [OF assms(1), of s] assms(2) by auto

text \<open>Taking a code therefore never shifts by the width of the bit buffer.\<close>

lemma huff_symbol_consume:
  assumes "table_ok n t"
  shows "bnd (huff_symbol t) (\<lambda>(sy, l) s. bnd (consume l) (\<lambda>_. give (f sy s)) s) =
    bnd (huff_symbol t) (\<lambda>(sy, l) s. (Inr (f sy s), drop_bits l s))"
proof
  fix s
  obtain sy l where "huff_symbol t s = (Inr (sy, l), s)" "l \<le> 15" using huff_symbol_ok [OF assms, of s] by blast
  then show "bnd (huff_symbol t) (\<lambda>(sy, l) s. bnd (consume l) (\<lambda>_. give (f sy s)) s) s =
      bnd (huff_symbol t) (\<lambda>(sy, l) s. (Inr (f sy s), drop_bits l s)) s"
    by (simp add: bnd_def consume_eq give_def)
qed

lemma huff_decode_eq:
  "table_ok n t \<Longrightarrow> huff_decode t = bnd (huff_ensure t) (\<lambda>_. bnd (huff_symbol t) (\<lambda>(sy, l) s.
     (Inr (if 0 \<le> look_up t (bit_buf s) then sy AND 511 else sy), drop_bits l s)))"
  unfolding huff_decode_def by (subst huff_symbol_consume) simp_all

lemma fast_symbol_eq:
  assumes "table_ok n (m_tables s ! 0)"
  shows "fast_symbol s = bnd (huff_symbol (m_tables s ! 0)) (\<lambda>(sy, l) s. (Inr sy, drop_bits l s)) s"
proof -
  have "fast_symbol s = bnd (huff_symbol (m_tables s ! 0)) (\<lambda>(sy, l). bnd (consume l) (\<lambda>_. give sy)) s"
    by (simp add: fast_symbol_def bnd_def)
  then show ?thesis using huff_symbol_consume [OF assms, of "\<lambda>sy s. sy"] by simp
qed

text \<open>When the bits at hand hold a whole code, its length is at most their number.\<close>

lemma fill_walk_huff_walk:
  assumes "fill_walk t w nb v c = Inr v'" and "0 \<le> v'" and "c < nb"
  shows "\<exists>l. huff_walk t w v c = Inr (nat v', l) \<and> l \<le> nb"
  using assms
proof (induction t w nb v c rule: fill_walk.induct)
  case (1 t w nb v c)
  obtain u where u: "tree_child t w v c = Inr u"
    using 1(2) by (cases "tree_child t w v c") (simp_all add: fill_walk.simps [of t w nb v c])
  show ?case
  proof (cases "u < 0 \<and> c + 1 + 1 \<le> nb")
    case True
    then have "fill_walk t w nb u (c + 1) = Inr v'" using 1(2) u by (subst (asm) fill_walk.simps) simp
    with 1(1) [OF u True] True 1(3) show ?thesis by (subst huff_walk.simps) (simp add: u)
  next
    case False
    then have "u = v'" using 1(2) u by (subst (asm) fill_walk.simps) (simp split: if_splits)
    then show ?thesis using u 1(3,4) by (subst huff_walk.simps) simp
  qed
qed

lemma fill_ready_length:
  assumes "fill_ready t s = Inr True" and "huff_symbol t s = (Inr (sy, l), s')"
  shows "l \<le> unat (num_bits s)"
proof (cases "look_up t (bit_buf s) < 0")
  case True
  then obtain v' where "FAST_LOOKUP_BITS < unat (num_bits s)"
      "fill_walk t (bit_buf s) (unat (num_bits s)) (look_up t (bit_buf s)) FAST_LOOKUP_BITS = Inr v'" "0 \<le> v'"
    using assms(1) by (auto simp: fill_ready_def Let_def split: if_splits sum.splits)
  from fill_walk_huff_walk [OF this(2,3,1)] show ?thesis
    using assms(2) True by (auto simp: huff_symbol_def)
qed (use assms in \<open>auto simp: fill_ready_def huff_symbol_def Let_def\<close>)

lemma fill_walk_stop:
  assumes "shallow n (m_tree t) k v" and "v < 0" and "nb < 64" and "c < nb" and "c + k \<le> 64"
  shows "fill_walk t w nb v c \<noteq> Inl e"
  using assms
proof (induction k arbitrary: v c)
  case (Suc k)
  obtain v' where v': "tree_child t w v c = Inr v'" "shallow n (m_tree t) k v'"
    using tree_child_shallow [OF Suc.prems(1,2), of c w] Suc.prems(3,4) by auto
  show ?case
  proof (cases "v' < 0 \<and> c + 1 + 1 \<le> nb")
    case True
    then show ?thesis
      using Suc.IH [OF v'(2), of "c + 1"] Suc.prems v'(1) by (simp add: fill_walk.simps [of t w nb v c])
  next
    case False
    then show ?thesis by (auto simp: fill_walk.simps [of t w nb v c] v'(1))
  qed
qed simp

lemma fill_ready_stop:
  assumes "table_ok n t" and "unat (num_bits s) < 64"
  shows "fill_ready t s \<noteq> Inl e"
  using fill_walk_stop [OF look_up_cases(1) [OF assms(1)] _ assms(2), of "bit_buf s" FAST_LOOKUP_BITS]
  by (auto simp: fill_ready_def Let_def FAST_LOOKUP_BITS_def split: sum.splits)

lemma works_huff_symbol: "table_ok n t \<Longrightarrow> works u 0 (huff_symbol t) s"
  using huff_symbol_ok [of n t s] by (auto simp: works_def extends_refl)

lemma works_huff_fill:
  assumes "table_ok n t" and "unat (num_bits s) < 15"
  shows "works True 0 (huff_fill t) s \<and>
    (\<forall>x s'. inflator_ok s \<longrightarrow> huff_fill t s = (Inr x, s') \<longrightarrow> 15 \<le> unat (num_bits s') \<or> fill_ready t s' = Inr True)"
  using assms
proof (induction t s rule: huff_fill.induct)
  case (1 t s)
  have ready: "fill_ready t s \<noteq> Inl e" for e
    using fill_ready_stop [OF 1(2)] 1(3) by simp
  show ?case
  proof (cases "fill_ready t s = Inr False \<and> inflator_ok s")
    case False
    then show ?thesis
      using ready by (cases "fill_ready t s") (auto simp: works_def huff_fill.simps [of t s] extends_refl)
  next
    case True
    then have r: "fill_ready t s = Inr False" and ok: "inflator_ok s" by simp_all
    show ?thesis
    proof (cases "get_byte s")
      case (Pair res s')
      show ?thesis
      proof (cases res)
        case (Inl e)
        then show ?thesis
          using ok r Pair by (auto simp: works_def huff_fill.simps [of t s] get_byte_def extends_refl split: if_splits)
      next
        case (Inr c)
        then have g: "get_byte s = (Inr c, s')" using Pair by simp
        note a = add_byte_extends [OF ok g]
        have nb: "unat (num_bits s) < 32" using 1(3) by simp
        have lt: "num_bits (add_byte c s') < 15 \<longleftrightarrow> unat (num_bits (add_byte c s')) < 15"
          using of_nat_less_num [of 15] by simp
        have sh: "\<not> 64 \<le> unat (num_bits s')" using get_byte_Inr [OF g] nb by simp
        show ?thesis
        proof (cases "unat (num_bits (add_byte c s')) < 15")
          case True
          have e: "huff_fill t s = huff_fill t (add_byte c s')"
            using True lt r sh by (subst huff_fill.simps) (simp add: g)
          have ih: "works True 0 (huff_fill t) (add_byte c s') \<and> (\<forall>x s''. inflator_ok (add_byte c s') \<longrightarrow>
              huff_fill t (add_byte c s') = (Inr x, s'') \<longrightarrow> 15 \<le> unat (num_bits s'') \<or> fill_ready t s'' = Inr True)"
            by (rule 1(1) [OF r _ g [symmetric] refl sh]) (use True lt 1(2) in simp_all)
          have "works True (0 + 0) (huff_fill t) s"
            by (rule works_after [where m = "huff_fill t" and s = s and m' = "huff_fill t"
                  and s' = "add_byte c s'" and j = 0, OF e]) (use a nb ih in simp_all)
          then show ?thesis
            using ih a(1) [OF nb] e by (simp add: extends_def)
        next
          case False
          then have "huff_fill t s = (Inr (), add_byte c s')"
            using lt r sh by (subst huff_fill.simps) (simp add: g)
          then show ?thesis using a nb False by (auto simp: works_def)
        qed
      qed
    qed
  qed
qed

lemma add_two_extends:
  assumes "inflator_ok s" and "unat (num_bits s) < 15" and "2 \<le> length (in_buf s) - in_cur s"
  shows "extends s (taken_two s) \<and> work_left (taken_two s) = work_left s \<and>
    m_tables (taken_two s) = m_tables s \<and> m_table_sizes (taken_two s) = m_table_sizes s \<and> 15 \<le> unat (num_bits (taken_two s))"
  using assms unat_num_add [of "num_bits s" 16]
  by (auto simp: taken_two_def extends_def inflator_ok_def work_left_def)

lemma works_huff_ensure:
  assumes "table_ok n t"
  shows "works True 0 (huff_ensure t) s"
    and "inflator_ok s \<Longrightarrow> huff_ensure t s = (Inr x, s') \<Longrightarrow> 15 \<le> unat (num_bits s') \<or> fill_ready t s' = Inr True"
proof -
  have lt: "num_bits s < 15 \<longleftrightarrow> unat (num_bits s) < 15" using of_nat_less_num [of 15] by simp
  show "works True 0 (huff_ensure t) s"
    using works_huff_fill [OF assms, of s] add_two_extends [of s] lt
    by (auto simp: works_def huff_ensure_eq extends_refl)
  show "inflator_ok s \<Longrightarrow> huff_ensure t s = (Inr x, s') \<Longrightarrow> 15 \<le> unat (num_bits s') \<or> fill_ready t s' = Inr True"
    using works_huff_fill [OF assms, of s] add_two_extends [of s] lt
    by (auto simp: huff_ensure_eq split: if_splits)
qed

text \<open>A decoded symbol other than 0 takes at least one bit.\<close>

definition symbol_cost :: "nat \<Rightarrow> nat" where
  "symbol_cost sy = (if sy = 0 then 0 else 1)"

lemma works_bnd_cost:
  assumes "works t 0 m s"
    and "\<And>x s'. m s = (Inr x, s') \<Longrightarrow> inflator_ok s \<Longrightarrow> inflator_ok s' \<Longrightarrow>
      \<exists>j. work_left s' + j \<le> work_left s \<and> (\<exists>k'. works t k' (f x) s' \<and> k \<le> j + k')"
  shows "works t k (bnd m f) s"
proof (cases "inflator_ok s")
  case True
  show ?thesis
  proof (cases "m s")
    case (Pair r s')
    show ?thesis
    proof (cases r)
      case (Inl e)
      then show ?thesis using assms(1) Pair by (simp add: works_def bnd_def)
    next
      case (Inr x)
      then have m: "m s = (Inr x, s')" using Pair by simp
      note s' = works_ok [OF assms(1) m True]
      obtain j k' where "work_left s' + j \<le> work_left s" "works t k' (f x) s'" "k \<le> j + k'"
        using assms(2) [OF m True] s' by blast
      then show ?thesis
        using s' extends_trans [of s s'] by (auto simp: works_def bnd_def m split: prod.splits sum.splits)
    qed
  qed
qed (simp add: works_def)

lemma symbol_taken:
  assumes "table_ok n t" and "huff_symbol t s = (Inr (sy, l), s')" and "15 \<le> unat (num_bits s) \<or> fill_ready t s = Inr True"
  shows "s' = s \<and> l \<le> unat (num_bits s) \<and> l \<le> 15 \<and> symbol_cost sy \<le> l"
  using huff_symbol_length [OF assms(1,2)] assms(3) fill_ready_length [OF _ assms(2)]
  by (auto simp: symbol_cost_def)

lemma works_take_symbol:
  assumes "table_ok n t" and "15 \<le> unat (num_bits s) \<or> fill_ready t s = Inr True"
  shows "works u 0 (bnd (huff_symbol t) (\<lambda>(sy, l) s. (Inr (f sy s), drop_bits l s))) s"
    and "inflator_ok s \<Longrightarrow> bnd (huff_symbol t) (\<lambda>(sy, l) s. (Inr (f sy s), drop_bits l s)) s = (Inr x, s') \<Longrightarrow>
      \<exists>sy l. x = f sy s \<and> s' = drop_bits l s \<and> l \<le> 15 \<and> l \<le> unat (num_bits s) \<and> work_left s' + symbol_cost sy \<le> work_left s"
proof -
  have "works u (0 + 0) (bnd (huff_symbol t) (\<lambda>(sy, l) s. (Inr (f sy s), drop_bits l s))) s"
  proof (rule works_bnd [OF works_huff_symbol [OF assms(1)]], clarify)
    fix sy l s' assume "huff_symbol t s = (Inr (sy, l), s')"
    from symbol_taken [OF assms(1) this assms(2)]
    show "works u 0 (\<lambda>s. (Inr (f sy s), drop_bits l s)) s'"
      using works_mono [OF works_drop_bits [where n = l and s = s and f = "f sy" and t = u]] by simp
  qed
  then show "works u 0 (bnd (huff_symbol t) (\<lambda>(sy, l) s. (Inr (f sy s), drop_bits l s))) s" by simp
  assume ok: "inflator_ok s" and b: "bnd (huff_symbol t) (\<lambda>(sy, l) s. (Inr (f sy s), drop_bits l s)) s = (Inr x, s')"
  then obtain sy l s1 where h: "huff_symbol t s = (Inr (sy, l), s1)"
      and x: "x = f sy s1" "s' = drop_bits l s1"
    by (auto simp: bnd_def split: prod.splits sum.splits)
  show "\<exists>sy l. x = f sy s \<and> s' = drop_bits l s \<and> l \<le> 15 \<and> l \<le> unat (num_bits s) \<and> work_left s' + symbol_cost sy \<le> work_left s"
    using symbol_taken [OF assms(1) h assms(2)] x drop_bits_extends(2) [OF ok, of l] by fastforce
qed

lemma works_huff_decode:
  assumes "table_ok n t"
  shows "works True 0 (huff_decode t) s"
    and "inflator_ok s \<Longrightarrow> huff_decode t s = (Inr sy, s') \<Longrightarrow> work_left s' + symbol_cost sy \<le> work_left s"
proof -
  let ?g = "\<lambda>sy s. if 0 \<le> look_up t (bit_buf s) then sy AND 511 else sy"
  have d: "huff_decode t = bnd (huff_ensure t) (\<lambda>_. bnd (huff_symbol t) (\<lambda>(sy, l) s. (Inr (?g sy s), drop_bits l s)))"
    by (rule huff_decode_eq [OF assms])
  have "works True (0 + 0) (huff_decode t) s"
    unfolding d
    by (intro works_bnd works_huff_ensure(1) [OF assms] works_take_symbol(1) [OF assms] works_huff_ensure(2) [OF assms])
  then show "works True 0 (huff_decode t) s" by simp
  assume ok: "inflator_ok s" and h: "huff_decode t s = (Inr sy, s')"
  then obtain s1 where e: "huff_ensure t s = (Inr (), s1)"
      and b: "bnd (huff_symbol t) (\<lambda>(sy, l) s. (Inr (?g sy s), drop_bits l s)) s1 = (Inr sy, s')"
    unfolding d by (auto simp: bnd_def [of "huff_ensure t"] split: prod.splits sum.splits)
  note s1 = works_ok [OF works_huff_ensure(1) [OF assms] e ok]
  from works_take_symbol(2) [OF assms works_huff_ensure(2) [OF assms ok e], OF _ b] s1
  obtain sy' where "sy = ?g sy' s1" "work_left s' + symbol_cost sy' \<le> work_left s1" by blast
  then show "work_left s' + symbol_cost sy \<le> work_left s"
    using s1 by (auto simp: symbol_cost_def split: if_splits)
qed

section \<open>Literals and matches\<close>

lemma works_slow_literal:
  assumes "table_ok n (m_tables s ! 0)"
  shows "works True 1 slow_literal s"
  unfolding slow_literal_def
proof (rule works_bnd_cost)
  show "works True 0 (\<lambda>s. huff_decode (m_tables s ! 0) s) s"
    using works_huff_decode(1) [OF assms] by (simp add: works_def)
  fix sy s' assume h: "huff_decode (m_tables s ! 0) s = (Inr sy, s')" and ok: "inflator_ok s"
  note c = works_huff_decode(2) [OF assms ok h]
  have "works True (1 + 0) (bnd (put_byte (of_nat sy)) (\<lambda>_. give None)) s'"
    by (intro works_bnd works_put_byte works_give)
  then show "\<exists>j. work_left s' + j \<le> work_left s \<and> (\<exists>k'. works True k'
      (if 256 \<le> sy then give (Some sy) else bnd (put_byte (of_nat sy)) (\<lambda>_. give None)) s' \<and> 1 \<le> j + k')"
    using c by (intro exI [of _ "symbol_cost sy"]) (auto simp: symbol_cost_def intro: exI [of _ 0])
qed

lemma add_four_extends:
  assumes "inflator_ok s" and "unat (num_bits s) < 30" and "4 \<le> length (in_buf s) - in_cur s"
  shows "extends s (taken_four s) \<and> work_left (taken_four s) = work_left s \<and>
    m_tables (taken_four s) = m_tables s \<and> m_table_sizes (taken_four s) = m_table_sizes s \<and> 30 \<le> unat (num_bits (taken_four s))"
  using assms unat_num_add [of "num_bits s" 32]
  by (auto simp: taken_four_def Let_def extends_def inflator_ok_def work_left_def)

lemma fast_symbol_works:
  assumes "table_ok n (m_tables s ! 0)" and "15 \<le> unat (num_bits s)"
  shows "works True 0 fast_symbol s"
    and "inflator_ok s \<Longrightarrow> fast_symbol s = (Inr sy, s') \<Longrightarrow>
      work_left s' + symbol_cost sy \<le> work_left s \<and> unat (num_bits s) - 15 \<le> unat (num_bits s')"
proof -
  let ?b = "bnd (huff_symbol (m_tables s ! 0)) (\<lambda>(sy, l) s. (Inr sy, drop_bits l s))"
  have e: "fast_symbol s = ?b s" by (rule fast_symbol_eq [OF assms(1)])
  show "works True 0 fast_symbol s"
    using works_take_symbol(1) [OF assms(1), of s True "\<lambda>sy s. sy"] assms(2) by (simp add: works_def e)
  assume ok: "inflator_ok s" and f: "fast_symbol s = (Inr sy, s')"
  obtain l where l: "s' = drop_bits l s" "l \<le> 15" "l \<le> unat (num_bits s)" "work_left s' + symbol_cost sy \<le> work_left s"
    using works_take_symbol(2) [OF assms(1) _ ok, of "\<lambda>sy s. sy" sy s'] assms(2) f e by auto
  then show "work_left s' + symbol_cost sy \<le> work_left s \<and> unat (num_bits s) - 15 \<le> unat (num_bits s')"
    using drop_bits_extends(5) [OF ok l(3)] by simp
qed

lemma and_256_cost: "sy AND 256 \<noteq> 0 \<Longrightarrow> symbol_cost sy = 1"
  by (cases "sy = 0") (simp_all add: symbol_cost_def)

lemma works_put_give: "works True 1 (bnd (put_byte b) (\<lambda>_. give r)) s"
proof -
  have "works True (1 + 0) (bnd (put_byte b) (\<lambda>_. give r)) s"
    by (rule works_bnd [OF works_put_byte]) simp
  then show ?thesis by simp
qed

text \<open>The second symbol of the fast path: the first one is written in any case.\<close>

lemma works_second_literal:
  assumes "table_ok n (m_tables s ! 0)" and "15 \<le> unat (num_bits s)"
  shows "works True 1 (bnd fast_symbol (\<lambda>sym2. bnd (put_byte (of_nat counter)) (\<lambda>_.
      if sym2 AND 256 \<noteq> 0 then give (Some sym2) else bnd (put_byte (of_nat sym2)) (\<lambda>_. give None)))) s"
proof -
  have "works True (1 + 0) (bnd (put_byte (of_nat counter)) (\<lambda>_.
      if sym2 AND 256 \<noteq> 0 then give (Some sym2) else bnd (put_byte (of_nat sym2)) (\<lambda>_. give None))) s'"
    for sym2 s'
    by (rule works_bnd [OF works_put_byte]) (auto intro: works_mono [OF works_put_give])
  then have "works True (0 + 1) (bnd fast_symbol (\<lambda>sym2. bnd (put_byte (of_nat counter)) (\<lambda>_.
      if sym2 AND 256 \<noteq> 0 then give (Some sym2) else bnd (put_byte (of_nat sym2)) (\<lambda>_. give None)))) s"
    by (intro works_bnd [OF fast_symbol_works(1) [OF assms]]) simp
  then show ?thesis by simp
qed

lemma works_fast_literals:
  assumes "table_ok n (m_tables s ! 0)" and "4 \<le> length (in_buf s) - in_cur s"
  shows "works True 1 two_literals s"
proof -
  let ?refill = "\<lambda>s. (Inr (), if num_bits s < 30 then taken_four s else s)"
  let ?rest = "\<lambda>counter :: nat. if counter AND 256 \<noteq> 0 then give (Some counter)
      else bnd fast_symbol (\<lambda>sym2. bnd (put_byte (of_nat counter)) (\<lambda>_.
        if sym2 AND 256 \<noteq> 0 then give (Some sym2) else bnd (put_byte (of_nat sym2)) (\<lambda>_. give None)))"
  have lt: "num_bits s < 30 \<longleftrightarrow> unat (num_bits s) < 30" using of_nat_less_num [of 30] by simp
  have refill: "works True 0 ?refill s"
    using add_four_extends [of s] assms(2) lt by (auto simp: works_def extends_refl)
  have "works True (0 + 1) (bnd ?refill (\<lambda>_. bnd fast_symbol ?rest)) s"
  proof (rule works_bnd [OF refill])
    fix x s1 assume r: "?refill s = (Inr x, s1)" and ok: "inflator_ok s" and ok1: "inflator_ok s1"
    have "s1 = (if num_bits s < 30 then taken_four s else s)" using r by simp
    then have s1: "table_ok n (m_tables s1 ! 0)" "30 \<le> unat (num_bits s1)"
      using assms(1) add_four_extends [OF ok _ assms(2)] lt by (auto split: if_splits)
    show "works True 1 (bnd fast_symbol ?rest) s1"
    proof (rule works_bnd_cost [OF fast_symbol_works(1)])
      fix sy s2 assume f: "fast_symbol s1 = (Inr sy, s2)"
      have c: "work_left s2 + symbol_cost sy \<le> work_left s1" "15 \<le> unat (num_bits s2)"
        using fast_symbol_works(2) [OF s1(1) _ ok1 f] s1(2) by auto
      have t2: "table_ok n (m_tables s2 ! 0)"
        using works_tables [OF fast_symbol_works(1) f ok1] s1 by simp
      show "\<exists>j. work_left s2 + j \<le> work_left s1 \<and> (\<exists>k'. works True k' (?rest sy) s2 \<and> 1 \<le> j + k')"
      proof (cases "sy AND 256 = 0")
        case True
        then show ?thesis using works_second_literal [OF t2 c(2), of sy] c(1)
          by (intro exI [of _ 0] conjI exI [of _ 1]) auto
      next
        case False
        then show ?thesis using and_256_cost [OF False] c(1)
          by (intro exI [of _ 1] conjI exI [of _ 0]) auto
      qed
    qed (use s1 in auto)
  qed
  then show ?thesis by (simp add: two_literals_def)
qed

lemma works_literal_pass: "table_ok n (m_tables s ! 0) \<Longrightarrow> works True 1 literal_pass s"
  using works_slow_literal [of n s] works_fast_literals [of n s] by (auto simp: works_def literal_pass_eq)

text \<open>Copies at the end of the output stay inside the buffer and leave what is before them alone.\<close>

definition keeps :: "nat \<Rightarrow> byte list \<Rightarrow> byte list \<Rightarrow> bool" where
  "keeps k buf buf' \<longleftrightarrow> length buf' = length buf \<and> take k buf' = take k buf"

lemma keeps_refl [simp]: "keeps k buf buf"
  by (simp add: keeps_def)

lemma keeps_trans: "keeps k a b \<Longrightarrow> keeps k b c \<Longrightarrow> keeps k a c"
  by (simp add: keeps_def)

lemma keeps_length: "keeps k a b \<Longrightarrow> length b = length a"
  by (simp add: keeps_def)

lemma keeps_then_copy1: "keeps k buf b \<Longrightarrow> k \<le> dst \<Longrightarrow> keeps k buf (copied1 src dst b)"
  by (simp add: keeps_def copied1_def)

lemma keeps_copy8:
  "k \<le> dst \<Longrightarrow> src + 8 \<le> length buf \<Longrightarrow> dst + 8 \<le> length buf \<Longrightarrow> keeps k buf (copied8 src dst buf)"
  by (simp add: keeps_def copied8_def)

lemma keeps_copy_eights:
  "k \<le> dst \<Longrightarrow> src + 8 * n \<le> length buf \<Longrightarrow> dst + 8 * n \<le> length buf \<Longrightarrow> keeps k buf (copied_eights n src dst buf)"
proof (induction n arbitrary: src dst buf)
  case (Suc n)
  have "keeps k buf (copied8 src dst buf)" using Suc.prems by (intro keeps_copy8) simp_all
  moreover have "keeps k (copied8 src dst buf) (copied_eights n (src + 8) (dst + 8) (copied8 src dst buf))"
    using Suc.prems keeps_length [OF calculation] by (intro Suc.IH) simp_all
  ultimately show ?case by (auto intro: keeps_trans)
qed simp

lemma keeps_copy_threes: "k \<le> dst \<Longrightarrow> keeps k buf (copied_threes n src dst buf)"
proof (induction n src dst buf rule: copied_threes.induct)
  case (1 n src dst buf)
  have "keeps k buf (copied1 (src + 2) (dst + 2) (copied1 (src + 1) (dst + 1) (copied1 src dst buf)))"
    using 1(2) by (intro keeps_then_copy1) simp_all
  from keeps_trans [OF this 1(1)] show ?case using 1(2) by simp
qed (auto intro!: keeps_then_copy1)

lemma keeps_fast_copy:
  assumes "src + counter \<le> length buf" and "dst + counter \<le> length buf"
  shows "keeps dst buf (fast_copied counter dist src dst buf)"
proof -
  have "8 * (counter div 8) \<le> counter" by simp
  then have "keeps dst buf (copied_eights (counter div 8) src dst buf)"
    using assms by (intro keeps_copy_eights) linarith+
  then show ?thesis
    by (auto simp: fast_copied_def Let_def intro: keeps_copy_threes keeps_trans [OF _ keeps_copy_threes] intro!: keeps_then_copy1)
qed

lemma works_bnd_tables:
  assumes "works True j m s"
    and "\<And>x s'. m s = (Inr x, s') \<Longrightarrow> inflator_ok s' \<Longrightarrow> m_tables s' = m_tables s \<Longrightarrow> works True k (f x) s'"
  shows "works True (j + k) (bnd m f) s"
  by (rule works_bnd [OF assms(1)]) (use works_tables [OF assms(1)] assms(2) in auto)

lemma works_read_at: "i < length xs \<Longrightarrow> works True 0 (read_at xs i) s"
  by (simp add: works_def read_at_def extends_refl)

lemma read_at_Inr: "read_at xs i s = (Inr x, s') \<Longrightarrow> i < length xs \<and> x = xs ! i \<and> s' = s"
  by (auto simp: read_at_def split: if_splits)

lemma match_source_less:
  assumes "frm < length (out_buf s)"
  shows "match_source s frm dist < length (out_buf s)"
proof -
  have pos: "0 < int (length (out_buf s))" using assms by linarith
  show ?thesis
    using assms pos_mod_sign [OF pos] pos_mod_bound [OF pos] by (auto simp: match_source_def nat_less_iff)
qed

lemma works_copy_bytes:
  assumes "frm = out_cur s" and "flag FLAG_NON_WRAPPING s \<longrightarrow> dist \<le> frm"
  shows "works True 0 (copy_bytes n frm dist) s"
  using assms
proof (induction n arbitrary: frm s)
  case (Suc n frm s)
  let ?src = "match_source s frm dist"
  show ?case
  proof (cases "length (out_buf s) \<le> out_cur s")
    case False
    then have "?src < length (out_buf s)"
      using Suc.prems match_source_less [of frm s dist] by simp
    then have e: "copy_bytes (Suc n) frm dist s =
        bnd (put_byte (out_buf s ! ?src)) (\<lambda>_. copy_bytes n (frm + 1) dist) s"
      using False by (simp add: read_out_def bnd_def)
    have "works True (1 + 0) (bnd (put_byte (out_buf s ! ?src)) (\<lambda>_. copy_bytes n (frm + 1) dist)) s"
    proof (rule works_bnd [OF works_put_byte])
      fix x s' assume "put_byte (out_buf s ! ?src) s = (Inr x, s')"
      then have "out_cur s' = out_cur s + 1" and "decomp_flags s' = decomp_flags s"
        by (auto simp: put_byte_def split: if_splits)
      note s' = this
      show "works True 0 (copy_bytes n (frm + 1) dist) s'"
      proof (rule Suc.IH)
        show "frm + 1 = out_cur s'" using s'(1) Suc.prems(1) by simp
        show "flag FLAG_NON_WRAPPING s' \<longrightarrow> dist \<le> frm + 1"
          using Suc.prems(2) unfolding s'(2) by (meson le_add1 le_trans)
      qed
    qed
    then have "works True (1 + 0) (copy_bytes (Suc n) frm dist) s" by (rule works_eq) (rule e)
    then show ?thesis by (rule works_mono) simp
  qed (simp add: works_def extends_refl)
qed (simp add: works_def extends_refl)

lemma works_copy_from: "works True 0 (copy_from counter dist) s"
proof -
  let ?src = "match_source s (out_cur s) dist"
  have "inflator_ok s \<Longrightarrow> max (out_cur s) ?src + counter \<le> length (out_buf s) \<Longrightarrow>
      keeps (out_cur s) (out_buf s) (fast_copied counter dist ?src (out_cur s) (out_buf s))"
    by (rule keeps_fast_copy) auto
  then show ?thesis
    using works_copy_bytes [of "out_cur s" s dist counter]
    by (auto simp: works_def copy_from_eq Let_def extends_refl extends_def keeps_def inflator_ok_def work_left_def)
qed

text \<open>A decoded symbol is one of the table's.\<close>

lemma and_511: "sy < 512 \<Longrightarrow> sy AND 511 = sy" for sy :: nat
  using take_bit_eq_mask [of 9 sy] by (simp add: mask_eq_exp_minus_1 take_bit_nat_eq_self)

lemma huff_decode_less:
  assumes "table_ok n t" and "n \<le> 288" and "huff_decode t s = (Inr sy, s')"
  shows "sy < n"
proof -
  obtain s1 where b: "bnd (huff_symbol t) (\<lambda>(sy, l) s.
      (Inr (if 0 \<le> look_up t (bit_buf s) then sy AND 511 else sy), drop_bits l s)) s1 = (Inr sy, s')"
    using assms(3) by (auto simp: huff_decode_eq [OF assms(1)] bnd_def [of "huff_ensure t"] split: prod.splits sum.splits)
  obtain sy' l where "huff_symbol t s1 = (Inr (sy', l), s1)"
      "if look_up t (bit_buf s1) < 0 then sy' < n else sy' AND 511 < n"
    using huff_symbol_ok [OF assms(1), of s1] by blast
  then show ?thesis using b by (auto simp: bnd_def split: if_splits)
qed

lemma works_with_extra:
  assumes "i < length extras" and "i < length bases" and "\<forall>x \<in> set extras. x \<le> 16"
  shows "works True 0 (with_extra bases extras i) s"
proof -
  have bits: "works True 0 (if n \<noteq> 0 then get_bits n else give 0) s" if "n \<le> 16" for n s
    using works_mono [OF works_bits(2) [OF that]] by simp
  have "works True (0 + (0 + (0 + 0))) (with_extra bases extras i) s"
    unfolding with_extra_def
    by (intro works_bnd works_read_at bits works_give) (use assms in \<open>auto dest!: read_at_Inr\<close>)
  then show ?thesis by simp
qed

lemma works_copy_match:
  assumes t: "table_ok 32 (m_tables s ! 1)" and "257 \<le> sy" and "sy < 288"
  shows "works True 0 (copy_match sy) s"
proof -
  have decode: "works True 0 (\<lambda>s. huff_decode (m_tables s ! 1) s) s'" if "m_tables s' = m_tables s" for s'
    using works_huff_decode(1) [OF t, of s'] that by (simp add: works_def)
  have "works True (0 + (0 + (0 + 0))) (bnd (with_extra s_length_base s_length_extra (sy - 257)) (\<lambda>counter.
      bnd (\<lambda>s. huff_decode (m_tables s ! 1) s) (\<lambda>dsym. bnd (with_extra s_dist_base s_dist_extra dsym) (copy_from counter)))) s"
  proof (intro works_bnd_tables decode works_copy_from)
    show "works True 0 (with_extra s_length_base s_length_extra (sy - 257)) s"
      using assms(2,3) by (intro works_with_extra) (simp_all add: s_length_base_def s_length_extra_def)
    fix dsym and s1 s2 :: inflator
    assume "huff_decode (m_tables s1 ! 1) s1 = (Inr dsym, s2)" "m_tables s1 = m_tables s"
    then have "dsym < 32" using huff_decode_less [of 32 "m_tables s1 ! 1" s1] t by simp
    then show "works True 0 (with_extra s_dist_base s_dist_extra dsym) s2"
      by (intro works_with_extra) (simp_all add: s_dist_base_def s_dist_extra_def)
  qed
  then show ?thesis using assms(2) by (simp add: copy_match_def)
qed

text \<open>The symbol that ends a pass over literals: the end of the block, or a match.\<close>

lemma and_256_511: "sy AND 256 \<noteq> 0 \<Longrightarrow> 256 \<le> sy AND 511" for sy :: nat
proof (rule ccontr)
  assume a: "sy AND 256 \<noteq> 0" "\<not> 256 \<le> sy AND 511"
  have "take_bit 8 (sy AND 511) = sy AND 511" by (rule take_bit_nat_eq_self) (use a(2) in simp)
  then have "(sy AND 511) AND 255 = sy AND 511"
    using take_bit_eq_mask [of 8 "sy AND 511"] by (simp add: mask_eq_exp_minus_1 and.assoc)
  moreover have "(x AND 255) AND 256 = 0" for x :: nat by (simp add: and.assoc)
  ultimately have "(sy AND 511) AND 256 = 0" by metis
  moreover have "(sy AND 511) AND 256 = sy AND 256" by (simp add: and.assoc)
  ultimately show False using a(1) by simp
qed

lemma fast_symbol_less:
  assumes "table_ok 288 (m_tables s ! 0)" and "fast_symbol s = (Inr sy, s')"
  shows "sy AND 511 < 288"
proof -
  obtain sy' l where h: "huff_symbol (m_tables s ! 0) s = (Inr (sy', l), s)"
    "if look_up (m_tables s ! 0) (bit_buf s) < 0 then sy' < 288 else sy' AND 511 < 288"
    using huff_symbol_ok [OF assms(1), of s] by blast
  then show ?thesis using assms(2) and_511 [of sy'] by (auto simp: fast_symbol_eq [OF assms(1)] bnd_def split: if_splits)
qed

lemma literal_pass_symbol:
  assumes t: "table_ok 288 (m_tables s ! 0)" and p: "literal_pass s = (Inr (Some c), s')"
  shows "256 \<le> c AND 511 \<and> c AND 511 < 288"
proof (cases "length (in_buf s) - in_cur s < 4 \<or> length (out_buf s) - out_cur s < 2")
  case True
  then have "256 \<le> c" and h: "huff_decode (m_tables s ! 0) s = (Inr c, s')"
    using p by (auto simp: literal_pass_eq slow_literal_def bnd_def give_def split: prod.splits sum.splits if_splits)
  then show ?thesis using huff_decode_less [OF t _ h] and_511 [of c] by simp
next
  case False
  have t4: "m_tables (if num_bits s < 30 then taken_four s else s) = m_tables s"
    by (simp add: taken_four_def Let_def)
  have tf: "m_tables s2 = m_tables s1" if "fast_symbol s1 = (Inr x, s2)" for x s1 s2
    using fast_symbol_keeps(5) [OF that] .
  have "\<exists>s1 s2. fast_symbol s1 = (Inr c, s2) \<and> m_tables s1 = m_tables s \<and> c AND 256 \<noteq> 0"
    using p False t4 tf
    by (auto simp: literal_pass_eq two_literals_def bnd_def give_def put_byte_def split: prod.splits sum.splits if_splits)
  then show ?thesis using fast_symbol_less [of _ c] t and_256_511 by metis
qed

lemma works_inflate_symbols:
  assumes "table_ok 288 (m_tables s ! 0)" and "table_ok 32 (m_tables s ! 1)" and "work_left s < fuel"
  shows "works True 0 (inflate_symbols fuel) s"
  using assms
proof (induction fuel arbitrary: s)
  case (Suc fuel)
  have step: "works True 0 (case r of None \<Rightarrow> inflate_symbols fuel | Some counter \<Rightarrow>
      if counter AND 511 = 256 then give () else bnd (copy_match (counter AND 511)) (\<lambda>_. inflate_symbols fuel)) s'"
    if l: "literal_pass s = (Inr r, s')" and ok: "inflator_ok s" "inflator_ok s'" for r s'
  proof -
    note p = works_ok [OF works_literal_pass [OF Suc.prems(1)] l ok(1)]
    have t: "table_ok 288 (m_tables s' ! 0)" "table_ok 32 (m_tables s' ! 1)" "work_left s' < fuel"
      using p Suc.prems by simp_all
    show ?thesis
    proof (cases r)
      case None
      then show ?thesis using Suc.IH [OF t] by simp
    next
      case (Some c)
      have c: "256 \<le> c AND 511" "c AND 511 < 288" using literal_pass_symbol [OF Suc.prems(1), of c s'] l Some by auto
      have "works True (0 + 0) (bnd (copy_match (c AND 511)) (\<lambda>_. inflate_symbols fuel)) s'" if "c AND 511 \<noteq> 256"
      proof (rule works_bnd)
        show m: "works True 0 (copy_match (c AND 511)) s'" using c that by (intro works_copy_match t(2)) simp_all
        fix x s'' assume "copy_match (c AND 511) s' = (Inr x, s'')" "inflator_ok s'"
        from works_ok [OF m this] show "works True 0 (inflate_symbols fuel) s''" using t by (intro Suc.IH) simp_all
      qed
      then show ?thesis using Some by simp
    qed
  qed
  have "works True (1 + 0) (inflate_symbols (Suc fuel)) s"
    by (rule works_eq [OF works_bnd [OF works_literal_pass [OF Suc.prems(1)] step]]) simp_all
  then show ?case by (rule works_mono) simp
qed simp

end
