(* ===== verification/Inflate_Total.thy ===== *)
theory Inflate_Total
  imports Inflate
begin

text \<open>
  The decompressor as a whole: the tables of dynamic blocks, the blocks, the trailer and the call.
  Every call ends with a status; it reads and writes inside its arrays, and its fuel is enough.
\<close>

section \<open>Tables\<close>

text \<open>A step that changes nothing but the arrays of sizes and tables.\<close>

definition same_io :: "inflator \<Rightarrow> inflator \<Rightarrow> bool" where
  "same_io s s' \<longleftrightarrow> in_buf s' = in_buf s \<and> in_cur s' = in_cur s \<and> out_buf s' = out_buf s \<and> out_cur s' = out_cur s \<and>
     decomp_flags s' = decomp_flags s \<and> num_bits s' = num_bits s \<and> m_check_adler32 s' = m_check_adler32 s"

lemma same_io_extends:
  "same_io s s' \<Longrightarrow> arrays_ok s' \<Longrightarrow> inflator_ok s \<Longrightarrow> extends s s' \<and> work_left s' = work_left s"
  by (simp add: same_io_def extends_def inflator_ok_def work_left_def)

lemma works_arrays:
  assumes "inflator_ok s \<Longrightarrow> same_io s (g s) \<and> arrays_ok (g s)"
  shows "works False 0 (\<lambda>s. (Inr x, g s)) s"
  using assms same_io_extends [of s "g s"] by (auto simp: works_def)

lemma same_io_set_code_size: "same_io s s' \<Longrightarrow> same_io s (set_code_size i cs s')"
  by (simp add: same_io_def set_code_size_def)

lemma arrays_ok_set_code_size:
  assumes "arrays_ok s" and "length cs = 288" and "\<forall>c \<in> set cs. c < 16"
  shows "arrays_ok (set_code_size i cs s)"
proof -
  have "length (m_code_size t) = 288 \<and> (\<forall>c \<in> set (m_code_size t). c < 16)"
    if "t \<in> set ((m_tables s)[i := (m_tables s ! i)\<lparr>m_code_size := cs\<rparr>])" for t
    using that set_update_subset_insert [of "m_tables s" i] assms by (fastforce simp: arrays_ok_def)
  then show ?thesis using assms(1) by (simp add: arrays_ok_def set_code_size_def)
qed

lemma table_code_sizes:
  assumes "arrays_ok s" and "i < 3"
  shows "length (m_code_size (m_tables s ! i)) = 288" and "\<forall>c \<in> set (m_code_size (m_tables s ! i)). c < 16"
  using assms nth_mem [of i "m_tables s"] by (auto simp: arrays_ok_def)

lemma static_sizes_ok:
  assumes "arrays_ok s"
  shows "same_io s (static_sizes s)" and "arrays_ok (static_sizes s)"
proof -
  let ?s = "s\<lparr>m_table_sizes := (m_table_sizes s)[0 := 288, 1 := 32]\<rparr>"
  have a: "arrays_ok ?s" using assms by (simp add: arrays_ok_def nth_list_update)
  show "same_io s (static_sizes s)"
    unfolding static_sizes_def by (intro same_io_set_code_size) (simp add: same_io_def)
  show "arrays_ok (static_sizes s)"
    unfolding static_sizes_def
    by (intro arrays_ok_set_code_size a) (use table_code_sizes [OF assms, of 1] in \<open>auto dest: in_set_dropD\<close>)
qed

lemma get_bits_less: "get_bits n s = (Inr x, s') \<Longrightarrow> n \<le> 16 \<Longrightarrow> x < 2 ^ n"
proof -
  have "unat (w AND mask n) < 2 ^ n" for w :: u64
  proof -
    have "w AND mask n = take_bit n w" by (simp add: take_bit_eq_mask)
    then show ?thesis using take_bit_nat_less_exp [of n "unat w"] by (simp only: unsigned_take_bit_eq)
  qed
  then show "get_bits n s = (Inr x, s') \<Longrightarrow> n \<le> 16 \<Longrightarrow> x < 2 ^ n"
    by (auto simp: get_bits_eq bnd_def split: prod.splits sum.splits)
qed

lemma works_read_code_sizes: "works True 0 (read_code_sizes zs cs) s"
proof (induction zs arbitrary: cs s)
  case (Cons z zs cs s)
  have "works True (3 + 0) (read_code_sizes (z # zs) cs) s"
    unfolding read_code_sizes.simps eta_contract_eq by (intro works_bnd works_bits Cons.IH) simp
  then show ?case by (rule works_mono) simp
qed (simp add: works_def extends_refl)

lemma read_code_sizes_ok:
  assumes "read_code_sizes zs cs s = (Inr cs', s')" and "\<forall>c \<in> set cs. c < 16"
  shows "length cs' = length cs \<and> (\<forall>c \<in> set cs'. c < 16)"
  using assms
proof (induction zs arbitrary: cs s)
  case (Cons z zs cs s)
  obtain x s1 where x: "get_bits 3 s = (Inr x, s1)" and r: "read_code_sizes zs (cs[z := x]) s1 = (Inr cs', s')"
    using Cons.prems(1) by (auto simp: bnd_def split: prod.splits sum.splits)
  have "x < 8" using get_bits_less [OF x] by simp
  then have "\<forall>c \<in> set (cs[z := x]). c < 16"
    using Cons.prems(2) set_update_subset_insert [of cs z x] by auto
  from Cons.IH [OF r this] show ?case by simp
qed simp

lemma works_dynamic_sizes: "works False 0 dynamic_sizes s"
proof -
  let ?sz = "\<lambda>n0 n1 n2 s. s\<lparr>m_table_sizes := [n0 + 257, n1 + 1, n2 + 4]\<rparr>"
  let ?read = "\<lambda>n2. read_code_sizes (take (n2 + 4) s_length_dezigzag) (replicate 288 0)"
  let ?fin = "\<lambda>cs s. (Inr (), set_code_size 2 cs (s\<lparr>m_table_sizes := (m_table_sizes s)[2 := 19]\<rparr>))"
  have tail: "works False 0 (\<lambda>s. bnd (?read n2) ?fin (?sz n0 n1 n2 s)) s" if n: "n0 < 32" "n1 < 32" "n2 < 16" for n0 n1 n2 s
  proof -
    have w: "works False (0 + 0) (bnd (?read n2) ?fin) s'" for s'
    proof (rule works_bnd [OF works_forget [OF works_read_code_sizes]], rule works_arrays)
      fix cs s1 assume r: "?read n2 s' = (Inr cs, s1)" and "inflator_ok s1"
      then have a: "arrays_ok (s1\<lparr>m_table_sizes := (m_table_sizes s1)[2 := 19]\<rparr>)"
        by (simp add: inflator_ok_def arrays_ok_def)
      show "same_io s1 (set_code_size 2 cs (s1\<lparr>m_table_sizes := (m_table_sizes s1)[2 := 19]\<rparr>)) \<and>
          arrays_ok (set_code_size 2 cs (s1\<lparr>m_table_sizes := (m_table_sizes s1)[2 := 19]\<rparr>))"
        using read_code_sizes_ok [OF r] a
        by (intro conjI same_io_set_code_size arrays_ok_set_code_size) (simp_all add: same_io_def)
    qed
    have "arrays_ok (?sz n0 n1 n2 s)" if "arrays_ok s"
      using that n by (auto simp: arrays_ok_def)
    then have "inflator_ok s \<Longrightarrow> extends s (?sz n0 n1 n2 s) \<and> work_left (?sz n0 n1 n2 s) = work_left s"
      by (intro same_io_extends) (simp_all add: same_io_def inflator_ok_def)
    then show ?thesis
      using w [of "?sz n0 n1 n2 s"] extends_trans [of s "?sz n0 n1 n2 s"]
      by (auto simp: works_def extends_def split: prod.splits sum.splits)
  qed
  have d: "dynamic_sizes = bnd (get_bits 5) (\<lambda>n0. bnd (get_bits 5) (\<lambda>n1. bnd (get_bits 4) (\<lambda>n2 s.
      bnd (?read n2) ?fin (?sz n0 n1 n2 s))))"
    by (simp add: dynamic_sizes_def s_min_table_sizes_def MAX_HUFF_SYMBOLS_0_def Let_def)
  have "works False (5 + (5 + (4 + 0))) dynamic_sizes s"
    unfolding d
  proof (rule works_bnd [OF works_forget [OF works_bits(2)]], simp)
    fix n0 s1 assume 0: "get_bits 5 s = (Inr n0, s1)"
    show "works False (5 + (4 + 0)) (bnd (get_bits 5) (\<lambda>n1. bnd (get_bits 4) (\<lambda>n2 s.
        bnd (?read n2) ?fin (?sz n0 n1 n2 s)))) s1"
    proof (rule works_bnd [OF works_forget [OF works_bits(2)]], simp)
      fix n1 s2 assume 1: "get_bits 5 s1 = (Inr n1, s2)"
      show "works False (4 + 0) (bnd (get_bits 4) (\<lambda>n2 s. bnd (?read n2) ?fin (?sz n0 n1 n2 s))) s2"
        by (rule works_bnd [OF works_forget [OF works_bits(2)]], simp, rule tail)
          (use get_bits_less [OF 0] get_bits_less [OF 1] in \<open>auto dest: get_bits_less\<close>)
    qed
  qed
  then show ?thesis by (rule works_mono) simp
qed

text \<open>The bound of the symbols of table \<open>i\<close>.\<close>

definition max_syms :: "nat \<Rightarrow> nat" where
  "max_syms i = (if i = 0 then 288 else if i = 1 then 32 else 19)"

lemma shallow_mono: "shallow n tree k v \<Longrightarrow> n \<le> m \<Longrightarrow> shallow m tree k v"
  by (induction n tree k v rule: shallow.induct) (auto split: if_splits)

lemma table_ok_mono: "table_ok n t \<Longrightarrow> n \<le> m \<Longrightarrow> table_ok m t"
  by (fastforce simp: table_ok_def intro: shallow_mono split: if_splits)

lemma build_table_sizes:
  assumes "arrays_ok s" and "i < 3"
  shows "m_table_sizes s ! i \<le> max_syms i" and "max_syms i \<le> 288"
    and "sizes_ok (take (m_table_sizes s ! i) (m_code_size (m_tables s ! i)))"
    and "max 1 (length (take (m_table_sizes s ! i) (m_code_size (m_tables s ! i)))) \<le> max_syms i"
proof -
  consider "i = 0" | "i = 1" | "i = 2" using assms(2) by linarith
  then show n: "m_table_sizes s ! i \<le> max_syms i" and m: "max_syms i \<le> 288"
    by (cases; use assms(1) in \<open>simp add: arrays_ok_def max_syms_def\<close>)+
  show "sizes_ok (take (m_table_sizes s ! i) (m_code_size (m_tables s ! i)))"
    using table_code_sizes [OF assms] n m by (auto simp: sizes_ok_def dest: in_set_takeD)
  show "max 1 (length (take (m_table_sizes s ! i) (m_code_size (m_tables s ! i)))) \<le> max_syms i"
    using n by (simp add: max_syms_def split: if_splits)
qed

lemma build_table_cases:
  assumes a: "arrays_ok s" and i: "i < 3"
  shows "build_table i s = (Inl (Status STATUS_FAILED), s) \<or>
    (\<exists>t. build_table i s = (Inr (), s\<lparr>m_tables := (m_tables s)[i := t]\<rparr>) \<and> table_ok (max_syms i) t \<and>
      m_code_size t = m_code_size (m_tables s ! i))"
proof -
  let ?t = "m_tables s ! i"
  let ?sizes = "take (m_table_sizes s ! i) (m_code_size ?t)"
  note b = build_table_sizes [OF a i]
  have len: "\<not> length (m_code_size ?t) < m_table_sizes s ! i"
    using table_code_sizes(1) [OF a i] b(1,2) by simp
  consider (fail) "make_table ?sizes = Inl (Status STATUS_FAILED)"
    | (ok) look tree where "make_table ?sizes = Inr (look, tree)"
    using make_table_cases [OF b(3)] by (auto split: if_splits)
  then show ?thesis
  proof cases
    case fail
    then show ?thesis using len by (simp add: build_table_def Let_def)
  next
    case ok
    then show ?thesis
      using len table_ok_mono [OF make_table_ok [OF b(3) ok] b(4), of ?t]
      by (intro disjI2 exI [of _ "?t\<lparr>m_look_up := look, m_tree := tree\<rparr>"]) (simp add: build_table_def Let_def)
  qed
qed

lemma arrays_ok_set_table:
  assumes "arrays_ok s" and "i < 3" and "m_code_size t = m_code_size (m_tables s ! i)"
  shows "arrays_ok (s\<lparr>m_tables := (m_tables s)[i := t]\<rparr>)"
proof -
  have "length (m_code_size u) = 288 \<and> (\<forall>c \<in> set (m_code_size u). c < 16)" if "u \<in> set ((m_tables s)[i := t])" for u
    using that set_update_subset_insert [of "m_tables s" i t] table_code_sizes [OF assms(1,2)] assms(1,3)
    by (auto simp: arrays_ok_def)
  then show ?thesis using assms(1) by (simp add: arrays_ok_def)
qed

lemma works_build_table: "i < 3 \<Longrightarrow> works False 0 (build_table i) s"
  using build_table_cases [of s i] arrays_ok_set_table [of s i]
    same_io_extends [of s "s\<lparr>m_tables := (m_tables s)[i := t]\<rparr>" for t]
  by (auto simp: works_def extends_refl same_io_def inflator_ok_def)

lemma build_table_result:
  assumes "build_table i s = (Inr x, s')" and "inflator_ok s" and "i < 3"
  shows "table_ok (max_syms i) (m_tables s' ! i)" and "j \<noteq> i \<Longrightarrow> m_tables s' ! j = m_tables s ! j"
proof -
  obtain t where "s' = s\<lparr>m_tables := (m_tables s)[i := t]\<rparr>" "table_ok (max_syms i) t" "length (m_tables s) = 3"
    using build_table_cases [of s i] assms by (auto simp: inflator_ok_def arrays_ok_def)
  then show "table_ok (max_syms i) (m_tables s' ! i)" "j \<noteq> i \<Longrightarrow> m_tables s' ! j = m_tables s ! j"
    using assms(3) by simp_all
qed

text \<open>The loop over the code lengths, as a sequence of actions.\<close>

definition len_code_step :: "huff_table \<Rightarrow> nat \<Rightarrow> nat \<Rightarrow> nat list \<Rightarrow> nat \<Rightarrow> (nat \<times> nat list) inflate" where
  "len_code_step t tot counter lens dist =
     (if dist < 16 then
        if length lens \<le> counter then halt Out_Of_Bounds
        else read_len_codes t tot (counter + 1) (lens[counter := dist])
      else if dist = 16 \<and> counter = 0 then halt (Status STATUS_FAILED)
      else if 18 < dist then halt Out_Of_Bounds
      else bnd (get_bits (repeat_extra dist)) (\<lambda>x.
             if length lens < counter + (x + repeat_base dist) then halt Out_Of_Bounds
             else read_len_codes t tot (counter + (x + repeat_base dist))
               (take counter lens @ replicate (x + repeat_base dist) (if dist = 16 then lens ! (counter - 1) else 0) @
                drop (counter + (x + repeat_base dist)) lens)))"

lemma read_len_codes_step:
  "counter < tot \<Longrightarrow> read_len_codes t tot counter lens s = bnd (huff_decode t) (len_code_step t tot counter lens) s"
  by (subst read_len_codes.simps) (simp add: bnd_def halt_def len_code_step_def Let_def split: prod.splits sum.splits)

lemma len_repeat:
  assumes "get_bits (repeat_extra dist) s = (Inr x, s')" and "counter < tot" and "tot \<le> 320" and "16 \<le> dist" and "dist < 19"
  shows "0 < x + repeat_base dist" and "counter + (x + repeat_base dist) \<le> 457"
proof -
  consider "dist = 16" | "dist = 17" | "dist = 18" using assms(4,5) by linarith
  then have "0 < x + repeat_base dist \<and> counter + (x + repeat_base dist) \<le> 457"
    using get_bits_less [OF assms(1)] assms(2,3) by cases (simp_all add: repeat_extra_def repeat_base_def)
  then show "0 < x + repeat_base dist" "counter + (x + repeat_base dist) \<le> 457" by simp_all
qed

lemma lens_repeat:
  fixes lens :: "nat list" and dist :: nat
  assumes "length lens = 457" and "\<forall>c \<in> set lens. c < 16" and "counter + n \<le> 457" and "dist = 16 \<longrightarrow> 0 < counter" and "0 < n"
  shows "length (take counter lens @ replicate n (if dist = 16 then lens ! (counter - 1) else 0) @ drop (counter + n) lens) = 457"
    and "\<forall>c \<in> set (take counter lens @ replicate n (if dist = 16 then lens ! (counter - 1) else 0) @ drop (counter + n) lens). c < 16"
proof -
  have "counter - 1 < length lens" using assms by simp
  then have "lens ! (counter - 1) < 16" using assms(2) nth_mem by blast
  then show "\<forall>c \<in> set (take counter lens @ replicate n (if dist = 16 then lens ! (counter - 1) else 0) @ drop (counter + n) lens). c < 16"
    using assms(2) by (auto dest: in_set_takeD in_set_dropD)
qed (use assms in simp)

text \<open>The loop works, and leaves an array of the same length with code lengths below 16.\<close>

definition lens_ok :: "nat list \<Rightarrow> bool" where
  "lens_ok lens \<longleftrightarrow> length lens = 457 \<and> (\<forall>c \<in> set lens. c < 16)"

definition reads_lens :: "(nat \<times> nat list) inflate \<Rightarrow> inflator \<Rightarrow> bool" where
  "reads_lens m s \<longleftrightarrow> works True 0 m s \<and> (\<forall>x s'. m s = (Inr x, s') \<longrightarrow> lens_ok (snd x))"

lemma reads_lens_stop [simp]: "stop_ok e \<Longrightarrow> reads_lens (halt e) s"
  by (simp add: reads_lens_def halt_def works_def extends_refl)

lemma reads_lens_bnd:
  assumes "works True j m s" and "\<And>x s1. m s = (Inr x, s1) \<Longrightarrow> reads_lens (f x) s1"
  shows "reads_lens (bnd m f) s"
proof -
  have "works True (j + 0) (bnd m f) s"
    by (rule works_bnd [OF assms(1)]) (use assms(2) in \<open>simp add: reads_lens_def\<close>)
  then show ?thesis
    using assms(2) works_mono [of True "j + 0" "bnd m f" s 0] by (auto simp: reads_lens_def bnd_Inr)
qed

lemma reads_lens_repeat:
  assumes IH: "\<And>counter' lens' s. tot - counter' < tot - counter \<Longrightarrow> lens_ok lens' \<Longrightarrow> reads_lens (read_len_codes t tot counter' lens') s"
    and "lens_ok lens" and "counter < tot" and "tot \<le> 320" and "16 \<le> dist" and "dist < 19" and "dist = 16 \<longrightarrow> 0 < counter"
  shows "reads_lens (len_code_step t tot counter lens dist) s"
proof -
  let ?rest = "\<lambda>x. read_len_codes t tot (counter + (x + repeat_base dist)) (take counter lens @
    replicate (x + repeat_base dist) (if dist = 16 then lens ! (counter - 1) else 0) @ drop (counter + (x + repeat_base dist)) lens)"
  have e: "len_code_step t tot counter lens dist = bnd (get_bits (repeat_extra dist)) (\<lambda>x.
      if length lens < counter + (x + repeat_base dist) then halt Out_Of_Bounds else ?rest x)"
    using assms(5-7) by (auto simp: len_code_step_def)
  show ?thesis
    unfolding e
  proof (rule reads_lens_bnd [OF works_bits(2)])
    show "repeat_extra dist \<le> 16" by (simp add: repeat_extra_def)
    fix x s1 assume g: "get_bits (repeat_extra dist) s = (Inr x, s1)"
    note r = len_repeat [OF g assms(3-6)]
    have fits: "\<not> length lens < counter + (x + repeat_base dist)" using r(2) assms(2) by (simp add: lens_ok_def)
    have "reads_lens (?rest x) s1"
    proof (rule IH)
      show "tot - (counter + (x + repeat_base dist)) < tot - counter" using r(1) assms(3) by linarith
      show "lens_ok (take counter lens @ replicate (x + repeat_base dist) (if dist = 16 then lens ! (counter - 1) else 0) @
          drop (counter + (x + repeat_base dist)) lens)"
        using lens_repeat [OF _ _ r(2) assms(7) r(1), of lens] assms(2) unfolding lens_ok_def by blast
    qed
    then show "reads_lens (if length lens < counter + (x + repeat_base dist) then halt Out_Of_Bounds else ?rest x) s1"
      using fits by (simp only: if_False)
  qed
qed

lemma reads_lens_read_len_codes:
  assumes "table_ok 19 t" and "tot \<le> 320" and "lens_ok lens"
  shows "reads_lens (read_len_codes t tot counter lens) s"
  using assms(3)
proof (induction "tot - counter" arbitrary: counter lens s rule: less_induct)
  case (less counter lens s)
  show ?case
  proof (cases "counter < tot")
    case True
    have "reads_lens (len_code_step t tot counter lens sy) s1" if "sy < 19" for sy s1
    proof -
      consider "sy < 16" | "sy = 16 \<and> counter = 0" | "16 \<le> sy" "sy = 16 \<longrightarrow> 0 < counter" by linarith
      then show ?thesis
      proof cases
        case 1
        have "lens_ok (lens[counter := sy])"
          using less.prems 1 set_update_subset_insert [of lens counter sy] by (auto simp: lens_ok_def)
        then show ?thesis
          using less.hyps [of "counter + 1" "lens[counter := sy]" s1] 1 True less.prems assms(2)
          by (simp add: len_code_step_def lens_ok_def reads_lens_def)
      next
        case 3
        show ?thesis by (rule reads_lens_repeat [OF less.hyps less.prems True assms(2) 3(1) that 3(2)])
      qed (simp add: len_code_step_def)
    qed
    then have "reads_lens (bnd (huff_decode t) (len_code_step t tot counter lens)) s"
      using huff_decode_less [OF assms(1)] by (intro reads_lens_bnd [OF works_huff_decode(1) [OF assms(1)]]) simp
    then show ?thesis
      by (simp add: reads_lens_def works_def read_len_codes_step [OF True])
  next
    case False
    then show ?thesis
      using less.prems by (simp add: reads_lens_def works_def read_len_codes.simps [of t tot counter] extends_refl)
  qed
qed

text \<open>The code lengths become the sizes of the other two tables.\<close>

lemma works_set_len_codes:
  assumes t: "table_ok 19 (m_tables s ! 2)"
  shows "works False 0 set_len_codes s"
proof (cases "inflator_ok s")
  case ok: True
  let ?n0 = "m_table_sizes s ! 0" and ?n1 = "m_table_sizes s ! 1"
  have n: "?n0 \<le> 288" "?n1 \<le> 32" "lens_ok (m_len_codes s)"
    using ok by (simp_all add: inflator_ok_def arrays_ok_def lens_ok_def)
  have r: "reads_lens (read_len_codes (m_tables s ! 2) (?n0 + ?n1) 0 (m_len_codes s)) s"
    by (rule reads_lens_read_len_codes [OF t]) (use n in simp_all)
  let ?fin = "\<lambda>(counter, codes) s. let s = s\<lparr>m_len_codes := codes\<rparr> in
      if ?n0 + ?n1 \<noteq> counter then (Inl (Status STATUS_FAILED), s)
      else if length codes < ?n0 + ?n1 \<or> length (m_code_size (m_tables s ! 0)) < ?n0 \<or>
              length (m_code_size (m_tables s ! 1)) < ?n1 then (Inl Out_Of_Bounds, s)
      else (Inr (), set_code_size 1 (take ?n1 (drop ?n0 codes) @ drop ?n1 (m_code_size (m_tables s ! 1)))
                      (set_code_size 0 (take ?n0 codes @ drop ?n0 (m_code_size (m_tables s ! 0))) s))"
  have "works False (0 + 0) (bnd (read_len_codes (m_tables s ! 2) (?n0 + ?n1) 0 (m_len_codes s)) ?fin) s"
  proof (rule works_bnd)
    show "works False 0 (read_len_codes (m_tables s ! 2) (?n0 + ?n1) 0 (m_len_codes s)) s"
      using r by (simp add: reads_lens_def works_forget)
    fix x s1 assume x: "read_len_codes (m_tables s ! 2) (?n0 + ?n1) 0 (m_len_codes s) s = (Inr x, s1)" and ok1: "inflator_ok s1"
    obtain counter codes where c: "x = (counter, codes)" by fastforce
    have l: "lens_ok codes" using r x c by (fastforce simp: reads_lens_def)
    let ?s = "s1\<lparr>m_len_codes := codes\<rparr>"
    have a: "arrays_ok ?s" using ok1 l by (simp add: inflator_ok_def arrays_ok_def lens_ok_def)
    have io: "same_io s1 ?s" by (simp add: same_io_def)
    note sz = table_code_sizes [OF a, of 0] table_code_sizes [OF a, of 1]
    let ?u = "set_code_size 0 (take ?n0 codes @ drop ?n0 (m_code_size (m_tables ?s ! 0))) ?s"
    have a0: "arrays_ok ?u"
      by (rule arrays_ok_set_code_size [OF a]) (use sz n l in \<open>auto simp: lens_ok_def dest: in_set_takeD in_set_dropD\<close>)
    have "arrays_ok (set_code_size 1 (take ?n1 (drop ?n0 codes) @ drop ?n1 (m_code_size (m_tables ?s ! 1))) ?u)"
      by (rule arrays_ok_set_code_size [OF a0])
        (use sz n l in \<open>auto simp: lens_ok_def dest!: in_set_takeD in_set_dropD\<close>)
    moreover have "same_io s1 (set_code_size 1 (take ?n1 (drop ?n0 codes) @ drop ?n1 (m_code_size (m_tables ?s ! 1))) ?u)"
      by (intro same_io_set_code_size io)
    ultimately show "works False 0 (?fin x) s1"
      using same_io_extends [OF io a ok1] same_io_extends [of s1] ok1 sz n l c
      by (simp add: works_def Let_def lens_ok_def)
  qed
  then have "works False (0 + 0) set_len_codes s"
    by (rule works_eq) (simp only: set_len_codes_def Let_def)
  then show ?thesis by simp
qed (simp add: works_def)

definition tables_ready :: "inflator \<Rightarrow> bool" where
  "tables_ready s \<longleftrightarrow> table_ok 288 (m_tables s ! 0) \<and> table_ok 32 (m_tables s ! 1)"

lemma works_build_tables:
  shows "works False 0 (build_tables m_type) s"
    and "inflator_ok s \<Longrightarrow> build_tables m_type s = (Inr x, s') \<Longrightarrow> tables_ready s'"
proof -
  let ?first = "if m_type = 2 then bnd (build_table 2) (\<lambda>_. set_len_codes) else give ()"
  have two: "works False (0 + 0) (bnd (build_table 2) (\<lambda>_. set_len_codes)) s"
  proof (rule works_bnd [OF works_build_table], simp)
    fix x s1 assume "build_table 2 s = (Inr x, s1)" "inflator_ok s"
    from build_table_result(1) [OF this] show "works False 0 set_len_codes s1"
      by (intro works_set_len_codes) (simp add: max_syms_def)
  qed
  then have first: "works False 0 ?first s" by (auto simp: works_give)
  have "works False (0 + (0 + 0)) (build_tables m_type) s"
    unfolding build_tables_def by (intro works_bnd first works_build_table) simp_all
  then show "works False 0 (build_tables m_type) s" by simp
  assume ok: "inflator_ok s" and b: "build_tables m_type s = (Inr x, s')"
  then obtain s1 s2 where 1: "?first s = (Inr (), s1)" and 2: "build_table 1 s1 = (Inr (), s2)" and 3: "build_table 0 s2 = (Inr x, s')"
    unfolding build_tables_def bnd_Inr [of ?first] bnd_Inr [of "build_table 1"] by auto
  have ok1: "inflator_ok s1" using works_ok [OF first 1 ok] by simp
  have ok2: "inflator_ok s2" using works_ok [OF works_build_table 2 ok1] by simp
  show "tables_ready s'"
    using build_table_result(1) [OF 2 ok1] build_table_result [OF 3 ok2]
    by (simp add: tables_ready_def max_syms_def)
qed

section \<open>Blocks\<close>

lemma works_static_sizes: "works False 0 (\<lambda>s. (Inr (), static_sizes s)) s"
  by (rule works_arrays) (simp add: static_sizes_ok inflator_ok_def)

lemma works_inflate_block:
  assumes "work_left s < fuel"
  shows "works False 0 (inflate_block fuel m_type) s"
proof -
  let ?sizes = "if m_type = 1 then (\<lambda>s. (Inr (), static_sizes s)) else dynamic_sizes"
  have sizes: "works False 0 ?sizes s" by (simp add: works_static_sizes works_dynamic_sizes)
  have "works False (0 + (0 + 0)) (bnd ?sizes (\<lambda>_. bnd (build_tables m_type) (\<lambda>_. inflate_symbols fuel))) s"
  proof (rule works_bnd [OF sizes], rule works_bnd [OF works_build_tables(1)])
    fix x s1 y s2
    assume 1: "?sizes s = (Inr x, s1)" "inflator_ok s" and 2: "build_tables m_type s1 = (Inr y, s2)" "inflator_ok s1"
    have "work_left s2 < fuel"
      using works_ok [OF sizes 1] works_ok [OF works_build_tables(1) 2] assms by simp
    then show "works False 0 (inflate_symbols fuel) s2"
      using works_build_tables(2) [OF 2(2,1)]
      by (intro works_forget [OF works_inflate_symbols]) (simp_all add: tables_ready_def)
  qed
  then show ?thesis
    using works_forget [OF works_stored_block, of False s] by (simp add: inflate_block_def)
qed

lemma works_inflate_blocks: "work_left s < fuel \<Longrightarrow> works False 0 (inflate_blocks fuel) s"
proof (induction fuel arbitrary: s)
  case (Suc fuel s)
  let ?rest = "\<lambda>m_final :: nat. bnd (inflate_block (Suc fuel) (drop_bit 1 m_final)) (\<lambda>_.
      if m_final AND 1 \<noteq> 0 then give () else inflate_blocks fuel)"
  have "works False (3 + (0 + 0)) (bnd (get_bits 3) ?rest) s"
  proof (rule works_bnd [OF works_forget [OF works_bits(2)]], simp, rule works_bnd [OF works_inflate_block])
    fix m_final s1 assume g: "get_bits 3 s = (Inr m_final, s1)" "inflator_ok s"
    have w: "work_left s1 < fuel" using works_ok [OF works_bits(2) g] Suc.prems by simp
    then show "work_left s1 < Suc fuel" by simp
    fix x s2 assume b: "inflate_block (Suc fuel) (drop_bit 1 m_final) s1 = (Inr x, s2)" "inflator_ok s1"
    have "work_left s2 < fuel" using works_ok [OF works_inflate_block b] w by simp
    then show "works False 0 (if m_final AND 1 \<noteq> 0 then give () else inflate_blocks fuel) s2"
      using Suc.IH by simp
  qed
  then have "works False (3 + (0 + 0)) (inflate_blocks (Suc fuel)) s" by (rule works_eq) simp
  then show ?case by (rule works_mono) simp
qed simp

section \<open>The end of the stream\<close>

lemma extends_bit_buf [simp]:
  "extends s (u\<lparr>bit_buf := w\<rparr>) = extends s u" "work_left (u\<lparr>bit_buf := w\<rparr>) = work_left u"
  by (simp_all add: extends_def inflator_ok_def work_left_def)

text \<open>All whole bytes of the bit buffer can be put back: they came from the input.\<close>

lemma put_back_ok:
  assumes "inflator_ok s"
  shows "extends s (put_back s) \<and> work_left (put_back s) = work_left s \<and> unat (num_bits (put_back s)) = unat (num_bits s) mod 8 \<and>
    m_z_adler32 (put_back s) = m_z_adler32 s \<and> out_buf (put_back s) = out_buf s \<and> out_cur (put_back s) = out_cur s"
  using assms
proof (induction s rule: put_back.induct)
  case (1 s)
  let ?s = "s\<lparr>in_cur := in_cur s - 1, num_bits := num_bits s - 8\<rparr>"
  have le: "8 \<le> num_bits s \<longleftrightarrow> 8 \<le> unat (num_bits s)" by (simp add: word_le_nat_alt)
  show ?case
  proof (cases "0 < in_cur s \<and> 8 \<le> num_bits s")
    case True
    then have n: "unat (num_bits s - 8) = unat (num_bits s) - 8" using unat_num_sub [of 8 "num_bits s"] le by simp
    have ok: "inflator_ok ?s" and e: "extends s ?s" and w: "work_left ?s = work_left s"
      using 1(2) True le n by (auto simp: inflator_ok_def extends_def work_left_def)
    have "put_back s = put_back ?s" using True by (subst put_back.simps) simp
    moreover have "unat (num_bits ?s) mod 8 = unat (num_bits s) mod 8"
      using n True le by (simp add: le_mod_geq)
    ultimately show ?thesis using 1(1) [OF True ok] extends_trans [OF e] w by simp
  next
    case False
    have "unat (num_bits s) < 8" using False 1(2) le by (auto simp: inflator_ok_def)
    moreover have "put_back s = s" using False by (subst put_back.simps) auto
    ultimately show ?thesis using 1(2) by (simp add: extends_refl)
  qed
qed

lemma and_7: "unat (n AND 7) = unat n mod 8" for n :: u32
proof -
  have "n AND 7 = take_bit 3 n" by (simp add: take_bit_eq_mask mask_eq_exp_minus_1)
  then have "unat (n AND 7) = take_bit 3 (unat n)" by (simp only: unsigned_take_bit_eq)
  then show ?thesis by (simp add: take_bit_eq_mod)
qed

lemma align_result:
  assumes "skip_bits (unat (num_bits s AND 7)) s = (Inr x, s')" and "inflator_ok s"
  shows "unat (num_bits s') mod 8 = 0"
proof -
  let ?n = "unat (num_bits s AND 7)"
  have le: "?n \<le> unat (num_bits s)" and n64: "?n < 64" by (simp_all add: and_7 less_trans [OF mod_less_divisor])
  from le have "\<not> num_bits s < of_nat ?n" by (simp add: word_less_nat_alt)
  then have "s' = drop_bits ?n s" using assms(1) by (simp add: skip_bits_eq [OF n64] bnd_def have_bits_def)
  then have "unat (num_bits s') = unat (num_bits s) - unat (num_bits s) mod 8"
    using drop_bits_extends(5) [OF assms(2) le] by (simp add: and_7)
  then show ?thesis by (simp add: minus_mod_eq_mult_div)
qed

lemma works_adler_byte: "works True 8 adler_byte s"
proof -
  have "works True 0 (\<lambda>s. (Inr (), s\<lparr>m_z_adler32 := push_bit 8 (m_z_adler32 s) OR of_nat b\<rparr>)) s" for b s
    by (auto simp: works_def extends_def inflator_ok_def work_left_def)
  then have "works True (8 + 0) adler_byte s"
    unfolding adler_byte_def by (intro works_bnd works_raw_byte)
  then show ?thesis by simp
qed

lemma works_trailer: "works True 0 trailer s"
proof -
  let ?bytes = "bnd adler_byte (\<lambda>_. bnd adler_byte (\<lambda>_. bnd adler_byte (\<lambda>_. adler_byte)))"
  let ?rest = "\<lambda>s. let s = put_back s in if 64 \<le> unat (num_bits s) then (Inl Bad_Shift, s)
      else let s = s\<lparr>bit_buf := bit_buf s AND mask (unat (num_bits s))\<rparr> in
      if num_bits s \<noteq> 0 then (Inl Assertion, s) else if flag FLAG_PARSE_ZLIB_HEADER s then ?bytes s else (Inr (), s)"
  have "works True (8 + (8 + (8 + 8))) ?bytes s" for s by (intro works_bnd works_adler_byte)
  then have bytes: "works True 0 ?bytes s" for s by (rule works_mono) simp
  have rest: "works True 0 ?rest s" if m: "unat (num_bits s) mod 8 = 0" for s
  proof (cases "inflator_ok s")
    case True
    let ?u = "put_back s" 
    let ?v = "?u\<lparr>bit_buf := bit_buf ?u AND mask (unat (num_bits ?u))\<rparr>"
    note p = put_back_ok [OF True]
    have z: "num_bits ?v = 0" using p m by (simp flip: unat_eq_0)
    have t: "m_tables ?u = m_tables s" "m_table_sizes ?u = m_table_sizes s"
      by (induction s rule: put_back.induct) (subst put_back.simps, simp)+
    have e: "extends s ?v" "work_left ?v = work_left s" using p by simp_all
    have "works True 0 (if flag FLAG_PARSE_ZLIB_HEADER ?v then ?bytes else give ()) ?v" using bytes by simp
    then have "works True (0 + 0) ?rest s"
      by (intro works_after [where s' = ?v]) (use e t z in \<open>simp_all add: Let_def give_def\<close>)
    then show ?thesis by simp
  qed (simp add: works_def)
  have "works True (0 + 0) trailer s"
    unfolding trailer_def by (rule works_bnd [OF works_align]) (rule rest, rule align_result)
  then show ?thesis by simp
qed

text \<open>The body but for its last status.\<close>

definition tinfl_core :: "nat \<Rightarrow> unit inflate" where
  "tinfl_core fuel = bnd zlib_header (\<lambda>_. bnd (inflate_blocks fuel) (\<lambda>_. trailer))"

lemma tinfl_body_core:
  "tinfl_body fuel s = (case tinfl_core fuel s of (Inl e, s') \<Rightarrow> (Inl e, s') | (Inr _, s') \<Rightarrow> (Inl (Status STATUS_DONE), s'))"
  by (simp add: tinfl_body_def tinfl_core_def bnd_def halt_def split: prod.splits sum.splits)

lemma works_core: "work_left s < fuel \<Longrightarrow> works False 0 (tinfl_core fuel) s"
proof -
  assume f: "work_left s < fuel"
  have "works False (0 + (0 + 0)) (tinfl_core fuel) s"
    unfolding tinfl_core_def
  proof (rule works_bnd [OF works_forget [OF works_zlib_header]])
    fix x s1 assume z: "zlib_header s = (Inr x, s1)" "inflator_ok s"
    have "work_left s1 < fuel" using works_ok [OF works_zlib_header z] f by simp
    then show "works False (0 + 0) (bnd (inflate_blocks fuel) (\<lambda>_. trailer)) s1"
      by (intro works_bnd works_inflate_blocks works_forget [OF works_trailer])
  qed
  then show ?thesis by simp
qed

section \<open>The decompressor\<close>

lemma tinfl_start_ok: "inflator_ok (tinfl_start inp out flags)" "work_left (tinfl_start inp out flags) < tinfl_fuel inp out"
proof -
  have "set [table_zero, table_zero, table_zero] = {table_zero}" by simp
  then show "inflator_ok (tinfl_start inp out flags)"
    by (simp add: inflator_ok_def arrays_ok_def tinfl_start_def table_zero_def MAX_HUFF_SYMBOLS_0_def numeral_3_eq_3)
  show "work_left (tinfl_start inp out flags) < tinfl_fuel inp out"
    by (simp add: work_left_def tinfl_start_def tinfl_fuel_def)
qed

lemma tinfl_core_result:
  obtains (halted) st s where "tinfl_core (tinfl_fuel inp out) (tinfl_start inp out flags) = (Inl (Status st), s)"
      and "st \<noteq> STATUS_DONE" and "extends (tinfl_start inp out flags) s"
    | (finished) s where "tinfl_core (tinfl_fuel inp out) (tinfl_start inp out flags) = (Inr (), s)"
      and "extends (tinfl_start inp out flags) s"
proof -
  let ?s = "tinfl_start inp out flags" and ?m = "tinfl_core (tinfl_fuel inp out)"
  have w: "works False 0 ?m ?s" by (rule works_core [OF tinfl_start_ok(2)])
  obtain r s where m: "?m ?s = (r, s)" by fastforce
  show ?thesis
  proof (cases r)
    case (Inl e)
    then have "stop_ok e" "extends ?s s" using w m tinfl_start_ok(1) by (simp_all add: works_def)
    then show ?thesis using halted m Inl by (cases e) simp_all
  next
    case (Inr x)
    then have "extends ?s s" using w m tinfl_start_ok(1) by (simp add: works_def)
    then show ?thesis using finished m Inr by simp
  qed
qed

lemma tinfl_body_stops:
  obtains st s where "tinfl_body (tinfl_fuel inp out) (tinfl_start inp out flags) = (Inl (Status st), s)"
    and "extends (tinfl_start inp out flags) s"
  by (rule tinfl_core_result [of inp out flags]) (simp_all add: tinfl_body_core)

lemma common_exit_io:
  assumes "exit_state st s = (st', s')" and "inflator_ok s"
  shows "in_buf s' = in_buf s" and "out_buf s' = out_buf s" and "out_cur s' = out_cur s" and "in_cur s' \<le> length (in_buf s')"
    and "decomp_flags s' = decomp_flags s" and "m_z_adler32 s' = m_z_adler32 s"
    and "st' = st \<or> st = STATUS_DONE \<and> st' = STATUS_ADLER32_MISMATCH"
proof -
  have p: "in_cur (put_back s) \<le> length (in_buf s)" "in_buf (put_back s) = in_buf s" "decomp_flags (put_back s) = decomp_flags s"
    using put_back_ok [OF assms(2)] by (auto simp: extends_def inflator_ok_def)
  show "in_buf s' = in_buf s" "out_buf s' = out_buf s" "out_cur s' = out_cur s" "in_cur s' \<le> length (in_buf s')"
    "decomp_flags s' = decomp_flags s" "m_z_adler32 s' = m_z_adler32 s"
    "st' = st \<or> st = STATUS_DONE \<and> st' = STATUS_ADLER32_MISMATCH"
    using assms p put_back_ok [OF assms(2)]
    by (auto simp: exit_state_def Let_def inflator_ok_def split: if_splits prod.splits)
qed

lemma common_exit_ok: "inflator_ok s \<Longrightarrow> common_exit st s = Inr (exit_state st s)"
  using put_back_ok [of s] by (intro common_exit_eq) (auto simp: extends_def inflator_ok_def)

text \<open>The decompressor with its checks gone: its body ends with a status in a good state.\<close>

lemma tinfl_decompress_eq:
  "tinfl_decompress inp out flags =
     (let s = tinfl_start inp out flags; n = length out in
      if \<not> flag FLAG_NON_WRAPPING s \<and> of_nat n AND (of_nat n - 1 :: u64) \<noteq> 0 then Inr (STATUS_BAD_PARAM, s)
      else case fst (tinfl_body (tinfl_fuel inp out) s) of
             Inl (Status st) \<Rightarrow> Inr (exit_state st (snd (tinfl_body (tinfl_fuel inp out) s)))
           | Inl e \<Rightarrow> Inl e
           | Inr _ \<Rightarrow> Inl No_Fuel)"
proof -
  obtain st s where b: "tinfl_body (tinfl_fuel inp out) (tinfl_start inp out flags) = (Inl (Status st), s)"
    and "extends (tinfl_start inp out flags) s" by (rule tinfl_body_stops)
  then have "inflator_ok s" by (simp add: extends_def)
  from common_exit_ok [OF this] b show ?thesis by (simp add: tinfl_decompress_def Let_def)
qed

lemma tinfl_returns:
  "\<exists>st s. tinfl_decompress inp out flags = Inr (st, s) \<and> in_buf s = inp \<and> in_cur s \<le> length inp \<and>
    length (out_buf s) = length out \<and> out_cur s \<le> length out"
proof -
  let ?s = "tinfl_start inp out flags"
  show ?thesis
  proof (cases "\<not> flag FLAG_NON_WRAPPING ?s \<and> of_nat (length out) AND (of_nat (length out) - 1 :: u64) \<noteq> 0")
    case True
    then show ?thesis by (simp add: tinfl_decompress_eq tinfl_start_def)
  next
    case False
    obtain st s where b: "tinfl_body (tinfl_fuel inp out) ?s = (Inl (Status st), s)" and e: "extends ?s s"
      by (rule tinfl_body_stops)
    obtain st' s' where c: "exit_state st s = (st', s')" by fastforce
    have ok: "inflator_ok s" using e by (simp add: extends_def)
    have "tinfl_decompress inp out flags = Inr (st', s')"
      using False b c by (auto simp: tinfl_decompress_eq Let_def)
    moreover have "in_buf s = inp" "length (out_buf s) = length out" "out_cur s \<le> length (out_buf s)"
      using e ok by (simp_all add: extends_def inflator_ok_def tinfl_start_def)
    ultimately show ?thesis using common_exit_io [OF c ok] by auto
  qed
qed


section \<open>The checksum of a finished stream\<close>

definition be32 :: "byte list \<Rightarrow> u32" where
  "be32 bs = fold (\<lambda>b a. push_bit 8 a OR ucast b) bs 0"

lemma adler_byte_ready:
  assumes "num_bits s = 0" and "adler_byte s = (Inr x, s')"
  shows "in_cur s < length (in_buf s)" and "s' = s\<lparr>in_cur := in_cur s + 1,
    m_z_adler32 := push_bit 8 (m_z_adler32 s) OR ucast (in_buf s ! in_cur s)\<rparr>"
  using assms by (auto simp: adler_byte_def raw_byte_def bnd_def get_byte_def give_def split: if_splits)

lemma take_4: "i + 4 \<le> length xs \<Longrightarrow> take 4 (drop i xs) = [xs ! i, xs ! (i + 1), xs ! (i + 2), xs ! (i + 3)]"
  by (rule nth_equalityI) (auto simp: less_Suc_eq numeral_eq_Suc)

lemma be32_bytes:
  "push_bit 8 (push_bit 8 (push_bit 8 (push_bit 8 w OR ucast a) OR ucast b) OR ucast c) OR ucast d = be32 [a, b, c, d]"
proof -
  have "push_bit 32 w = (0 :: u32)" by (rule bit_word_eqI) (simp add: bit_simps)
  then show ?thesis
    by (simp add: be32_def push_bit_or push_bit_push_bit)
qed

lemma four_adler_bytes:
  assumes "num_bits s = 0" and "in_cur s \<le> length (in_buf s)"
    and "bnd adler_byte (\<lambda>_. bnd adler_byte (\<lambda>_. bnd adler_byte (\<lambda>_. adler_byte))) s = (Inr x, s')"
  shows "num_bits s' = 0 \<and> in_buf s' = in_buf s \<and> in_cur s' = in_cur s + 4 \<and> in_cur s + 4 \<le> length (in_buf s) \<and>
    m_z_adler32 s' = be32 (take 4 (drop (in_cur s) (in_buf s)))"
proof -
  obtain s1 s2 s3 where b: "adler_byte s = (Inr (), s1)" "adler_byte s1 = (Inr (), s2)" "adler_byte s2 = (Inr (), s3)"
    "adler_byte s3 = (Inr x, s')"
    using assms(3) by (auto simp: bnd_Inr)
  note 1 = adler_byte_ready [OF assms(1) b(1)]
  have n1: "num_bits s1 = 0" using 1 assms(1) by simp
  note 2 = adler_byte_ready [OF n1 b(2)]
  have n2: "num_bits s2 = 0" using 2 n1 by simp
  note 3 = adler_byte_ready [OF n2 b(3)]
  have n3: "num_bits s3 = 0" using 3 n2 by simp
  note 4 = adler_byte_ready [OF n3 b(4)]
  have le: "in_cur s + 4 \<le> length (in_buf s)" using 1 2 3 4 by simp
  show ?thesis
    unfolding take_4 [OF le]
    using 1 2 3 4 n3 le be32_bytes [of "m_z_adler32 s"] by (simp add: numeral_eq_Suc)
qed

text \<open>A finished body has read the four bytes after the last block, and nothing is left in the bit buffer.\<close>

lemma trailer_done:
  assumes "trailer s = (Inr x, s')" and ok: "inflator_ok s" and "flag FLAG_PARSE_ZLIB_HEADER s"
  shows "num_bits s' = 0 \<and> 4 \<le> in_cur s' \<and> in_cur s' \<le> length (in_buf s') \<and>
    m_z_adler32 s' = be32 (take 4 (drop (in_cur s' - 4) (in_buf s')))"
proof -
  obtain s1 where a: "skip_bits (unat (num_bits s AND 7)) s = (Inr (), s1)"
    and r: "(let s = put_back s1 in if 64 \<le> unat (num_bits s) then (Inl Bad_Shift, s)
        else let s = s\<lparr>bit_buf := bit_buf s AND mask (unat (num_bits s))\<rparr> in
        if num_bits s \<noteq> 0 then (Inl Assertion, s)
        else if flag FLAG_PARSE_ZLIB_HEADER s then bnd adler_byte (\<lambda>_. bnd adler_byte (\<lambda>_. bnd adler_byte (\<lambda>_. adler_byte))) s
        else (Inr (), s)) = (Inr x, s')"
    using assms(1) by (auto simp: trailer_def bnd_Inr)
  let ?u = "put_back s1"
  let ?v = "?u\<lparr>bit_buf := bit_buf ?u AND mask (unat (num_bits ?u))\<rparr>"
  have ok1: "inflator_ok s1" and e1: "extends s s1" using works_ok [OF works_align a ok] by simp_all
  note p = put_back_ok [OF ok1]
  have f: "flag FLAG_PARSE_ZLIB_HEADER ?v" using p e1 assms(3) by (simp add: extends_def)
  have b: "num_bits ?v = 0" "bnd adler_byte (\<lambda>_. bnd adler_byte (\<lambda>_. bnd adler_byte (\<lambda>_. adler_byte))) ?v = (Inr x, s')"
    using r f by (auto simp: Let_def split: if_splits)
  have "in_cur ?v \<le> length (in_buf ?v)" using p by (auto simp: extends_def inflator_ok_def)
  from four_adler_bytes [OF b(1) this b(2)] show ?thesis by auto
qed

lemma tinfl_core_done:
  assumes "tinfl_core fuel s = (Inr x, s')" and ok: "inflator_ok s" and "work_left s < fuel" and f: "flag FLAG_PARSE_ZLIB_HEADER s"
  shows "num_bits s' = 0 \<and> 4 \<le> in_cur s' \<and> in_cur s' \<le> length (in_buf s') \<and>
    m_z_adler32 s' = be32 (take 4 (drop (in_cur s' - 4) (in_buf s')))"
proof -
  obtain s1 s2 where z: "zlib_header s = (Inr (), s1)" and b: "inflate_blocks fuel s1 = (Inr (), s2)" and t: "trailer s2 = (Inr x, s')"
    using assms(1) by (auto simp: tinfl_core_def bnd_Inr)
  have 1: "inflator_ok s1" "extends s s1" "work_left s1 < fuel"
    using works_ok [OF works_zlib_header z ok] assms(3) by simp_all
  have 2: "inflator_ok s2" "extends s1 s2"
    using works_ok [OF works_inflate_blocks [OF 1(3)] b 1(1)] by simp_all
  have "flag FLAG_PARSE_ZLIB_HEADER s2" using f 1(2) 2(2) by (simp add: extends_def)
  from trailer_done [OF t 2(1) this] show ?thesis .
qed

definition adler32_of :: "byte list \<Rightarrow> nat" where
  "adler32_of data = (let (a, c) = adler_spec data (1, 0) in 65536 * c + a)"

text \<open>The checksum that \<open>exit_state\<close> computes.\<close>

lemma exit_adler:
  obtains s1 s2 :: u32 where "adler_blocks (length data mod 5552) data (1 AND 0xFFFF, drop_bit 16 1) = (s1, s2)"
    and "unat (push_bit 16 s2 + s1) = adler32_of data"
proof -
  obtain s1 s2 :: u32 where b: "adler_blocks (length data mod 5552) data (1, 0) = (s1, s2)" by fastforce
  have "map_prod unat unat (adler_blocks (length data mod 5552) data (1, 0)) = adler_spec data (1, 0)"
    using adler_blocks_spec [of "(1, 0)" "length data mod 5552" data] by simp
  then have a: "adler_spec data (1, 0) = (unat s1, unat s2)" by (simp add: b)
  moreover have "fst (adler_spec data (1, 0)) < 65521 \<and> snd (adler_spec data (1, 0)) < 65521"
    by (rule adler_spec_bound) simp_all
  ultimately have "unat (push_bit 16 s2 + s1) = adler32_of data"
    using adler_sum [of s1 s2] by (simp add: adler32_of_def)
  moreover have "(1 :: u32) AND 0xFFFF = 1" "drop_bit 16 (1 :: u32) = 0" by simp_all
  ultimately show ?thesis using that b by simp
qed

lemma common_exit_done:
  assumes "m_check_adler32 s = 1" and "num_bits s = 0" and "flag FLAG_PARSE_ZLIB_HEADER s" and "out_cur s \<le> length (out_buf s)"
  shows "fst (exit_state STATUS_DONE s) =
      (if adler32_of (take (out_cur s) (out_buf s)) = unat (m_z_adler32 s) then STATUS_DONE else STATUS_ADLER32_MISMATCH)"
    and "in_cur (snd (exit_state STATUS_DONE s)) = in_cur s"
proof -
  have "put_back s = s" using assms(2) by (subst put_back.simps) simp
  moreover obtain s1 s2 where "adler_blocks (length (take (out_cur s) (out_buf s)) mod 5552) (take (out_cur s) (out_buf s))
      (1 AND 0xFFFF, drop_bit 16 1) = (s1, s2)"
    and a: "unat (push_bit 16 s2 + s1 :: u32) = adler32_of (take (out_cur s) (out_buf s))" by (rule exit_adler)
  moreover have "adler32_of (take (out_cur s) (out_buf s)) = unat (m_z_adler32 s) \<longleftrightarrow> push_bit 16 s2 + s1 = m_z_adler32 s"
    unfolding a [symmetric] by (rule word_unat_eq_iff [symmetric])
  ultimately show "fst (exit_state STATUS_DONE s) =
      (if adler32_of (take (out_cur s) (out_buf s)) = unat (m_z_adler32 s) then STATUS_DONE else STATUS_ADLER32_MISMATCH)"
    "in_cur (snd (exit_state STATUS_DONE s)) = in_cur s"
    using assms by (simp_all add: exit_state_def Let_def STATUS_DONE_def STATUS_NEEDS_MORE_INPUT_def
      STATUS_CANNOT_MAKE_PROGRESS_def STATUS_ADLER32_MISMATCH_def)
qed

lemma tinfl_done_checksum:
  assumes r: "tinfl_decompress inp out flags = Inr (STATUS_DONE, s)" and f: "flags AND FLAG_PARSE_ZLIB_HEADER \<noteq> 0"
  shows "4 \<le> in_cur s \<and> adler32_of (take (out_cur s) (out_buf s)) = unat (be32 (take 4 (drop (in_cur s - 4) inp)))"
proof -
  let ?s = "tinfl_start inp out flags"
  have flags: "decomp_flags ?s = flags" by (simp add: tinfl_start_def)
  show ?thesis
  proof (rule tinfl_core_result [of inp out flags])
    fix st s1 assume c: "tinfl_core (tinfl_fuel inp out) ?s = (Inl (Status st), s1)" "st \<noteq> STATUS_DONE" "extends ?s s1"
    then have "exit_state st s1 = (STATUS_DONE, s)"
      using r by (auto simp: tinfl_decompress_eq tinfl_body_core Let_def STATUS_BAD_PARAM_def STATUS_DONE_def split: if_splits)
    then show ?thesis
      using common_exit_io(7) [of st s1 STATUS_DONE s] c by (auto simp: extends_def STATUS_ADLER32_MISMATCH_def STATUS_DONE_def)
  next
    fix s1 assume c: "tinfl_core (tinfl_fuel inp out) ?s = (Inr (), s1)" and e: "extends ?s s1"
    have x: "exit_state STATUS_DONE s1 = (STATUS_DONE, s)"
      using r c by (auto simp: tinfl_decompress_eq tinfl_body_core Let_def STATUS_BAD_PARAM_def STATUS_DONE_def split: if_splits)
    have ok: "inflator_ok s1" "in_buf s1 = inp" "flag FLAG_PARSE_ZLIB_HEADER s1" "m_check_adler32 s1 = 1"
      using e f flags by (simp_all add: extends_def tinfl_start_def)
    note t = tinfl_core_done [OF c tinfl_start_ok(1) tinfl_start_ok(2), unfolded flags, OF f]
    note io = common_exit_io [OF x ok(1)] and d = common_exit_done [of s1]
    have len: "out_cur s1 \<le> length (out_buf s1)" using ok(1) by (simp add: inflator_ok_def)
    have "in_cur s = in_cur s1" using d(2) [OF ok(4) _ ok(3) len] t x by simp
    moreover have "adler32_of (take (out_cur s1) (out_buf s1)) = unat (m_z_adler32 s1)"
      using d(1) [OF ok(4) _ ok(3) len] t x by (simp add: STATUS_DONE_def STATUS_ADLER32_MISMATCH_def split: if_splits)
    ultimately show ?thesis using t io ok(2) by simp
  qed
qed

end
