(* ===== verification/Inflate_Bits.thy ===== *)
theory Inflate_Bits
  imports Inflate_Total
begin

text \<open>
  The input of the decompressor as a list of bits: those in the bit buffer, then those of the bytes
  not yet read, each byte from its low bit on. The actions that read are described by the bits they
  take from this list, however these are spread over bit buffer and bytes.
\<close>

section \<open>The bits to come\<close>

definition byte_bits :: "byte list \<Rightarrow> bool list" where
  "byte_bits bs = concat (map (\<lambda>b. map (bit b) [0..<8]) bs)"

definition stream :: "inflator \<Rightarrow> bool list" where
  "stream s = map (bit (bit_buf s)) [0..<unat (num_bits s)] @ byte_bits (drop (in_cur s) (in_buf s))"

lemma byte_bits_simps [simp]:
  "byte_bits [] = []" "byte_bits (b # bs) = map (bit b) [0..<8] @ byte_bits bs"
  "byte_bits (xs @ ys) = byte_bits xs @ byte_bits ys"
  by (simp_all add: byte_bits_def)

lemma length_byte_bits [simp]: "length (byte_bits bs) = 8 * length bs"
  by (induction bs) simp_all

lemma length_stream: "length (stream s) = unat (num_bits s) + 8 * (length (in_buf s) - in_cur s)"
  by (simp add: stream_def)

text \<open>The part of the state that reading leaves alone.\<close>

definition frame :: "inflator \<Rightarrow> inflator" where
  "frame s = s\<lparr>in_cur := 0, bit_buf := 0, num_bits := 0\<rparr>"

definition reader_ok :: "inflator \<Rightarrow> bool" where
  "reader_ok s \<longleftrightarrow> inflator_ok s \<and> (\<forall>n. bit (bit_buf s) n \<longrightarrow> n < unat (num_bits s))"

text \<open>An action that takes the bits \<open>bs\<close>, whatever comes behind them, returns \<open>x\<close> and turns what it leaves
  alone otherwise from \<open>F\<close> into \<open>F'\<close>.\<close>

definition runs :: "inflator \<Rightarrow> 'a inflate \<Rightarrow> bool list \<Rightarrow> 'a \<Rightarrow> inflator \<Rightarrow> bool" where
  "runs F m bs x F' \<longleftrightarrow> (\<forall>s rest. frame s = F \<and> reader_ok s \<and> stream s = bs @ rest \<longrightarrow>
     (\<exists>s'. m s = (Inr x, s') \<and> frame s' = F' \<and> reader_ok s' \<and> stream s' = rest))"

lemma runsI:
  "(\<And>s rest. frame s = F \<Longrightarrow> reader_ok s \<Longrightarrow> stream s = bs @ rest \<Longrightarrow>
     \<exists>s'. m s = (Inr x, s') \<and> frame s' = F' \<and> reader_ok s' \<and> stream s' = rest) \<Longrightarrow> runs F m bs x F'"
  by (simp add: runs_def)

lemma runsE:
  assumes "runs F m bs x F'" and "frame s = F" and "reader_ok s" and "stream s = bs @ rest"
  obtains s' where "m s = (Inr x, s')" and "frame s' = F'" and "reader_ok s'" and "stream s' = rest"
  using assms by (auto simp: runs_def)

lemma runs_bnd:
  assumes "runs F m bs x F'" and "runs F' (f x) bs' y F''"
  shows "runs F (bnd m f) (bs @ bs') y F''"
proof (rule runsI)
  fix s rest assume s: "frame s = F" "reader_ok s" "stream s = (bs @ bs') @ rest"
  then obtain s' where 1: "m s = (Inr x, s')" "frame s' = F'" "reader_ok s'" "stream s' = bs' @ rest"
    using runsE [OF assms(1) s(1,2), of "bs' @ rest"] by auto
  from runsE [OF assms(2) this(2-4)] obtain s'' where
    "f x s' = (Inr y, s'')" "frame s'' = F''" "reader_ok s''" "stream s'' = rest" by auto
  then show "\<exists>s'. bnd m f s = (Inr y, s') \<and> frame s' = F'' \<and> reader_ok s' \<and> stream s' = rest"
    using 1(1) by (simp add: bnd_def)
qed

text \<open>The same with any condition on what is returned and on what is left alone otherwise.\<close>

definition runs_to :: "inflator \<Rightarrow> 'a inflate \<Rightarrow> bool list \<Rightarrow> ('a \<Rightarrow> inflator \<Rightarrow> bool) \<Rightarrow> bool" where
  "runs_to F m bs Q \<longleftrightarrow> (\<forall>s rest. frame s = F \<and> reader_ok s \<and> stream s = bs @ rest \<longrightarrow>
     (\<exists>x s'. m s = (Inr x, s') \<and> Q x (frame s') \<and> reader_ok s' \<and> stream s' = rest))"

lemma runs_toI:
  "(\<And>s rest. frame s = F \<Longrightarrow> reader_ok s \<Longrightarrow> stream s = bs @ rest \<Longrightarrow>
     \<exists>x s'. m s = (Inr x, s') \<and> Q x (frame s') \<and> reader_ok s' \<and> stream s' = rest) \<Longrightarrow> runs_to F m bs Q"
  by (simp add: runs_to_def)

lemma runs_toE:
  assumes "runs_to F m bs Q" and "frame s = F" and "reader_ok s" and "stream s = bs @ rest"
  obtains x s' where "m s = (Inr x, s')" and "Q x (frame s')" and "reader_ok s'" and "stream s' = rest"
  using assms unfolding runs_to_def by blast

lemma runs_to_runs: "runs F m bs x F' \<Longrightarrow> Q x F' \<Longrightarrow> runs_to F m bs Q"
  by (fastforce simp: runs_to_def runs_def)

lemma runs_to_bnd:
  assumes "runs_to F m bs P" and "\<And>x F'. P x F' \<Longrightarrow> runs_to F' (f x) bs' Q"
  shows "runs_to F (bnd m f) (bs @ bs') Q"
proof (rule runs_toI)
  fix s rest assume s: "frame s = F" "reader_ok s" "stream s = (bs @ bs') @ rest"
  then obtain x s' where 1: "m s = (Inr x, s')" "P x (frame s')" "reader_ok s'" "stream s' = bs' @ rest"
    using runs_toE [OF assms(1) s(1,2), of "bs' @ rest"] by auto
  from runs_toE [OF assms(2) [OF 1(2)] refl 1(3,4)] obtain y s'' where
    "f x s' = (Inr y, s'')" "Q y (frame s'')" "reader_ok s''" "stream s'' = rest" by auto
  then show "\<exists>x s'. bnd m f s = (Inr x, s') \<and> Q x (frame s') \<and> reader_ok s' \<and> stream s' = rest"
    using 1(1) by (simp add: bnd_def)
qed

lemma runs_then:
  assumes "runs F m bs x F'" and "runs_to F' (f x) bs' Q"
  shows "runs_to F (bnd m f) (bs @ bs') Q"
  by (rule runs_to_bnd [OF runs_to_runs [OF assms(1), of "\<lambda>y G. y = x \<and> G = F'"]]) (use assms(2) in simp_all)

lemma runs_give: "runs F (give x) [] x F"
  by (rule runsI) (simp add: give_def)

lemma frame_sel [simp]:
  "in_buf (frame s) = in_buf s" "out_buf (frame s) = out_buf s" "out_cur (frame s) = out_cur s"
  "decomp_flags (frame s) = decomp_flags s" "m_tables (frame s) = m_tables s"
  "m_table_sizes (frame s) = m_table_sizes s" "m_len_codes (frame s) = m_len_codes s"
  "m_z_adler32 (frame s) = m_z_adler32 s" "m_check_adler32 (frame s) = m_check_adler32 s"
  by (simp_all add: frame_def)

section \<open>Reading bits\<close>

lemma num_bits_add:
  "unat (num_bits s) < 64 \<Longrightarrow> k \<le> 64 \<Longrightarrow> unat (num_bits s + of_nat k) = unat (num_bits s) + k"
  using unat_num_add [of "num_bits s" k] by simp

text \<open>More bits behind those in the bit buffer.\<close>

lemma map_bit_or:
  fixes w v :: u64
  assumes "\<forall>n. bit w n \<longrightarrow> n < k" and "k + j \<le> 64" and "\<forall>n. bit v n \<longrightarrow> n < j"
  shows "map (bit (w OR push_bit k v)) [0..<k + j] = map (bit w) [0..<k] @ map (bit v) [0..<j]"
    and "\<forall>n. bit (w OR push_bit k v) n \<longrightarrow> n < k + j"
proof -
  have "map (bit (w OR push_bit k v)) [0..<k + j] ! i = (map (bit w) [0..<k] @ map (bit v) [0..<j]) ! i" if "i < k + j" for i
    using assms(1,2) that by (auto simp: nth_append bit_simps)
  then show "map (bit (w OR push_bit k v)) [0..<k + j] = map (bit w) [0..<k] @ map (bit v) [0..<j]"
    by (intro nth_equalityI) simp_all
  show "\<forall>n. bit (w OR push_bit k v) n \<longrightarrow> n < k + j"
    using assms(1,3) by (fastforce simp: bit_simps)
qed

lemma byte_bit_less: "bit (ucast (c :: byte) :: u64) n \<Longrightarrow> n < 8"
  by (auto simp: bit_simps dest: bit_imp_le_length)

lemma bits_of_byte: "map (bit (ucast (c :: byte) :: u64)) [0..<8] = map (bit c) [0..<8]"
  by (simp add: bit_simps)

lemma add_byte_stream:
  assumes "reader_ok s" and "get_byte s = (Inr c, s')" and "unat (num_bits s) < 56"
  shows "reader_ok (add_byte c s')" and "stream (add_byte c s') = stream s" and "frame (add_byte c s') = frame s"
    and "unat (num_bits (add_byte c s')) = unat (num_bits s) + 8"
proof -
  have ok: "inflator_ok s" and buf: "\<forall>n. bit (bit_buf s) n \<longrightarrow> n < unat (num_bits s)"
    using assms(1) by (simp_all add: reader_ok_def)
  note g = get_byte_Inr [OF assms(2)]
  have c: "c = in_buf s ! in_cur s" using assms(2) by (auto simp: get_byte_def split: if_splits)
  have d: "drop (in_cur s) (in_buf s) = c # drop (in_cur s + 1) (in_buf s)"
    using g c by (simp add: Cons_nth_drop_Suc)
  note m = map_bit_or [OF buf, of 8 "ucast c"]
  show n: "unat (num_bits (add_byte c s')) = unat (num_bits s) + 8"
    using assms(3) g unat_num_add [of "num_bits s" 8] by (simp add: add_byte_def)
  then show "stream (add_byte c s') = stream s"
    using m(1) assms(3) byte_bit_less [of c] g d by (simp add: stream_def add_byte_def bits_of_byte)
  have "inflator_ok (add_byte c s')" using ok g n assms(3) by (auto simp: inflator_ok_def add_byte_def)
  then show "reader_ok (add_byte c s')"
    using m(2) n assms(3) byte_bit_less [of c] g by (simp add: reader_ok_def add_byte_def)
  show "frame (add_byte c s') = frame s" using g by (simp add: frame_def add_byte_def)
qed

lemma drop_bits_stream:
  assumes "reader_ok s" and "n \<le> unat (num_bits s)"
  shows "reader_ok (drop_bits n s)" and "stream (drop_bits n s) = drop n (stream s)" and "frame (drop_bits n s) = frame s"
proof -
  have ok: "inflator_ok s" "\<forall>n. bit (bit_buf s) n \<longrightarrow> n < unat (num_bits s)" using assms(1) by (simp_all add: reader_ok_def)
  note e = drop_bits_extends [OF ok(1) assms(2)]
  show "frame (drop_bits n s) = frame s" by (simp add: frame_def drop_bits_def)
  show "reader_ok (drop_bits n s)"
    using e ok(2) unfolding reader_ok_def by (fastforce simp: extends_def drop_bits_def bit_simps)
  have "map (bit (drop_bit n (bit_buf s))) [0..<unat (num_bits s) - n] = drop n (map (bit (bit_buf s)) [0..<unat (num_bits s)])"
    by (rule nth_equalityI) (simp_all add: bit_simps)
  then show "stream (drop_bits n s) = drop n (stream s)"
    using assms(2) e(5) by (simp add: stream_def drop_bits_def)
qed

lemma need_bits_stream:
  assumes "reader_ok s" and "n \<le> length (stream s)" and "n \<le> 16" and "unat (num_bits s) < n"
  shows "\<exists>s'. need_bits n s = (Inr (), s') \<and> reader_ok s' \<and> stream s' = stream s \<and> frame s' = frame s \<and>
    n \<le> unat (num_bits s')"
  using assms
proof (induction n s rule: need_bits.induct)
  case (1 n s)
  have "in_cur s < length (in_buf s)" using 1(3,5) by (auto simp: length_stream)
  then obtain c s' where g: "get_byte s = (Inr c, s')" by (auto simp: get_byte_def)
  have nb: "unat (num_bits s) < 56" using 1(4,5) by simp
  note a = add_byte_stream [OF 1(2) g nb]
  have lt: "num_bits (add_byte c s') < of_nat n \<longleftrightarrow> unat (num_bits (add_byte c s')) < n"
    using 1(4) by (simp add: of_nat_less_num)
  have sh: "\<not> 64 \<le> unat (num_bits s')" using get_byte_Inr [OF g] nb by simp
  show ?case
  proof (cases "unat (num_bits (add_byte c s')) < n")
    case True
    with 1(1) [OF g [symmetric] refl sh] a 1(3,4) lt sh show ?thesis
      by (subst need_bits.simps) (simp add: g)
  next
    case False
    then show ?thesis using a lt sh by (subst need_bits.simps) (simp add: g)
  qed
qed

lemma have_bits_stream:
  assumes "reader_ok s" and "n \<le> length (stream s)" and "n \<le> 16"
  shows "\<exists>s'. have_bits n s = (Inr (), s') \<and> reader_ok s' \<and> stream s' = stream s \<and> frame s' = frame s \<and>
    n \<le> unat (num_bits s')"
proof (cases "unat (num_bits s) < n")
  case True
  then show ?thesis
    using need_bits_stream [OF assms] assms(3) by (simp add: have_bits_def of_nat_less_num)
next
  case False
  then show ?thesis using assms by (simp add: have_bits_def of_nat_less_num)
qed

definition bits_value :: "bool list \<Rightarrow> nat" where
  "bits_value bs = horner_sum of_bool 2 bs"

lemma low_bits_value:
  assumes "reader_ok s" and "n \<le> unat (num_bits s)"
  shows "unat (bit_buf s AND mask n) = bits_value (take n (stream s))"
proof -
  have n: "n < 64" using assms by (simp add: reader_ok_def inflator_ok_def)
  have "take n (stream s) = map (bit (bit_buf s)) [0..<n]"
    using assms(2) by (simp add: stream_def take_map)
  also have "\<dots> = map (bit (unat (bit_buf s))) [0..<n]"
    using n by (simp add: bit_unsigned_iff)
  finally show ?thesis
    by (simp add: bits_value_def horner_sum_bit_eq_take_bit unsigned_take_bit_eq flip: take_bit_eq_mask)
qed

lemma runs_get_bits:
  assumes "length bs = n" and "n \<le> 16"
  shows "runs F (get_bits n) bs (bits_value bs) F" and "runs F (skip_bits n) bs () F"
proof -
  have *: "\<exists>s'. have_bits n s = (Inr (), s') \<and> frame (drop_bits n s') = F \<and> reader_ok (drop_bits n s') \<and>
      stream (drop_bits n s') = rest \<and> unat (bit_buf s' AND mask n) = bits_value bs"
    if s: "frame s = F" "reader_ok s" "stream s = bs @ rest" for s rest
  proof -
    obtain s' where "have_bits n s = (Inr (), s')" "reader_ok s'" "stream s' = stream s" "frame s' = frame s" "n \<le> unat (num_bits s')"
      using have_bits_stream [OF s(2) _ assms(2)] s(3) assms(1) by auto
    then show ?thesis
      using drop_bits_stream [of s' n] low_bits_value [of s' n] s assms(1) by auto
  qed
  show "runs F (get_bits n) bs (bits_value bs) F"
  proof (rule runsI)
    fix s rest assume "frame s = F" "reader_ok s" "stream s = bs @ rest"
    from * [OF this] show "\<exists>s'. get_bits n s = (Inr (bits_value bs), s') \<and> frame s' = F \<and> reader_ok s' \<and> stream s' = rest"
      using assms(2) by (auto simp: get_bits_eq bnd_def)
  qed
  show "runs F (skip_bits n) bs () F"
  proof (rule runsI)
    fix s rest assume "frame s = F" "reader_ok s" "stream s = bs @ rest"
    from * [OF this] show "\<exists>s'. skip_bits n s = (Inr (), s') \<and> frame s' = F \<and> reader_ok s' \<and> stream s' = rest"
      using assms(2) by (auto simp: skip_bits_eq bnd_def)
  qed
qed

lemma bits_value_nat_bits: "x < 2 ^ n \<Longrightarrow> bits_value (map (bit x) [0..<n]) = x"
  by (simp add: bits_value_def horner_sum_bit_eq_take_bit take_bit_nat_eq_self)

end
