(* ===== verification/Huffman_Decode.thy ===== *)
theory Huffman_Decode
  imports Inflate_Bits
begin

text \<open>
  Decoding with a table that the builder made: the bits of a symbol's code, first bit first, are
  turned into the symbol, and exactly these bits are taken.
\<close>

section \<open>Tables for code sizes\<close>

definition code_bits :: "nat list \<Rightarrow> nat \<Rightarrow> bool list" where
  "code_bits sizes sy = (let (l, c) = code_of sizes sy in map (\<lambda>i. odd (c div 2 ^ (l - Suc i))) [0..<l])"

definition built :: "nat list \<Rightarrow> huff_table \<Rightarrow> bool" where
  "built sizes t \<longleftrightarrow> sizes_ok sizes \<and> kraft sizes \<and> (\<exists>ps b. m_look_up t = tb_look_up b \<and> m_tree t = tb_tree b \<and>
     builder_ok sizes ps b \<and> all_entered sizes (length sizes) ps b)"

lemma built_make_table:
  assumes "sizes_ok sizes" and "make_table sizes = Inr (look, tree)"
  shows "built sizes (t\<lparr>m_look_up := look, m_tree := tree\<rparr>)"
  using make_table_cases [OF assms(1)] assms(2) by (auto simp: built_def assms(1) split: if_splits)

definition has_code :: "nat list \<Rightarrow> nat \<Rightarrow> bool" where
  "has_code sizes sy \<longleftrightarrow> sy < length sizes \<and> sizes ! sy \<noteq> 0"

lemma length_code_bits [simp]: "length (code_bits sizes sy) = sizes ! sy"
  by (simp add: code_bits_def code_of_def)

text \<open>The low bits of a word that begins with a code.\<close>

definition starts :: "u64 \<Rightarrow> nat \<Rightarrow> nat \<Rightarrow> nat \<Rightarrow> bool" where
  "starts w n l c \<longleftrightarrow> (\<forall>i < n. bit w i = odd (c div 2 ^ (l - Suc i)))"

lemma rev_code_mod_bits:
  assumes "starts w n l c" and "n \<le> l" and "n \<le> 64"
  shows "unat w mod 2 ^ n = rev_code n (c div 2 ^ (l - n))"
proof -
  have "take_bit n (unat w) = rev_code l c mod 2 ^ n"
  proof (rule bit_eqI)
    fix i
    have "bit (rev_code l c) i = odd (c div 2 ^ (l - Suc i))" if "i < l"
      using rev_code_bit [OF that, of c] by (simp add: bit_iff_odd odd_iff_mod_2_eq_one)
    then show "bit (take_bit n (unat w)) i = bit (rev_code l c mod 2 ^ n) i"
      using assms by (auto simp: bit_take_bit_iff bit_unsigned_iff starts_def simp flip: take_bit_eq_mod)
  qed
  then show ?thesis using rev_code_mod [OF assms(2), of c] by (simp add: take_bit_eq_mod)
qed

text \<open>The slot of a word in the direct table.\<close>

lemma slot_of:
  obtains x where "x < 1024" and "look_up t w = m_look_up t ! rev_code 10 x" and "unat w mod 1024 = rev_code 10 x"
proof -
  have m: "unat (w AND mask 10) = unat w mod 1024"
    by (simp only: unsigned_take_bit_eq take_bit_eq_mod flip: take_bit_eq_mask) (simp add: unat_mod)
  obtain x where "x < 1024" "unat w mod 1024 = rev_code 10 x" using rev_code_onto [of "unat w mod 1024" 10] by auto
  then show thesis using that m by (simp add: look_up_def FAST_LOOKUP_BITS_def)
qed

lemma slot_prefix:
  assumes "x < 1024" and "unat w mod 1024 = rev_code 10 x" and "starts w n l c" and "n \<le> l" and "n \<le> 10" and "c < 2 ^ l"
  shows "x div 2 ^ (10 - n) = c div 2 ^ (l - n)"
proof -
  have "unat w mod 2 ^ n = unat w mod 1024 mod 2 ^ n"
    using le_imp_power_dvd [OF assms(5), of "2 :: nat"] by (simp add: mod_mod_cancel)
  then have "rev_code n (x div 2 ^ (10 - n)) = rev_code n (c div 2 ^ (l - n))"
    using rev_code_mod [OF assms(5), of x] rev_code_mod_bits [OF assms(3,4)] assms(2,5) by simp
  moreover have "x < 2 ^ n * 2 ^ (10 - n)" "c < 2 ^ n * 2 ^ (l - n)" using assms by (simp_all flip: power_add)
  ultimately show ?thesis by (simp add: rev_code_inject less_mult_imp_div_less)
qed

section \<open>Looking up a code\<close>

text \<open>What the builder promises for one symbol.\<close>

lemma built_symbol:
  assumes "built sizes t" and "has_code sizes sy"
  obtains l c ps b where "code_of sizes sy = (l, c)" and "(l, c) \<in> codes sizes" and "1 \<le> l" and "l \<le> 15" and "c < 2 ^ l"
    and "tree_ok sizes ps (m_tree t)" and "look_ok sizes ps (m_look_up t)" and "kraft sizes" and "length sizes \<le> 288"
    and "entered ps (m_look_up t) (m_tree t) sy (l, c)"
proof -
  obtain ps b where b: "m_look_up t = tb_look_up b" "m_tree t = tb_tree b" "builder_ok sizes ps b"
      "all_entered sizes (length sizes) ps b" and s: "sizes_ok sizes" "kraft sizes"
    using assms(1) by (auto simp: built_def)
  obtain l c where c: "code_of sizes sy = (l, c)" by fastforce
  have "(l, c) \<in> codes sizes" using code_of_codes [OF s(1), of sy] assms(2) c by (simp add: has_code_def)
  then show thesis
    using that [OF c] codes_less [OF s(2)] b s assms(2) c
    by (auto simp: builder_ok_def codes_def all_entered_def has_code_def sizes_ok_def)
qed

lemma long_code_slot:
  assumes "tree_ok sizes ps tree" and "look_ok sizes ps look" and kr: "kraft sizes" and "(l, c) \<in> codes sizes" and "10 < l"
    and "entered ps look tree sy (l, c)"
  obtains f q where "f < length ps" and "child ps f (c mod 2) = (l, c)" and "tree ! (2 * f + c mod 2) = int sy"
    and "look ! rev_code 10 (c div 2 ^ (l - 10)) = node q" and "q < length ps" and "ps ! q = (10, c div 2 ^ (l - 10))"
proof -
  obtain f where f: "f < length ps" "child ps f (c mod 2) = (l, c)" "tree ! (2 * f + c mod 2) = int sy"
    using assms(5,6) by (auto simp: entered_def)
  then have "ps ! f = (l - 1, c div 2)" using assms(5) by (auto simp: child_def prod_eq_iff)
  then have "(l - 1, c div 2) \<in> set ps" using f(1) nth_mem by metis
  then have p: "(10, c div 2 ^ (l - 10)) \<in> set ps"
    using prefix_nodes [of sizes ps l c 10] assms(1,5) by (simp add: tree_ok_def)
  then have "(10, c div 2 ^ (l - 10)) \<in> inner sizes" using assms(1) by (auto simp: tree_ok_def nodes_ok_def)
  then have "c div 2 ^ (l - 10) < 1024" using inner_range [OF kr] by fastforce
  then have "entry_ok sizes ps (10, c div 2 ^ (l - 10)) (look ! rev_code 10 (c div 2 ^ (l - 10)))"
    using assms(2) by (simp add: look_ok_def Let_def)
  from entry_node [OF this p] f that show thesis by metis
qed

text \<open>One step down from a proper prefix of the code: to the symbol, or to the node of the next prefix.\<close>

lemma path_step:
  assumes t: "tree_ok sizes ps (m_tree t)" and kr: "kraft sizes" "length sizes \<le> 288" and l: "l \<le> 15"
    and e: "f < length ps" "child ps f (c mod 2) = (l, c)" "m_tree t ! (2 * f + c mod 2) = int sy"
    and q: "q < length ps" "ps ! q = (d, c div 2 ^ (l - d))" and d: "10 \<le> d" "d < l"
    and bit: "bit w d = odd (c div 2 ^ (l - Suc d))"
  obtains (leaf) "Suc d = l" and "tree_child t w (node q) d = Inr (int sy)"
    | (inner) r where "Suc d < l" and "tree_child t w (node q) d = Inr (node r)" and "r < length ps"
        and "ps ! r = (Suc d, c div 2 ^ (l - Suc d))"
proof -
  let ?b = "c div 2 ^ (l - Suc d) mod 2"
  have "length ps \<le> 288" using nodes_few [OF _ kr] t by (simp add: tree_ok_def)
  then have lt: "2 * q + ?b < length (m_tree t)" using q(1) t by (simp add: tree_ok_def)
  have b: "of_bool (bit w d) = ?b" using bit by (simp add: mod_2_eq_odd)
  have step: "tree_child t w (node q) d = Inr (m_tree t ! (2 * q + ?b))"
    using tree_child_node [of d q w t] lt b d l by simp
  note ch = child_on_path [OF q(2) d(2)]
  have dist: "distinct ps" using t by (simp add: tree_ok_def nodes_ok_def)
  show thesis
  proof (cases "Suc d = l")
    case True
    then have "child ps q ?b = child ps f (c mod 2)" using ch e(2) by simp
    then have "q = f" "?b = c mod 2" using child_inject [OF dist q(1) e(1)] by auto
    then show thesis using leaf [OF True] step e(3) by simp
  next
    case False
    have "ps ! f = (l - 1, c div 2)" using e(2) d by (auto simp: child_def prod_eq_iff)
    then have "(l - 1, c div 2) \<in> set ps" using e(1) nth_mem by metis
    then have "(Suc d, c div 2 ^ (l - Suc d)) \<in> set ps"
      using prefix_nodes [of sizes ps l c "Suc d"] t False d by (simp add: tree_ok_def)
    then obtain r where "m_tree t ! (2 * q + ?b) = node r" "r < length ps" "ps ! r = (Suc d, c div 2 ^ (l - Suc d))"
      using entry_node tree_entry [OF t q(1), of ?b] ch by (metis mod_less_divisor zero_less_numeral)
    then show thesis using inner [of r] step False d by simp
  qed
qed

lemma walk_code:
  assumes t: "tree_ok sizes ps (m_tree t)" and kr: "kraft sizes" "length sizes \<le> 288" and l: "l \<le> 15"
    and e: "f < length ps" "child ps f (c mod 2) = (l, c)" "m_tree t ! (2 * f + c mod 2) = int sy"
    and bits: "starts w l l c"
    and "q < length ps" and "ps ! q = (d, c div 2 ^ (l - d))" and "10 \<le> d" and "d < l"
  shows "huff_walk t w (node q) d = Inr (sy, l)"
  using assms(9-12)
proof (induction "l - d" arbitrary: q d)
  case (Suc k)
  have b: "bit w d = odd (c div 2 ^ (l - Suc d))" using bits Suc.prems(4) by (simp add: starts_def)
  show ?case
  proof (rule path_step [OF t kr l e Suc.prems b])
    fix r assume r: "Suc d < l" "tree_child t w (node q) d = Inr (node r)" "r < length ps" "ps ! r = (Suc d, c div 2 ^ (l - Suc d))"
    have "huff_walk t w (node r) (Suc d) = Inr (sy, l)" using Suc r by simp
    then show ?thesis using r(2) by (subst huff_walk.simps) simp
  qed (subst huff_walk.simps, simp)
qed simp

lemma huff_symbol_code:
  assumes "built sizes t" and "has_code sizes sy" and "code_of sizes sy = (l, c)" and "starts (bit_buf s) l l c"
  shows "\<exists>e. huff_symbol t s = (Inr (e, l), s) \<and> (if 0 \<le> look_up t (bit_buf s) then e AND 511 else e) = sy"
proof -
  let ?w = "bit_buf s"
  obtain ps where lc: "(l, c) \<in> codes sizes" "1 \<le> l" "l \<le> 15" "c < 2 ^ l"
    and t: "tree_ok sizes ps (m_tree t)" "look_ok sizes ps (m_look_up t)" and kr: "kraft sizes" "length sizes \<le> 288"
    and e: "entered ps (m_look_up t) (m_tree t) sy (l, c)"
    using built_symbol [OF assms(1,2)] assms(3) by (metis prod.inject)
  obtain x where x: "x < 1024" "look_up t ?w = m_look_up t ! rev_code 10 x" "unat ?w mod 1024 = rev_code 10 x"
    by (rule slot_of)
  show ?thesis
  proof (cases "l \<le> 10")
    case True
    have "x div 2 ^ (10 - l) = c" using slot_prefix [OF x(1,3) assms(4) _ True lc(4)] by simp
    then have "look_up t ?w = int (push_bit 9 l OR sy)" using e x True by (simp add: entered_def)
    moreover have "sy < 512" using assms(2) kr(2) by (simp add: has_code_def)
    ultimately show ?thesis using entry_value [of sy l] by (simp add: huff_symbol_def)
  next
    case False
    have "starts ?w 10 l c" using assms(4) False by (simp add: starts_def)
    then have "x = c div 2 ^ (l - 10)" using slot_prefix [OF x(1,3) _ _ _ lc(4), of 10] False by simp
    moreover obtain f q where fq: "f < length ps" "child ps f (c mod 2) = (l, c)" "m_tree t ! (2 * f + c mod 2) = int sy"
      "m_look_up t ! rev_code 10 (c div 2 ^ (l - 10)) = node q" "q < length ps" "ps ! q = (10, c div 2 ^ (l - 10))"
      using long_code_slot [OF t kr(1) lc(1) _ e] False by (metis not_le)
    moreover have "huff_walk t ?w (node q) 10 = Inr (sy, l)"
      by (rule walk_code [OF t(1) kr lc(3) fq(1-3) assms(4) fq(5,6)]) (use False in simp_all)
    ultimately show ?thesis using x(2) by (simp add: huff_symbol_def FAST_LOOKUP_BITS_def)
  qed
qed

section \<open>Reading until a code is complete\<close>

lemma fill_walk_code:
  assumes t: "tree_ok sizes ps (m_tree t)" and kr: "kraft sizes" "length sizes \<le> 288" and l: "l \<le> 15"
    and e: "f < length ps" "child ps f (c mod 2) = (l, c)" "m_tree t ! (2 * f + c mod 2) = int sy"
    and bits: "starts w (min l nb) l c"
    and "q < length ps" and "ps ! q = (d, c div 2 ^ (l - d))" and "10 \<le> d" and "d < l" and "d < nb"
  shows "\<exists>v. fill_walk t w nb (node q) d = Inr v \<and> (0 \<le> v \<longleftrightarrow> l \<le> nb)"
  using assms(9-13)
proof (induction "l - d" arbitrary: q d)
  case (Suc k)
  have b: "bit w d = odd (c div 2 ^ (l - Suc d))" using bits Suc.prems(4,5) by (simp add: starts_def)
  show ?case
  proof (rule path_step [OF t kr l e Suc.prems(1-4) b])
    assume "Suc d = l" "tree_child t w (node q) d = Inr (int sy)"
    then show ?thesis using Suc.prems(5) by (subst fill_walk.simps) simp
  next
    fix r assume r: "Suc d < l" "tree_child t w (node q) d = Inr (node r)" "r < length ps" "ps ! r = (Suc d, c div 2 ^ (l - Suc d))"
    show ?thesis
    proof (cases "Suc d < nb")
      case True
      have "\<exists>v. fill_walk t w nb (node r) (Suc d) = Inr v \<and> (0 \<le> v \<longleftrightarrow> l \<le> nb)" using Suc r True by simp
      then show ?thesis using r(2) True by (subst fill_walk.simps) simp
    next
      case False
      then show ?thesis using r by (subst fill_walk.simps) simp
    qed
  qed
qed simp

text \<open>With fewer bits than the code has, no shorter code is found in their place.\<close>

lemma fill_ready_short:
  assumes "look_ok sizes ps (m_look_up t)" and lc: "(l, c) \<in> codes sizes" and "c < 2 ^ l"
    and bits: "starts (bit_buf s) (min l (unat (num_bits s))) l c"
    and x: "x < 1024" "look_up t (bit_buf s) = m_look_up t ! rev_code 10 x" "unat (bit_buf s) mod 1024 = rev_code 10 x"
    and "unat (num_bits s) < l" and "unat (num_bits s) < 10"
  shows "fill_ready t s = Inr False"
proof (cases "0 \<le> look_up t (bit_buf s)")
  case True
  let ?v = "look_up t (bit_buf s)" and ?nb = "unat (num_bits s)"
  let ?l = "drop_bit 9 (nat ?v)"
  have "\<not> (?l \<noteq> 0 \<and> ?l \<le> ?nb)"
  proof
    assume a: "?l \<noteq> 0 \<and> ?l \<le> ?nb"
    then have "0 < ?v" using True by (cases "?v = 0") simp_all
    then have o: "?l \<le> 10" "(?l, x div 2 ^ (10 - ?l)) \<in> codes sizes"
      using assms(1) x by (simp_all add: look_ok_def Let_def)
    have "starts (bit_buf s) ?l l c" using bits a assms(8) by (simp add: starts_def)
    from slot_prefix [OF x(1,3) this _ o(1) assms(3)] have "c div 2 ^ (l - ?l) = x div 2 ^ (10 - ?l)"
      using a assms(8) by simp
    from codes_prefix_free [OF o(2) lc _ this] show False using a assms(8) by simp
  qed
  then show ?thesis using True by (auto simp: fill_ready_def Let_def)
next
  case False
  then show ?thesis using assms(9) by (simp add: fill_ready_def Let_def FAST_LOOKUP_BITS_def)
qed

lemma fill_ready_code:
  assumes "built sizes t" and "has_code sizes sy" and "code_of sizes sy = (l, c)"
    and bits: "starts (bit_buf s) (min l (unat (num_bits s))) l c"
  shows "fill_ready t s = Inr (l \<le> unat (num_bits s))"
proof -
  let ?w = "bit_buf s" and ?nb = "unat (num_bits s)"
  obtain ps where lc: "(l, c) \<in> codes sizes" "1 \<le> l" "l \<le> 15" "c < 2 ^ l"
    and t: "tree_ok sizes ps (m_tree t)" "look_ok sizes ps (m_look_up t)" and kr: "kraft sizes" "length sizes \<le> 288"
    and e: "entered ps (m_look_up t) (m_tree t) sy (l, c)"
    using built_symbol [OF assms(1,2)] assms(3) by (metis prod.inject)
  obtain x where x: "x < 1024" "look_up t ?w = m_look_up t ! rev_code 10 x" "unat ?w mod 1024 = rev_code 10 x"
    by (rule slot_of)
  consider (short) "l \<le> 10" "l \<le> ?nb" | (long) "10 < l" "10 \<le> ?nb" | (few) "?nb < l" "?nb < 10" | (short_few) "?nb < l" "l \<le> 10"
    by linarith
  then show ?thesis
  proof cases
    case short
    then have "x div 2 ^ (10 - l) = c" using slot_prefix [OF x(1,3) bits _ _ lc(4)] by (simp add: min_def)
    then have "look_up t ?w = int (push_bit 9 l OR sy)" using e x short by (simp add: entered_def)
    moreover have "sy < 512" using assms(2) kr(2) by (simp add: has_code_def)
    ultimately show ?thesis using entry_value [of sy l] short lc(2) by (simp add: fill_ready_def)
  next
    case long
    then have "starts ?w 10 l c" using bits by (simp add: starts_def)
    then have "x = c div 2 ^ (l - 10)" using slot_prefix [OF x(1,3) _ _ _ lc(4), of 10] long by simp
    moreover obtain f q where fq: "f < length ps" "child ps f (c mod 2) = (l, c)" "m_tree t ! (2 * f + c mod 2) = int sy"
      "m_look_up t ! rev_code 10 (c div 2 ^ (l - 10)) = node q" "q < length ps" "ps ! q = (10, c div 2 ^ (l - 10))"
      using long_code_slot [OF t kr(1) lc(1) long(1) e] by metis
    moreover have "10 < ?nb \<Longrightarrow> \<exists>v. fill_walk t ?w ?nb (node q) 10 = Inr v \<and> (0 \<le> v \<longleftrightarrow> l \<le> ?nb)"
      using fill_walk_code [OF t(1) kr lc(3) fq(1-3) bits fq(5,6)] long by simp
    ultimately show ?thesis using x(2) long by (auto simp: fill_ready_def Let_def FAST_LOOKUP_BITS_def)
  next
    case few
    then show ?thesis using fill_ready_short [OF t(2) lc(1,4) bits x] by simp
  next
    case short_few
    then show ?thesis using fill_ready_short [OF t(2) lc(1,4) bits x] by simp
  qed
qed

section \<open>Decoding\<close>

lemma starts_stream:
  assumes "stream s = code_bits sizes sy @ rest" and "code_of sizes sy = (l, c)" and "n \<le> l" and "n \<le> unat (num_bits s)"
  shows "starts (bit_buf s) n l c"
  unfolding starts_def
proof (intro allI impI)
  fix i assume i: "i < n"
  then have "stream s ! i = bit (bit_buf s) i" using assms(4) by (simp add: stream_def nth_append)
  moreover have "stream s ! i = odd (c div 2 ^ (l - Suc i))"
    using i assms(1-3) by (simp add: nth_append code_bits_def)
  ultimately show "bit (bit_buf s) i = odd (c div 2 ^ (l - Suc i))" by simp
qed

lemma huff_fill_stream:
  assumes "built sizes t" and "has_code sizes sy" and "reader_ok s" and "stream s = code_bits sizes sy @ rest"
    and "unat (num_bits s) < 15"
  shows "\<exists>s'. huff_fill t s = (Inr (), s') \<and> reader_ok s' \<and> stream s' = stream s \<and> frame s' = frame s \<and>
    sizes ! sy \<le> unat (num_bits s')"
  using assms
proof (induction t s rule: huff_fill.induct)
  case (1 t s)
  obtain l c where c: "code_of sizes sy = (l, c)" by fastforce
  then have l: "l = sizes ! sy" by (simp add: code_of_def)
  have "starts (bit_buf s) (min l (unat (num_bits s))) l c"
    by (rule starts_stream [OF 1(5) c]) simp_all
  from fill_ready_code [OF 1(2,3) c this] have r: "fill_ready t s = Inr (l \<le> unat (num_bits s))" .
  show ?case
  proof (cases "l \<le> unat (num_bits s)")
    case True
    then show ?thesis using r 1(4) l by (subst huff_fill.simps) simp
  next
    case False
    have "length (stream s) \<ge> l" using 1(5) l by simp
    then have "in_cur s < length (in_buf s)" using False by (auto simp: length_stream)
    then obtain b s' where g: "get_byte s = (Inr b, s')" by (auto simp: get_byte_def)
    have nb: "unat (num_bits s) < 56" using 1(6) by simp
    note a = add_byte_stream [OF 1(4) g nb]
    have l15: "l \<le> 15" using built_symbol [OF 1(2,3)] c by (metis prod.inject)
    have lt: "num_bits (add_byte b s') < 15 \<longleftrightarrow> unat (num_bits (add_byte b s')) < 15"
      using of_nat_less_num [of 15 "num_bits (add_byte b s')"] by simp
    have sh: "\<not> 64 \<le> unat (num_bits s')" using get_byte_Inr [OF g] nb by simp
    show ?thesis
    proof (cases "unat (num_bits (add_byte b s')) < 15")
      case True
      have "\<exists>s''. huff_fill t (add_byte b s') = (Inr (), s'') \<and> reader_ok s'' \<and> stream s'' = stream s \<and>
          frame s'' = frame s \<and> sizes ! sy \<le> unat (num_bits s'')"
        using 1(1) [OF r False g [symmetric] refl sh] True lt a 1(2,3,5) by simp
      then show ?thesis using r False g True lt sh by (subst huff_fill.simps) simp
    next
      case ge: False
      then show ?thesis using r False g lt a l l15 sh by (subst huff_fill.simps) simp
    qed
  qed
qed

lemma add_two_stream:
  assumes "reader_ok s" and "unat (num_bits s) < 15" and "2 \<le> length (in_buf s) - in_cur s"
  shows "reader_ok (taken_two s)" and "stream (taken_two s) = stream s" and "frame (taken_two s) = frame s"
    and "unat (num_bits (taken_two s)) = unat (num_bits s) + 16"
proof -
  let ?c = "in_buf s ! in_cur s" and ?d = "in_buf s ! (in_cur s + 1)"
  let ?s1 = "add_byte ?c (s\<lparr>in_cur := in_cur s + 1\<rparr>)"
  have 1: "get_byte s = (Inr ?c, s\<lparr>in_cur := in_cur s + 1\<rparr>)" using assms(3) by (simp add: get_byte_def)
  note a = add_byte_stream [OF assms(1) 1]
  have 2: "get_byte ?s1 = (Inr ?d, ?s1\<lparr>in_cur := in_cur s + 2\<rparr>)"
    using assms(3) by (auto simp: get_byte_def add_byte_def)
  note b = add_byte_stream [OF a(1) 2(1)]
  have n: "unat (num_bits s + 8) = unat (num_bits s) + 8" using unat_num_add [of "num_bits s" 8] assms(2) by simp
  have e: "taken_two s = add_byte ?d (?s1\<lparr>in_cur := in_cur s + 2\<rparr>)"
    using n by (intro inflator.equality) (simp_all add: taken_two_def add_byte_def or.assoc)
  show "reader_ok (taken_two s)" "stream (taken_two s) = stream s" "frame (taken_two s) = frame s"
    "unat (num_bits (taken_two s)) = unat (num_bits s) + 16"
    using a b assms(2) e by simp_all
qed

lemma huff_ensure_stream:
  assumes "built sizes t" and "has_code sizes sy" and "reader_ok s" and "stream s = code_bits sizes sy @ rest"
  shows "\<exists>s'. huff_ensure t s = (Inr (), s') \<and> reader_ok s' \<and> stream s' = stream s \<and> frame s' = frame s \<and>
    sizes ! sy \<le> unat (num_bits s')"
proof -
  obtain l c where c: "code_of sizes sy = (l, c)" by fastforce
  have l15: "sizes ! sy \<le> 15" using built_symbol [OF assms(1,2)] c by (metis prod.inject code_of_def)
  have lt: "num_bits s < 15 \<longleftrightarrow> unat (num_bits s) < 15" using of_nat_less_num [of 15 "num_bits s"] by simp
  consider (full) "\<not> unat (num_bits s) < 15" | (fill) "unat (num_bits s) < 15" "length (in_buf s) - in_cur s < 2"
    | (two) "unat (num_bits s) < 15" "2 \<le> length (in_buf s) - in_cur s"
    by linarith
  then show ?thesis
  proof cases
    case full
    then show ?thesis using lt l15 assms(3) by (simp add: huff_ensure_eq)
  next
    case fill
    then show ?thesis using huff_fill_stream [OF assms fill(1)] lt by (simp add: huff_ensure_eq)
  next
    case two
    then show ?thesis using add_two_stream [OF assms(3) two] lt l15 by (simp add: huff_ensure_eq)
  qed
qed

lemma runs_huff_decode:
  assumes "built sizes t" and "has_code sizes sy"
  shows "runs F (huff_decode t) (code_bits sizes sy) sy F"
proof (rule runsI)
  fix s rest assume s: "frame s = F" "reader_ok s" "stream s = code_bits sizes sy @ rest"
  obtain s1 where s1: "huff_ensure t s = (Inr (), s1)" "reader_ok s1" "stream s1 = stream s" "frame s1 = frame s"
      "sizes ! sy \<le> unat (num_bits s1)"
    using huff_ensure_stream [OF assms s(2,3)] by blast
  obtain l c where c: "code_of sizes sy = (l, c)" by fastforce
  then have l: "l = sizes ! sy" by (simp add: code_of_def)
  have st: "stream s1 = code_bits sizes sy @ rest" using s1(3) s(3) by simp
  have "starts (bit_buf s1) l l c" by (rule starts_stream [OF st c]) (use s1(5) l in simp_all)
  from huff_symbol_code [OF assms c this] obtain e where
    "huff_symbol t s1 = (Inr (e, l), s1)" "(if 0 \<le> look_up t (bit_buf s1) then e AND 511 else e) = sy" by blast
  moreover have "l \<le> 15" using built_symbol [OF assms] c by (metis prod.inject)
  ultimately have "huff_decode t s = (Inr sy, drop_bits l s1)"
    using s1(1) by (simp add: huff_decode_def bnd_def consume_eq give_def)
  moreover note drop_bits_stream [OF s1(2,5)]
  ultimately show "\<exists>s'. huff_decode t s = (Inr sy, s') \<and> frame s' = F \<and> reader_ok s' \<and> stream s' = rest"
    using s st l s1(4) by simp
qed

text \<open>C6: Huffman decoding is right. For all code sizes from which the decompressor builds a table, and every
  symbol with a code, reading the bits of its canonical code (RFC 1951: codes of a length in the order of
  the symbols, shorter codes first) yields the symbol, takes exactly these bits and touches nothing else,
  however the bits are spread over the bit buffer and the bytes still to read.\<close>

theorem huffman_decoding:
  assumes "sizes_ok sizes" and "make_table sizes = Inr (look, tree)" and "has_code sizes sy"
    and "reader_ok s" and "stream s = code_bits sizes sy @ rest"
  shows "\<exists>s'. huff_decode (t\<lparr>m_look_up := look, m_tree := tree\<rparr>) s = (Inr sy, s') \<and>
    frame s' = frame s \<and> reader_ok s' \<and> stream s' = rest"
  using runs_huff_decode [OF built_make_table [OF assms(1,2)] assms(3), of "frame s" t] assms(4,5)
  by (auto simp: runs_def)

lemma first_code_numeral:
  "first_code sizes (numeral k) = (if pred_numeral k = 0 then 0
     else 2 * (first_code sizes (pred_numeral k) + count_list sizes (pred_numeral k)))"
  by (simp add: numeral_eq_Suc)

lemma first_code_1: "first_code sizes (Suc 0) = 0"
  by simp

lemma two_codes: "kraft [1, 1]" "sizes_ok [1, 1]"
  by (rule kraft_def [THEN iffD2, OF disjI1], simp add: first_code_numeral first_code_1 del: first_code.simps)
    (simp add: sizes_ok_def)

theorem huffman_decoding_witness:
  "\<exists>look tree s'. make_table [1, 1] = Inr (look, tree) \<and>
     huff_decode (table_zero\<lparr>m_look_up := look, m_tree := tree\<rparr>) (tinfl_start [1] [] 0) = (Inr 1, s')"
proof -
  obtain look tree where m: "make_table [1, 1] = Inr (look, tree)"
    using make_table_cases [OF two_codes(2)] two_codes(1) by (auto split: if_splits)
  have s: "stream (tinfl_start [1] [] 0) = code_bits [1, 1] 1 @ [False, False, False, False, False, False, False]"
    by (simp add: stream_def tinfl_start_def code_bits_def code_of_def upt_rec bit_0)
  have "has_code [1, 1] 1" by (simp add: has_code_def)
  moreover have "reader_ok (tinfl_start [1] [] 0)"
    using tinfl_start_ok(1) [of "[1]" "[]" 0] by (simp add: reader_ok_def tinfl_start_def)
  ultimately show ?thesis using huffman_decoding [OF two_codes(2) m _ _ s, of table_zero] m by blast
qed

end
