(* ===== verification/Inflate_Tokens.thy ===== *)
theory Inflate_Tokens
  imports Huffman_Decode
begin

text \<open>
  Compressed data: literals and matches, written as bits with two code tables and a code for the end,
  and the bytes they stand for. The loops of the decompressor over symbols turn the ones into the
  others.
\<close>

section \<open>Tokens and what they stand for\<close>

text \<open>A match has a length symbol (from 257 on) and a distance symbol, each with its extra bits.\<close>

datatype token = Lit byte | Match nat nat nat nat

definition nat_bits :: "nat \<Rightarrow> nat \<Rightarrow> bool list" where
  "nat_bits n v = map (bit v) [0..<n]"

fun token_bits :: "nat list \<Rightarrow> nat list \<Rightarrow> token \<Rightarrow> bool list" where
  "token_bits lit dst (Lit b) = code_bits lit (unat b)"
| "token_bits lit dst (Match i x j y) =
     code_bits lit (257 + i) @ nat_bits (s_length_extra ! i) x @ code_bits dst j @ nat_bits (s_dist_extra ! j) y"

definition tokens_bits :: "nat list \<Rightarrow> nat list \<Rightarrow> token list \<Rightarrow> bool list" where
  "tokens_bits lit dst ts = concat (map (token_bits lit dst) ts) @ code_bits lit 256"

fun token_ok :: "nat list \<Rightarrow> nat list \<Rightarrow> token \<Rightarrow> bool" where
  "token_ok lit dst (Lit b) \<longleftrightarrow> has_code lit (unat b)"
| "token_ok lit dst (Match i x j y) \<longleftrightarrow> has_code lit (257 + i) \<and> i < 29 \<and> x < 2 ^ (s_length_extra ! i) \<and>
     has_code dst j \<and> j < 30 \<and> y < 2 ^ (s_dist_extra ! j)"

fun lz_copy :: "nat \<Rightarrow> nat \<Rightarrow> byte list \<Rightarrow> byte list" where
  "lz_copy 0 d out = out"
| "lz_copy (Suc n) d out = lz_copy n d (out @ [out ! (length out - d)])"

fun expand :: "token list \<Rightarrow> byte list \<Rightarrow> byte list option" where
  "expand [] out = Some out"
| "expand (Lit b # ts) out = expand ts (out @ [b])"
| "expand (Match i x j y # ts) out =
     (if s_dist_base ! j + y \<le> length out then expand ts (lz_copy (s_length_base ! i + x) (s_dist_base ! j + y) out) else None)"

lemma length_lz_copy [simp]: "length (lz_copy n d out) = length out + n"
  by (induction n d out rule: lz_copy.induct) simp_all

lemma expand_length: "expand ts out = Some out' \<Longrightarrow> length out \<le> length out'"
  by (induction ts out rule: expand.induct) (fastforce split: if_splits)+

lemma lz_copy_add: "lz_copy (a + b) d out = lz_copy b d (lz_copy a d out)"
  by (induction a d out rule: lz_copy.induct) simp_all

lemma lz_copy_far:
  "n \<le> d \<Longrightarrow> d \<le> length out \<Longrightarrow> lz_copy n d out = out @ take n (drop (length out - d) out)"
proof (induction n d out rule: lz_copy.induct)
  case (2 n d out)
  let ?b = "out ! (length out - d)"
  have lt: "length out - d < length out" using 2(2,3) by linarith
  have "drop (length out - d) out = ?b # drop (Suc (length out - d)) out" using lt by (simp add: Cons_nth_drop_Suc)
  moreover have "drop (Suc (length out) - d) (out @ [?b]) = drop (Suc (length out - d)) out @ [?b]"
    using 2(3) lt by (simp add: Suc_diff_le)
  moreover have "n \<le> length (drop (Suc (length out - d)) out)" using 2(2,3) by simp
  ultimately show ?case using 2 by simp
qed simp

section \<open>Copying inside the output\<close>

lemma copy1_lz:
  assumes "1 \<le> d" and "src + d = dst" and "dst < length buf"
  shows "take (Suc dst) (copied1 src dst buf) = lz_copy 1 d (take dst buf)"
  using assms by (auto simp: copied1_def take_Suc_conv_app_nth)

lemma copy1_length [simp]: "length (copied1 src dst buf) = length buf"
  by (simp add: copied1_def)

lemma copy_threes_lz:
  "1 \<le> d \<Longrightarrow> src + d = dst \<Longrightarrow> dst + n \<le> length buf \<Longrightarrow>
   take (dst + n) (copied_threes n src dst buf) = lz_copy n d (take dst buf) \<and> length (copied_threes n src dst buf) = length buf"
proof (induction n src dst buf rule: copied_threes.induct)
  case (1 n src dst buf)
  let ?b1 = "copied1 src dst buf" let ?b2 = "copied1 (src + 1) (dst + 1) ?b1" let ?b3 = "copied1 (src + 2) (dst + 2) ?b2"
  have c1: "take (Suc dst) ?b1 = lz_copy 1 d (take dst buf)" by (rule copy1_lz) (use 1(2-4) in simp_all)
  have c2: "take (Suc (dst + 1)) ?b2 = lz_copy 1 d (take (dst + 1) ?b1)" by (rule copy1_lz) (use 1(2-4) in simp_all)
  have c3: "take (Suc (dst + 2)) ?b3 = lz_copy 1 d (take (dst + 2) ?b2)" by (rule copy1_lz) (use 1(2-4) in simp_all)
  have c: "take (dst + 3) ?b3 = lz_copy 3 d (take dst buf)"
    using c1 c2 c3 lz_copy_add [of 1 1 d] lz_copy_add [of 2 1 d] by (simp add: numeral_eq_Suc)
  have "take (dst + 3 + n) (copied_threes n (src + 3) (dst + 3) ?b3) = lz_copy n d (take (dst + 3) ?b3) \<and>
      length (copied_threes n (src + 3) (dst + 3) ?b3) = length ?b3"
    by (rule 1(1)) (use 1(2-4) in simp_all)
  moreover have "copied_threes (Suc (Suc (Suc n))) src dst buf = copied_threes n (src + 3) (dst + 3) ?b3" by simp
  moreover have "lz_copy (Suc (Suc (Suc n))) d (take dst buf) = lz_copy n d (lz_copy 3 d (take dst buf))"
    using lz_copy_add [of 3 n d "take dst buf"] by (simp add: numeral_3_eq_3)
  moreover have "dst + Suc (Suc (Suc n)) = dst + 3 + n" by simp
  ultimately show ?case using c by (simp only: copy1_length simp_thms)
next
  case (2 src dst buf)
  let ?b1 = "copied1 src dst buf"
  have c1: "take (Suc dst) ?b1 = lz_copy 1 d (take dst buf)" by (rule copy1_lz) (use 2 in simp_all)
  have c2: "take (Suc (dst + 1)) (copied1 (src + 1) (dst + 1) ?b1) = lz_copy 1 d (take (dst + 1) ?b1)"
    by (rule copy1_lz) (use 2 in simp_all)
  show ?case using c1 c2 lz_copy_add [of 1 1 d "take dst buf"] by (simp add: numeral_eq_Suc)
next
  case (3 src dst buf)
  then show ?case using copy1_lz [of d src dst buf] by simp
qed simp

lemma copy_threes_small:
  "copied_threes 1 src dst buf = copied1 src dst buf"
  "copied_threes 2 src dst buf = copied1 (src + 1) (dst + 1) (copied1 src dst buf)"
  by (simp_all add: numeral_2_eq_2)

lemma copy8_lz:
  assumes "8 \<le> d" and "src + d = dst" and "dst + 8 \<le> length buf"
  shows "take (dst + 8) (copied8 src dst buf) = lz_copy 8 d (take dst buf)" and "length (copied8 src dst buf) = length buf"
proof -
  have "take 8 (drop src buf) = take 8 (drop src (take dst buf))"
    using assms(1,2) by (simp add: drop_take)
  then show "take (dst + 8) (copied8 src dst buf) = lz_copy 8 d (take dst buf)"
    using assms lz_copy_far [of 8 d "take dst buf"] by (auto simp: copied8_def)
qed (use assms in \<open>simp add: copied8_def\<close>)

lemma copy_eights_lz:
  "8 \<le> d \<Longrightarrow> src + d = dst \<Longrightarrow> dst + 8 * k \<le> length buf \<Longrightarrow>
   take (dst + 8 * k) (copied_eights k src dst buf) = lz_copy (8 * k) d (take dst buf) \<and> length (copied_eights k src dst buf) = length buf"
proof (induction k src dst buf rule: copied_eights.induct)
  case (2 k src dst buf)
  have c: "take (dst + 8) (copied8 src dst buf) = lz_copy 8 d (take dst buf)" "length (copied8 src dst buf) = length buf"
    by (rule copy8_lz, use 2(2-4) in simp_all)+
  have "take (dst + 8 + 8 * k) (copied_eights k (src + 8) (dst + 8) (copied8 src dst buf)) =
      lz_copy (8 * k) d (take (dst + 8) (copied8 src dst buf)) \<and>
      length (copied_eights k (src + 8) (dst + 8) (copied8 src dst buf)) = length (copied8 src dst buf)"
    by (rule 2(1)) (use 2(2-4) c in simp_all)
  then show ?case using c lz_copy_add [of 8 "8 * k" d "take dst buf"] by (simp add: add.assoc)
qed simp

lemma fast_copy_lz:
  assumes "1 \<le> d" and "d \<le> dst" and "dst + n \<le> length buf"
  shows "take (dst + n) (fast_copied n d (dst - d) dst buf) = lz_copy n d (take dst buf)"
    and "length (fast_copied n d (dst - d) dst buf) = length buf"
proof -
  let ?k = "n div 8" and ?m = "n AND 7"
  have m: "?m = n mod 8" using take_bit_eq_mask [of 3 n] by (simp add: take_bit_eq_mod mask_eq_exp_minus_1)
  let ?b = "copied_eights ?k (dst - d) dst buf" and ?dst = "dst + 8 * ?k"
  have "take (dst + n) (fast_copied n d (dst - d) dst buf) = lz_copy n d (take dst buf) \<and>
      length (fast_copied n d (dst - d) dst buf) = length buf"
  proof (cases "9 \<le> n \<and> n \<le> d")
    case True
    have fit: "?dst + ?m = dst + n" by (simp add: m)
    have e: "take ?dst ?b = lz_copy (8 * ?k) d (take dst buf) \<and> length ?b = length buf"
      by (rule copy_eights_lz) (use True assms fit in simp_all)
    have t: "take (?dst + ?m) (copied_threes ?m (dst - d + 8 * ?k) ?dst ?b) = lz_copy ?m d (take ?dst ?b) \<and>
        length (copied_threes ?m (dst - d + 8 * ?k) ?dst ?b) = length ?b"
      by (rule copy_threes_lz) (use assms e fit in simp_all)
    have "fast_copied n d (dst - d) dst buf = copied_threes ?m (dst - d + 8 * ?k) ?dst ?b"
    proof -
      consider "?m = 0" | "?m = 1" | "?m = 2" | "3 \<le> ?m" by linarith
      then show ?thesis using True by cases (simp_all add: fast_copied_def Let_def copy_threes_small)
    qed
    moreover have "lz_copy ?m d (lz_copy (8 * ?k) d (take dst buf)) = lz_copy n d (take dst buf)"
      using lz_copy_add [of "8 * ?k" ?m d "take dst buf"] m by simp
    ultimately show ?thesis using e t fit by simp
  next
    case False
    then show ?thesis using copy_threes_lz [OF assms(1) _ assms(3), of "dst - d"] assms(2) by (auto simp: fast_copied_def)
  qed
  then show "take (dst + n) (fast_copied n d (dst - d) dst buf) = lz_copy n d (take dst buf)"
    "length (fast_copied n d (dst - d) dst buf) = length buf" by simp_all
qed

section \<open>Writing\<close>

text \<open>The output so far, and writing that turns it into \<open>out\<close>.\<close>

definition holds :: "inflator \<Rightarrow> byte list \<Rightarrow> bool" where
  "holds F out \<longleftrightarrow> out_cur F = length out \<and> length out \<le> length (out_buf F) \<and> take (length out) (out_buf F) = out"

definition wrote :: "inflator \<Rightarrow> byte list \<Rightarrow> inflator \<Rightarrow> bool" where
  "wrote F out F' \<longleftrightarrow> (\<exists>buf. F' = F\<lparr>out_buf := buf, out_cur := length out\<rparr> \<and> length buf = length (out_buf F)) \<and> holds F' out"

lemma wrote_trans: "wrote F a F' \<Longrightarrow> wrote F' b F'' \<Longrightarrow> wrote F b F''"
  by (auto simp: wrote_def)

lemma wrote_self: "holds F out \<Longrightarrow> wrote F out F"
  by (auto simp: wrote_def holds_def intro!: exI [of _ "out_buf F"])

lemma wrote_holds: "wrote F out F' \<Longrightarrow> holds F' out"
  by (simp add: wrote_def)

lemma wrote_simps:
  "wrote F out F' \<Longrightarrow> m_tables F' = m_tables F \<and> length (out_buf F') = length (out_buf F) \<and> in_buf F' = in_buf F \<and>
     decomp_flags F' = decomp_flags F \<and> m_table_sizes F' = m_table_sizes F \<and> m_check_adler32 F' = m_check_adler32 F"
  by (auto simp: wrote_def)

text \<open>A change of the output alone is not seen by the reading side.\<close>

lemma set_output:
  assumes "reader_ok s" and "length buf = length (out_buf s)" and "k \<le> length buf"
  shows "reader_ok (s\<lparr>out_buf := buf, out_cur := k\<rparr>)" and "stream (s\<lparr>out_buf := buf, out_cur := k\<rparr>) = stream s"
    and "frame (s\<lparr>out_buf := buf, out_cur := k\<rparr>) = (frame s)\<lparr>out_buf := buf, out_cur := k\<rparr>"
proof -
  show "stream (s\<lparr>out_buf := buf, out_cur := k\<rparr>) = stream s" by (simp add: stream_def)
  show "reader_ok (s\<lparr>out_buf := buf, out_cur := k\<rparr>)"
    using assms by (simp add: reader_ok_def inflator_ok_def arrays_ok_def)
  show "frame (s\<lparr>out_buf := buf, out_cur := k\<rparr>) = (frame s)\<lparr>out_buf := buf, out_cur := k\<rparr>"
    by (intro inflator.equality) (simp_all add: frame_def)
qed

lemma put_byte_holds:
  assumes "holds (frame s) out" and "reader_ok s" and "length out < length (out_buf s)"
  shows "\<exists>s'. put_byte b s = (Inr (), s') \<and> wrote (frame s) (out @ [b]) (frame s') \<and> reader_ok s' \<and> stream s' = stream s \<and>
    num_bits s' = num_bits s"
proof -
  let ?buf = "(out_buf s)[out_cur s := b]" and ?s = "s\<lparr>out_buf := (out_buf s)[out_cur s := b], out_cur := out_cur s + 1\<rparr>"
  have h: "out_cur s = length out" "take (length out) (out_buf s) = out" using assms(1) by (simp_all add: holds_def)
  note o = set_output [OF assms(2), of ?buf "length out + 1"]
  have "take (length out + 1) ?buf = out @ [b]" using h assms(3) by (simp add: take_Suc_conv_app_nth)
  then have "wrote (frame s) (out @ [b]) (frame ?s)" using o assms(3) h by (auto simp: wrote_def holds_def)
  then show ?thesis using o assms(3) h by (simp add: put_byte_def)
qed

lemma copy_from_holds:
  assumes "holds (frame s) out" and "reader_ok s" and "1 \<le> d" and "d \<le> length out" and "length out + n \<le> length (out_buf s)"
  shows "\<exists>s'. copy_from n d s = (Inr (), s') \<and> wrote (frame s) (lz_copy n d out) (frame s') \<and> reader_ok s' \<and> stream s' = stream s"
proof -
  have h: "out_cur s = length out" "take (length out) (out_buf s) = out" using assms(1) by (simp_all add: holds_def)
  have "int (length out) - int d = int (length out - d)" using assms(4) by simp
  moreover have "length out - d < length (out_buf s)" using assms(3,4,5) by linarith
  then have "nat (int (length out - d) mod int (length (out_buf s))) = length out - d" by (metis mod_less nat_int zmod_int)
  ultimately have src: "match_source s (length out) d = length out - d" by (simp only: match_source_def if_cancel)
  let ?buf = "fast_copied n d (length out - d) (length out) (out_buf s)"
  note f = fast_copy_lz [OF assms(3-5), unfolded h(2)]
  note o = set_output [OF assms(2) f(2), of "length out + n"]
  have "copy_from n d s = (Inr (), s\<lparr>out_buf := ?buf, out_cur := length out + n\<rparr>)"
    using h src assms(4,5) by (simp add: copy_from_eq Let_def)
  moreover have "wrote (frame s) (lz_copy n d out) (frame (s\<lparr>out_buf := ?buf, out_cur := length out + n\<rparr>))"
    using o f assms(5) by (auto simp: wrote_def holds_def)
  ultimately show ?thesis using o assms(5) f(2) by simp
qed

section \<open>Matches\<close>

lemma runs_nat_bits: "x < 2 ^ n \<Longrightarrow> n \<le> 16 \<Longrightarrow> runs F (get_bits n) (nat_bits n x) x F"
  using runs_get_bits(1) [of "nat_bits n x" n F] by (simp add: nat_bits_def bits_value_nat_bits)

lemma runs_with_extra:
  assumes "i < length bases" and "i < length extras" and "x < 2 ^ (extras ! i)" and "extras ! i \<le> 16"
  shows "runs F (with_extra bases extras i) (nat_bits (extras ! i) x) (bases ! i + x) F"
proof -
  have "runs F (if extras ! i \<noteq> 0 then get_bits (extras ! i) else give 0) (nat_bits (extras ! i) x) x F"
    using runs_nat_bits [OF assms(3,4)] runs_give [of F 0] assms(3) by (auto simp: nat_bits_def)
  from runs_bnd [OF this, of "\<lambda>x. give (bases ! i + x)" "[]", OF runs_give]
  show ?thesis using assms(1,2) by (simp add: with_extra_def bnd_def read_at_def runs_def)
qed

lemma extras_length: "length s_length_base = 31" "length s_length_extra = 31" "length s_dist_base = 32" "length s_dist_extra = 32"
  by (simp_all add: s_length_base_def s_length_extra_def s_dist_base_def s_dist_extra_def)

lemma extras_small: "i < 29 \<Longrightarrow> s_length_extra ! i \<le> 16" "j < 30 \<Longrightarrow> s_dist_extra ! j \<le> 16" "j < 30 \<Longrightarrow> 1 \<le> s_dist_base ! j"
proof -
  have "list_all (\<lambda>e. e \<le> 16) s_length_extra" "list_all (\<lambda>e. e \<le> 16) s_dist_extra" "list_all (\<lambda>b. 1 \<le> b) (take 30 s_dist_base)"
    by (simp_all add: s_length_extra_def s_dist_extra_def s_dist_base_def)
  then show "i < 29 \<Longrightarrow> s_length_extra ! i \<le> 16" "j < 30 \<Longrightarrow> s_dist_extra ! j \<le> 16" "j < 30 \<Longrightarrow> 1 \<le> s_dist_base ! j"
    by (simp_all add: list_all_length extras_length)
qed

text \<open>The bits of a token that follow its first symbol.\<close>

fun match_bits :: "nat list \<Rightarrow> token \<Rightarrow> bool list" where
  "match_bits dst (Lit b) = []"
| "match_bits dst (Match i x j y) =
     nat_bits (s_length_extra ! i) x @ code_bits dst j @ nat_bits (s_dist_extra ! j) y"

lemma runs_copy_match:
  assumes "holds F out" and "built dst (m_tables F ! 1)" and "token_ok lit dst (Match i x j y)"
    and "s_dist_base ! j + y \<le> length out" and "length out + (s_length_base ! i + x) \<le> length (out_buf F)"
  shows "runs_to F (copy_match (257 + i)) (match_bits dst (Match i x j y))
    (\<lambda>_. wrote F (lz_copy (s_length_base ! i + x) (s_dist_base ! j + y) out))"
proof -
  have t: "i < 29" "x < 2 ^ (s_length_extra ! i)" "has_code dst j" "j < 30" "y < 2 ^ (s_dist_extra ! j)"
    using assms(3) by simp_all
  note e = extras_small(1) [OF t(1)] extras_small(2,3) [OF t(4)]
  let ?n = "s_length_base ! i + x" and ?d = "s_dist_base ! j + y"
  have "runs_to F (copy_from ?n ?d) [] (\<lambda>_. wrote F (lz_copy ?n ?d out))"
  proof (rule runs_toI)
    fix s rest assume s: "frame s = F" "reader_ok s" "stream s = [] @ rest"
    have b: "out_buf s = out_buf F" using s(1) by auto
    show "\<exists>x' s'. copy_from ?n ?d s = (Inr x', s') \<and> wrote F (lz_copy ?n ?d out) (frame s') \<and> reader_ok s' \<and> stream s' = rest"
      using copy_from_holds [OF _ s(2) _ assms(4), of ?n] assms(1,5) e(3) s by (simp add: b)
  qed
  from runs_then [OF runs_with_extra [of j s_dist_base s_dist_extra y F], of "copy_from ?n", OF _ _ t(5) e(2) this]
  have d: "runs_to F (bnd (with_extra s_dist_base s_dist_extra j) (copy_from ?n)) (nat_bits (s_dist_extra ! j) y @ [])
      (\<lambda>_. wrote F (lz_copy ?n ?d out))"
    using t by (simp add: extras_length)
  have "runs F (\<lambda>s. huff_decode (m_tables s ! 1) s) (code_bits dst j) j F"
    using runs_huff_decode [OF assms(2) t(3)] by (auto simp: runs_def)
  from runs_then [OF this, of "\<lambda>dsym. bnd (with_extra s_dist_base s_dist_extra dsym) (copy_from ?n)", OF d]
  have h: "runs_to F (bnd (\<lambda>s. huff_decode (m_tables s ! 1) s) (\<lambda>dsym. bnd (with_extra s_dist_base s_dist_extra dsym) (copy_from ?n)))
      (code_bits dst j @ nat_bits (s_dist_extra ! j) y @ []) (\<lambda>_. wrote F (lz_copy ?n ?d out))" .
  have "runs F (with_extra s_length_base s_length_extra i) (nat_bits (s_length_extra ! i) x) ?n F"
    by (rule runs_with_extra) (use t e in \<open>simp_all add: extras_length\<close>)
  from runs_then [OF this, of "\<lambda>n. bnd (\<lambda>s. huff_decode (m_tables s ! 1) s)
      (\<lambda>dsym. bnd (with_extra s_dist_base s_dist_extra dsym) (copy_from n))", OF h]
  show ?thesis by (simp add: copy_match_def)
qed

section \<open>Symbols\<close>

text \<open>The first symbol of what is left, and the bits after it.\<close>

fun head_sym :: "token list \<Rightarrow> nat" where
  "head_sym [] = 256"
| "head_sym (Lit b # ts) = unat b"
| "head_sym (Match i x j y # ts) = 257 + i"

fun after_sym :: "nat list \<Rightarrow> nat list \<Rightarrow> token list \<Rightarrow> bool list" where
  "after_sym lit dst [] = []"
| "after_sym lit dst (t # ts) = match_bits dst t @ tokens_bits lit dst ts"

lemma tokens_bits_head: "tokens_bits lit dst ts = code_bits lit (head_sym ts) @ after_sym lit dst ts"
  by (cases ts rule: head_sym.cases) (simp_all add: tokens_bits_def)

lemma tokens_bits_Cons: "tokens_bits lit dst (t # ts) = token_bits lit dst t @ tokens_bits lit dst ts"
  by (simp add: tokens_bits_def)

definition tokens_ok :: "nat list \<Rightarrow> nat list \<Rightarrow> token list \<Rightarrow> bool" where
  "tokens_ok lit dst ts \<longleftrightarrow> has_code lit 256 \<and> length lit \<le> 288 \<and> (\<forall>t \<in> set ts. token_ok lit dst t)"

lemma tokens_ok_Cons: "tokens_ok lit dst (t # ts) \<longleftrightarrow> token_ok lit dst t \<and> tokens_ok lit dst ts"
  by (auto simp: tokens_ok_def)

lemma head_sym_code: "tokens_ok lit dst ts \<Longrightarrow> has_code lit (head_sym ts) \<and> head_sym ts < 288"
  by (cases ts rule: head_sym.cases) (auto simp: tokens_ok_def has_code_def)

lemma unat_byte_less: "unat (b :: byte) < 256"
  using unsigned_less [of b] by simp

text \<open>An entry of a table stands for the symbol in its low nine bits.\<close>

lemma entry_symbol:
  fixes e sy :: nat
  assumes "e AND 511 = sy" and "sy < 288"
  shows "e AND 256 \<noteq> 0 \<longleftrightarrow> 256 \<le> sy" and "(of_nat e :: byte) = of_nat sy"
proof -
  have sy: "sy = e mod 512" using assms(1) take_bit_eq_mask [of 9 e] by (simp add: take_bit_eq_mod mask_eq_exp_minus_1)
  have "sy mod 256 = e mod 256" unfolding sy by (simp add: mod_mod_cancel)
  then have "of_nat (e mod 256) = (of_nat (sy mod 256) :: byte)" by simp
  then show "(of_nat e :: byte) = of_nat sy" by (simp add: of_nat_inverse word_of_nat_eq_iff take_bit_eq_mod)
  have "e AND 256 = (if bit e 8 then 256 else 0)"
  proof -
    have "bit (256 :: nat) n \<longleftrightarrow> n = 8" for n
      using bit_push_bit_iff_nat [of 8 1 n] by (auto simp: bit_Suc_0_iff push_bit_eq_mult)
    then show ?thesis by (intro bit_eqI) (auto simp: bit_and_iff)
  qed
  moreover have "sy = take_bit 9 e" using sy by (simp add: take_bit_eq_mod)
  then have "bit sy 8 = bit e 8" by (simp add: bit_take_bit_iff)
  moreover have "sy div 256 = (if 256 \<le> sy then 1 else 0)" using assms(2) by (auto intro: div_nat_eqI)
  then have "bit sy 8 \<longleftrightarrow> 256 \<le> sy" by (simp add: bit_iff_odd)
  ultimately show "e AND 256 \<noteq> 0 \<longleftrightarrow> 256 \<le> sy" by simp
qed

lemma fast_symbol_stream:
  assumes "built lit (m_tables s ! 0)" and "has_code lit sy" and "sy < 288" and "reader_ok s" and "15 \<le> unat (num_bits s)"
    and "stream s = code_bits lit sy @ rest"
  shows "\<exists>e s'. fast_symbol s = (Inr e, s') \<and> e AND 511 = sy \<and> frame s' = frame s \<and> reader_ok s' \<and> stream s' = rest \<and>
    unat (num_bits s) \<le> unat (num_bits s') + 15"
proof -
  obtain l c where c: "code_of lit sy = (l, c)" by fastforce
  then have l: "l = lit ! sy" by (simp add: code_of_def)
  have l15: "l \<le> 15" using built_symbol [OF assms(1,2)] c by (metis prod.inject)
  then have le: "l \<le> unat (num_bits s)" using assms(5) by simp
  have "starts (bit_buf s) l l c" by (rule starts_stream [OF assms(6) c _ le]) simp
  from huff_symbol_code [OF assms(1,2) c this] obtain e where e: "huff_symbol (m_tables s ! 0) s = (Inr (e, l), s)"
      "(if 0 \<le> look_up (m_tables s ! 0) (bit_buf s) then e AND 511 else e) = sy" by blast
  have "sy AND 511 = sy" using assms(3) take_bit_eq_mask [of 9 sy] by (simp add: take_bit_eq_mod mask_eq_exp_minus_1)
  then have "e AND 511 = sy" using e(2) by (auto split: if_splits)
  moreover have "fast_symbol s = (Inr e, drop_bits l s)" using e(1) l15 by (simp add: fast_symbol_def bnd_def consume_eq give_def)
  moreover note drop_bits_stream [OF assms(4) le]
  moreover have "inflator_ok s" using assms(4) by (simp add: reader_ok_def)
  from drop_bits_extends(5) [OF this le] have "unat (num_bits s) \<le> unat (num_bits (drop_bits l s)) + 15" using l15 by simp
  ultimately show ?thesis using assms(6) l by simp
qed

lemma add_four_stream:
  assumes "reader_ok s" and "unat (num_bits s) < 30" and "4 \<le> length (in_buf s) - in_cur s"
  shows "reader_ok (taken_four s)" and "stream (taken_four s) = stream s" and "frame (taken_four s) = frame s"
    and "30 \<le> unat (num_bits (taken_four s))"
proof -
  let ?b = "\<lambda>i. in_buf s ! (in_cur s + i)"
  let ?s0 = "add_byte (?b 0) (s\<lparr>in_cur := in_cur s + 1\<rparr>)"
  let ?s1 = "add_byte (?b 1) (?s0\<lparr>in_cur := in_cur s + 2\<rparr>)"
  let ?s2 = "add_byte (?b 2) (?s1\<lparr>in_cur := in_cur s + 3\<rparr>)"
  let ?s3 = "add_byte (?b 3) (?s2\<lparr>in_cur := in_cur s + 4\<rparr>)"
  have g0: "get_byte s = (Inr (?b 0), s\<lparr>in_cur := in_cur s + 1\<rparr>)" using assms(3) by (simp add: get_byte_def)
  note a0 = add_byte_stream [OF assms(1) g0]
  have g1: "get_byte ?s0 = (Inr (?b 1), ?s0\<lparr>in_cur := in_cur s + 2\<rparr>)" using assms(3) by (auto simp: get_byte_def add_byte_def)
  note a1 = add_byte_stream [OF a0(1) g1]
  have g2: "get_byte ?s1 = (Inr (?b 2), ?s1\<lparr>in_cur := in_cur s + 3\<rparr>)"
    using assms(3) by (auto simp: get_byte_def add_byte_def numeral_eq_Suc)
  note a2 = add_byte_stream [OF a1(1) g2]
  have g3: "get_byte ?s2 = (Inr (?b 3), ?s2\<lparr>in_cur := in_cur s + 4\<rparr>)"
    using assms(3) by (auto simp: get_byte_def add_byte_def numeral_eq_Suc)
  note a3 = add_byte_stream [OF a2(1) g3]
  note nb = a0(4) a1(4) a2(4) a3(4)
  have n: "unat (num_bits s + 8) = unat (num_bits s) + 8" "unat (num_bits s + 16) = unat (num_bits s) + 16"
    "unat (num_bits s + 24) = unat (num_bits s) + 24"
    using unat_num_add [of "num_bits s" 8] unat_num_add [of "num_bits s" 16] unat_num_add [of "num_bits s" 24] assms(2) by simp_all
  have e: "taken_four s = ?s3"
    using n by (intro inflator.equality) (simp_all add: taken_four_def add_byte_def Let_def or.assoc push_bit_or push_bit_push_bit add.commute)
  show "reader_ok (taken_four s)" "stream (taken_four s) = stream s" "frame (taken_four s) = frame s" "30 \<le> unat (num_bits (taken_four s))"
    using a0 a1 a2 a3 nb assms(2) e by simp_all
qed

section \<open>One pass over literals\<close>

text \<open>What a pass leaves: the output \<open>out1\<close>, the tokens \<open>ts1\<close>, whose first symbol is taken already when the
  pass ends with it, and with them the rest.\<close>

definition passed :: "nat list \<Rightarrow> nat list \<Rightarrow> bool list \<Rightarrow> inflator \<Rightarrow> byte list \<Rightarrow> token list \<Rightarrow> nat option \<Rightarrow> inflator \<Rightarrow> bool" where
  "passed lit dst rest F out1 ts1 r s' \<longleftrightarrow> reader_ok s' \<and> wrote F out1 (frame s') \<and>
     (case r of
        None \<Rightarrow> stream s' = tokens_bits lit dst ts1 @ rest
      | Some e \<Rightarrow> e AND 511 = head_sym ts1 \<and> 256 \<le> head_sym ts1 \<and> stream s' = after_sym lit dst ts1 @ rest)"

lemma slow_literal_pass:
  assumes "built lit (m_tables s ! 0)" and "tokens_ok lit dst ts" and "reader_ok s"
    and "stream s = tokens_bits lit dst ts @ rest" and "holds (frame s) out" and "expand ts out = Some out'"
    and "length out' \<le> length (out_buf s)"
  shows "\<exists>r s' out1 ts1. slow_literal s = (Inr r, s') \<and> passed lit dst rest (frame s) out1 ts1 r s' \<and>
    expand ts1 out1 = Some out' \<and> tokens_ok lit dst ts1 \<and> length ts1 \<le> length ts \<and> (r = None \<longrightarrow> length ts1 < length ts)"
proof -
  note h = head_sym_code [OF assms(2)]
  have "stream s = code_bits lit (head_sym ts) @ after_sym lit dst ts @ rest"
    using assms(4) tokens_bits_head [of lit dst ts] by simp
  then obtain s1 where s1: "huff_decode (m_tables s ! 0) s = (Inr (head_sym ts), s1)" "frame s1 = frame s" "reader_ok s1"
      "stream s1 = after_sym lit dst ts @ rest"
    using runs_huff_decode [OF assms(1), of "head_sym ts" "frame s"] h assms(3) by (auto simp: runs_def)
  show ?thesis
  proof (cases "256 \<le> head_sym ts")
    case True
    have n: "head_sym ts AND 511 = head_sym ts"
      using h take_bit_eq_mask [of 9 "head_sym ts"] by (simp add: take_bit_eq_mod mask_eq_exp_minus_1)
    have "slow_literal s = (Inr (Some (head_sym ts)), s1)" using s1(1) True by (simp add: slow_literal_def bnd_def give_def)
    moreover have "passed lit dst rest (frame s) out ts (Some (head_sym ts)) s1"
      using s1 True n wrote_self [OF assms(5)] by (simp add: passed_def)
    ultimately show ?thesis using assms(2,6) by blast
  next
    case False
    then obtain b us where ts: "ts = Lit b # us" by (cases ts rule: head_sym.cases) auto
    have e: "expand us (out @ [b]) = Some out'" using assms(6) ts by simp
    have len: "length out < length (out_buf s1)" "out_buf s1 = out_buf s"
      using expand_length [OF e] assms(7) arg_cong [OF s1(2), of out_buf] by simp_all
    obtain s2 where s2: "put_byte b s1 = (Inr (), s2)" "wrote (frame s) (out @ [b]) (frame s2)" "reader_ok s2" "stream s2 = stream s1"
      using put_byte_holds [of s1 out b] assms(5) s1(2,3) len by auto
    have "slow_literal s = (Inr None, s2)" using s1(1) s2(1) False ts by (simp add: slow_literal_def bnd_def give_def)
    moreover have "passed lit dst rest (frame s) (out @ [b]) us None s2"
      using s2 s1(4) ts by (simp add: passed_def)
    ultimately show ?thesis using e assms(2) ts by (auto simp: tokens_ok_Cons intro!: exI [of _ "out @ [b]"] exI [of _ us])
  qed
qed

lemma second_literal:
  assumes "built lit (m_tables s ! 0)" and "tokens_ok lit dst ts" and "reader_ok s" and "15 \<le> unat (num_bits s)"
    and "stream s = tokens_bits lit dst ts @ rest" and "holds (frame s) out" and "expand ts (out @ [b]) = Some out'"
    and "length out' \<le> length (out_buf s)" and "length out + 2 \<le> length (out_buf s)" and "of_nat c = b"
  shows "\<exists>r s' out1 ts1. bnd fast_symbol (\<lambda>sym2. bnd (put_byte (of_nat c)) (\<lambda>_.
      if sym2 AND 256 \<noteq> 0 then give (Some sym2) else bnd (put_byte (of_nat sym2)) (\<lambda>_. give None))) s = (Inr r, s') \<and>
    passed lit dst rest (frame s) out1 ts1 r s' \<and> expand ts1 out1 = Some out' \<and> tokens_ok lit dst ts1 \<and> length ts1 \<le> length ts"
proof -
  note h = head_sym_code [OF assms(2)]
  have "stream s = code_bits lit (head_sym ts) @ after_sym lit dst ts @ rest"
    using assms(5) tokens_bits_head [of lit dst ts] by simp
  then obtain e s1 where s1: "fast_symbol s = (Inr e, s1)" "e AND 511 = head_sym ts" "frame s1 = frame s" "reader_ok s1"
      "stream s1 = after_sym lit dst ts @ rest"
    using fast_symbol_stream [OF assms(1) _ _ assms(3,4)] h by blast
  have buf: "out_buf s1 = out_buf s" using arg_cong [OF s1(3), of out_buf] by simp
  obtain s2 where s2: "put_byte b s1 = (Inr (), s2)" "wrote (frame s) (out @ [b]) (frame s2)" "reader_ok s2" "stream s2 = stream s1"
    using put_byte_holds [of s1 out b] assms(6,9) s1(3,4) buf by auto
  note sym = entry_symbol [OF s1(2)]
  show ?thesis
  proof (cases "256 \<le> head_sym ts")
    case True
    then have "passed lit dst rest (frame s) (out @ [b]) ts (Some e) s2"
      using s2 s1 by (simp add: passed_def)
    moreover have "bnd fast_symbol (\<lambda>sym2. bnd (put_byte (of_nat c)) (\<lambda>_.
        if sym2 AND 256 \<noteq> 0 then give (Some sym2) else bnd (put_byte (of_nat sym2)) (\<lambda>_. give None))) s = (Inr (Some e), s2)"
      using s1(1) s2(1) sym(1) h True assms(10) by (simp add: bnd_def give_def)
    ultimately show ?thesis using assms(2,7) by blast
  next
    case False
    then obtain d us where ts: "ts = Lit d # us" by (cases ts rule: head_sym.cases) auto
    have x: "expand us (out @ [b] @ [d]) = Some out'" using assms(7) ts by simp
    have len: "length (out @ [b]) < length (out_buf s2)" using wrote_simps [OF s2(2)] assms(9) by simp
    obtain s3 where s3: "put_byte d s2 = (Inr (), s3)" "wrote (frame s2) (out @ [b] @ [d]) (frame s3)" "reader_ok s3" "stream s3 = stream s2"
      using put_byte_holds [OF wrote_holds [OF s2(2)] s2(3) len, of d] by auto
    have "(of_nat e :: byte) = d" using sym(2) h ts by simp
    then have "bnd fast_symbol (\<lambda>sym2. bnd (put_byte (of_nat c)) (\<lambda>_.
        if sym2 AND 256 \<noteq> 0 then give (Some sym2) else bnd (put_byte (of_nat sym2)) (\<lambda>_. give None))) s = (Inr None, s3)"
      using s1(1) s2(1) s3(1) sym(1) h False assms(10) by (simp add: bnd_def give_def)
    moreover have "passed lit dst rest (frame s) (out @ [b] @ [d]) us None s3"
      using s3 s2(4) s1(5) ts wrote_trans [OF s2(2) s3(2)] by (simp add: passed_def)
    ultimately show ?thesis using x assms(2) ts
      by (auto simp: tokens_ok_Cons intro!: exI [of _ "out @ [b] @ [d]"] exI [of _ us])
  qed
qed

lemma fast_literals_pass:
  assumes "built lit (m_tables s ! 0)" and "tokens_ok lit dst ts" and "reader_ok s"
    and "stream s = tokens_bits lit dst ts @ rest" and "holds (frame s) out" and "expand ts out = Some out'"
    and "length out' \<le> length (out_buf s)" and "4 \<le> length (in_buf s) - in_cur s" and "2 \<le> length (out_buf s) - out_cur s"
  shows "\<exists>r s' out1 ts1. two_literals s = (Inr r, s') \<and> passed lit dst rest (frame s) out1 ts1 r s' \<and>
    expand ts1 out1 = Some out' \<and> tokens_ok lit dst ts1 \<and> length ts1 \<le> length ts \<and> (r = None \<longrightarrow> length ts1 < length ts)"
proof -
  define s0 where "s0 = (if num_bits s < 30 then taken_four s else s)"
  have lt: "num_bits s < 30 \<longleftrightarrow> unat (num_bits s) < 30" using of_nat_less_num [of 30] by simp
  have s0: "reader_ok s0" "stream s0 = stream s" "frame s0 = frame s" "30 \<le> unat (num_bits s0)"
    using add_four_stream [OF assms(3) _ assms(8)] assms(3) lt by (auto simp: s0_def)
  have t0: "m_tables s0 = m_tables s" "out_buf s0 = out_buf s"
    using arg_cong [OF s0(3), of m_tables] arg_cong [OF s0(3), of out_buf] by simp_all
  note h = head_sym_code [OF assms(2)]
  have "stream s0 = code_bits lit (head_sym ts) @ after_sym lit dst ts @ rest"
    using assms(4) s0(2) tokens_bits_head [of lit dst ts] by simp
  then obtain e s1 where s1: "fast_symbol s0 = (Inr e, s1)" "e AND 511 = head_sym ts" "frame s1 = frame s" "reader_ok s1"
      "stream s1 = after_sym lit dst ts @ rest" "15 \<le> unat (num_bits s1)"
    using fast_symbol_stream [of lit s0 "head_sym ts"] h assms(1) s0 t0 by fastforce
  note sym = entry_symbol [OF s1(2)]
  let ?tail = "\<lambda>c :: nat. bnd fast_symbol (\<lambda>sym2. bnd (put_byte (of_nat c)) (\<lambda>_.
      if sym2 AND 256 \<noteq> 0 then give (Some sym2) else bnd (put_byte (of_nat sym2)) (\<lambda>_. give None)))"
  have f: "two_literals s = (if e AND 256 \<noteq> 0 then give (Some e) else ?tail e) s1"
    using s1(1) by (simp add: two_literals_def bnd_def s0_def)
  show ?thesis
  proof (cases "256 \<le> head_sym ts")
    case True
    then have "passed lit dst rest (frame s) out ts (Some e) s1"
      using s1 wrote_self [OF assms(5)] by (simp add: passed_def)
    moreover have "two_literals s = (Inr (Some e), s1)" using f sym(1) h True by (simp add: give_def)
    ultimately show ?thesis using assms(2,6) by blast
  next
    case False
    then obtain b us where ts: "ts = Lit b # us" by (cases ts rule: head_sym.cases) auto
    have buf: "out_buf s1 = out_buf s" "m_tables s1 = m_tables s"
      using arg_cong [OF s1(3), of out_buf] arg_cong [OF s1(3), of m_tables] by simp_all
    have "(of_nat e :: byte) = b" using sym(2) h ts by simp
    moreover have "length out + 2 \<le> length (out_buf s1)" using assms(5,9) buf by (simp add: holds_def)
    ultimately obtain r s' out1 ts1 where p: "?tail e s1 = (Inr r, s')" "passed lit dst rest (frame s1) out1 ts1 r s'"
        "expand ts1 out1 = Some out'" "tokens_ok lit dst ts1" "length ts1 \<le> length us"
      using second_literal [of lit s1 dst us rest out b out' e] assms(1,2,5,6,7) s1 ts buf by (auto simp: tokens_ok_Cons)
    have "two_literals s = (Inr r, s')" using f sym(1) h False p(1) by simp
    then show ?thesis using p s1(3) ts by fastforce
  qed
qed

lemma literal_pass_stream:
  assumes "built lit (m_tables s ! 0)" and "tokens_ok lit dst ts" and "reader_ok s"
    and "stream s = tokens_bits lit dst ts @ rest" and "holds (frame s) out" and "expand ts out = Some out'"
    and "length out' \<le> length (out_buf s)"
  shows "\<exists>r s' out1 ts1. literal_pass s = (Inr r, s') \<and> passed lit dst rest (frame s) out1 ts1 r s' \<and>
    expand ts1 out1 = Some out' \<and> tokens_ok lit dst ts1 \<and> length ts1 \<le> length ts \<and> (r = None \<longrightarrow> length ts1 < length ts)"
proof (cases "length (in_buf s) - in_cur s < 4 \<or> length (out_buf s) - out_cur s < 2")
  case True
  with slow_literal_pass [OF assms] show ?thesis by (simp add: literal_pass_eq)
next
  case False
  then have "4 \<le> length (in_buf s) - in_cur s" "2 \<le> length (out_buf s) - out_cur s" by simp_all
  with fast_literals_pass [OF assms] False show ?thesis by (simp add: literal_pass_eq)
qed

section \<open>All symbols of a block\<close>

lemma inflate_symbols_stream:
  assumes "built lit (m_tables s ! 0)" and "built dst (m_tables s ! 1)" and "tokens_ok lit dst ts" and "reader_ok s"
    and "stream s = tokens_bits lit dst ts @ rest" and "holds (frame s) out" and "expand ts out = Some out'"
    and "length out' \<le> length (out_buf s)" and "length ts < fuel"
  shows "\<exists>s'. inflate_symbols fuel s = (Inr (), s') \<and> wrote (frame s) out' (frame s') \<and> reader_ok s' \<and> stream s' = rest"
  using assms
proof (induction fuel arbitrary: s ts out)
  case (Suc fuel s ts out)
  obtain r s1 out1 ts1 where p: "literal_pass s = (Inr r, s1)" "reader_ok s1" "wrote (frame s) out1 (frame s1)"
      "expand ts1 out1 = Some out'" "tokens_ok lit dst ts1" "length ts1 \<le> length ts" "r = None \<longrightarrow> length ts1 < length ts"
    and c: "case r of None \<Rightarrow> stream s1 = tokens_bits lit dst ts1 @ rest
      | Some e \<Rightarrow> e AND 511 = head_sym ts1 \<and> 256 \<le> head_sym ts1 \<and> stream s1 = after_sym lit dst ts1 @ rest"
    using literal_pass_stream [OF Suc.prems(1,3-8)] by (auto simp: passed_def)
  have t1: "m_tables s1 = m_tables s" "length (out_buf s1) = length (out_buf s)" "holds (frame s1) out1"
    using wrote_simps [OF p(3)] wrote_holds [OF p(3)] by simp_all
  show ?case
  proof (cases r)
    case None
    then have st: "stream s1 = tokens_bits lit dst ts1 @ rest" and lt: "length ts1 < fuel" using c p(7) Suc.prems(9) by simp_all
    obtain s2 where "inflate_symbols fuel s1 = (Inr (), s2)" "wrote (frame s1) out' (frame s2)" "reader_ok s2" "stream s2 = rest"
      using Suc.IH [OF _ _ p(5,2) st t1(3) p(4) _ lt] Suc.prems(1,2,8) t1 by auto
    then show ?thesis using p(1) None wrote_trans [OF p(3)] by (auto simp: bnd_def)
  next
    case (Some e)
    then have e: "e AND 511 = head_sym ts1" "256 \<le> head_sym ts1" "stream s1 = after_sym lit dst ts1 @ rest"
      using c by simp_all
    show ?thesis
    proof (cases ts1)
      case Nil
      then show ?thesis using p(1,2,3,4) Some e by (simp add: bnd_def give_def)
    next
      case (Cons t us)
      then obtain i x j y where t: "t = Match i x j y" using e(2) unat_byte_less by (cases t) (simp_all add: not_le [symmetric])
      let ?n = "s_length_base ! i + x" and ?d = "s_dist_base ! j + y"
      have x: "?d \<le> length out1" "expand us (lz_copy ?n ?d out1) = Some out'" using p(4) Cons t by (simp_all split: if_splits)
      have ok: "token_ok lit dst (Match i x j y)" "tokens_ok lit dst us" using p(5) Cons t by (simp_all add: tokens_ok_Cons)
      have fit: "length out1 + ?n \<le> length (out_buf (frame s1))"
        using expand_length [OF x(2)] Suc.prems(8) t1(2) by simp
      have "built dst (m_tables (frame s1) ! 1)" using Suc.prems(2) t1(1) by simp
      from runs_copy_match [OF t1(3) this ok(1) x(1) fit]
      moreover have "stream s1 = match_bits dst (Match i x j y) @ tokens_bits lit dst us @ rest" using e(3) Cons t by simp
      ultimately obtain u s2 where "copy_match (257 + i) s1 = (Inr u, s2)" and s2: "wrote (frame s1) (lz_copy ?n ?d out1) (frame s2)"
          "reader_ok s2" "stream s2 = tokens_bits lit dst us @ rest"
        by (rule runs_toE [OF _ refl p(2)])
      then have cm: "copy_match (257 + i) s1 = (Inr (), s2)" by simp
      have t2: "m_tables s2 = m_tables s" "length (out_buf s2) = length (out_buf s)" "holds (frame s2) (lz_copy ?n ?d out1)"
        using wrote_simps [OF s2(1)] wrote_holds [OF s2(1)] t1 by simp_all
      have "length us < fuel" using p(6) Suc.prems(9) Cons by simp
      then obtain s3 where s3: "inflate_symbols fuel s2 = (Inr (), s3)" "wrote (frame s2) out' (frame s3)" "reader_ok s3" "stream s3 = rest"
        using Suc.IH [OF _ _ ok(2) s2(2,3) t2(3) x(2)] Suc.prems(1,2,8) t2 by auto
      have "e AND 511 = 257 + i" using e(1) Cons t by simp
      then have "inflate_symbols (Suc fuel) s = (Inr (), s3)" using p(1) Some cm s3(1) by (simp add: bnd_def)
      then show ?thesis using s3 wrote_trans [OF p(3) wrote_trans [OF s2(1) s3(2)]] by simp
    qed
  qed
qed simp

end
