(* ===== verification/Inflate_Blocks.thy ===== *)
theory Inflate_Blocks
  imports Inflate_Tokens
begin

text \<open>
  Whole blocks: stored, with the fixed codes, or with codes of their own, and the streams made of
  them. The decompressor restores what they stand for.
\<close>

section \<open>Building tables\<close>

text \<open>What a block keeps besides the output it extends.\<close>

definition grew :: "inflator \<Rightarrow> byte list \<Rightarrow> inflator \<Rightarrow> bool" where
  "grew F out F' \<longleftrightarrow> holds F' out \<and> length (out_buf F') = length (out_buf F) \<and> in_buf F' = in_buf F \<and>
     decomp_flags F' = decomp_flags F \<and> m_check_adler32 F' = m_check_adler32 F \<and> m_z_adler32 F' = m_z_adler32 F"

lemma grew_trans: "grew F a F' \<Longrightarrow> grew F' b F'' \<Longrightarrow> grew F b F''"
  by (simp add: grew_def)

lemma grew_wrote: "wrote F out F' \<Longrightarrow> grew F out F'"
  by (auto simp: grew_def wrote_def)

text \<open>A change of the tables alone.\<close>

definition retabled :: "inflator \<Rightarrow> inflator \<Rightarrow> bool" where
  "retabled s s' \<longleftrightarrow> (\<exists>T Z L. s' = s\<lparr>m_tables := T, m_table_sizes := Z, m_len_codes := L\<rparr>)"

lemma retabled_refl: "retabled s s"
  unfolding retabled_def by (intro exI [of _ "m_tables s"] exI [of _ "m_table_sizes s"] exI [of _ "m_len_codes s"]) simp

lemma retabled_trans: "retabled s s' \<Longrightarrow> retabled s' s'' \<Longrightarrow> retabled s s''"
  by (fastforce simp: retabled_def)

lemma retabled_simps:
  assumes "retabled s s'"
  shows "stream s' = stream s" and "in_buf s' = in_buf s" and "out_buf s' = out_buf s" and "out_cur s' = out_cur s"
    and "decomp_flags s' = decomp_flags s" and "m_check_adler32 s' = m_check_adler32 s" and "m_z_adler32 s' = m_z_adler32 s"
  using assms by (auto simp: retabled_def stream_def)

lemma retabled_reader: "retabled s s' \<Longrightarrow> reader_ok s \<Longrightarrow> arrays_ok s' \<Longrightarrow> reader_ok s'"
  by (auto simp: retabled_def reader_ok_def inflator_ok_def)

lemma retabled_grew: "retabled s s' \<Longrightarrow> holds (frame s) out \<Longrightarrow> grew (frame s) out (frame s')"
  using retabled_simps [of s s'] by (simp add: grew_def holds_def)

lemma make_table_built:
  assumes "sizes_ok sizes" and "kraft sizes"
  obtains look tree where "make_table sizes = Inr (look, tree)" and "\<And>t. built sizes (t\<lparr>m_look_up := look, m_tree := tree\<rparr>)"
  using make_table_cases [OF assms(1)] assms(2) built_make_table [OF assms(1)] that by (auto split: if_splits)

lemma build_table_built:
  assumes "reader_ok s" and "i < 3" and "kraft (take (m_table_sizes s ! i) (m_code_size (m_tables s ! i)))"
  obtains t where "build_table i s = (Inr (), s\<lparr>m_tables := (m_tables s)[i := t]\<rparr>)"
    and "built (take (m_table_sizes s ! i) (m_code_size (m_tables s ! i))) t"
    and "m_code_size t = m_code_size (m_tables s ! i)" and "reader_ok (s\<lparr>m_tables := (m_tables s)[i := t]\<rparr>)"
    and "retabled s (s\<lparr>m_tables := (m_tables s)[i := t]\<rparr>)"
proof -
  let ?t = "m_tables s ! i"
  have a: "arrays_ok s" using assms(1) by (simp add: reader_ok_def inflator_ok_def)
  note b = build_table_sizes [OF a assms(2)]
  obtain look tree where m: "make_table (take (m_table_sizes s ! i) (m_code_size ?t)) = Inr (look, tree)"
    and bt: "\<And>t. built (take (m_table_sizes s ! i) (m_code_size ?t)) (t\<lparr>m_look_up := look, m_tree := tree\<rparr>)"
    using make_table_built [OF b(3) assms(3)] by blast
  have "\<not> length (m_code_size ?t) < m_table_sizes s ! i" using table_code_sizes(1) [OF a assms(2)] b(1,2) by simp
  then have e: "build_table i s = (Inr (), s\<lparr>m_tables := (m_tables s)[i := ?t\<lparr>m_look_up := look, m_tree := tree\<rparr>]\<rparr>)"
    using m by (simp add: build_table_def Let_def)
  have r: "retabled s (s\<lparr>m_tables := (m_tables s)[i := ?t\<lparr>m_look_up := look, m_tree := tree\<rparr>]\<rparr>)"
    unfolding retabled_def
    by (intro exI [of _ "(m_tables s)[i := ?t\<lparr>m_look_up := look, m_tree := tree\<rparr>]"] exI [of _ "m_table_sizes s"]
        exI [of _ "m_len_codes s"]) simp
  show thesis
    by (rule that [OF e bt _ retabled_reader [OF r assms(1) arrays_ok_set_table [OF a assms(2)]] r]) simp_all
qed

text \<open>The tables of literals and distances, from the code sizes that are there.\<close>

lemma build_both_tables:
  assumes "reader_ok s" and "take (m_table_sizes s ! 0) (m_code_size (m_tables s ! 0)) = lit"
    and "take (m_table_sizes s ! 1) (m_code_size (m_tables s ! 1)) = dst" and "kraft lit" and "kraft dst"
  obtains s' where "bnd (build_table 1) (\<lambda>_. build_table 0) s = (Inr (), s')" and "built lit (m_tables s' ! 0)"
    and "built dst (m_tables s' ! 1)" and "reader_ok s'" and "retabled s s'"
proof -
  have len: "length (m_tables s) = 3" using assms(1) by (simp add: reader_ok_def inflator_ok_def arrays_ok_def)
  obtain t where 1: "build_table 1 s = (Inr (), s\<lparr>m_tables := (m_tables s)[1 := t]\<rparr>)" "built dst t"
      "reader_ok (s\<lparr>m_tables := (m_tables s)[1 := t]\<rparr>)" "retabled s (s\<lparr>m_tables := (m_tables s)[1 := t]\<rparr>)"
    using build_table_built [OF assms(1), of 1] assms(3,5) by auto
  let ?s = "s\<lparr>m_tables := (m_tables s)[1 := t]\<rparr>"
  obtain u where 2: "build_table 0 ?s = (Inr (), ?s\<lparr>m_tables := (m_tables ?s)[0 := u]\<rparr>)" "built lit u"
      "reader_ok (?s\<lparr>m_tables := (m_tables ?s)[0 := u]\<rparr>)" "retabled ?s (?s\<lparr>m_tables := (m_tables ?s)[0 := u]\<rparr>)"
    using build_table_built [OF 1(3), of 0] assms(2,4) by auto
  show thesis
  proof (rule that [of "?s\<lparr>m_tables := (m_tables ?s)[0 := u]\<rparr>"])
    show "bnd (build_table 1) (\<lambda>_. build_table 0) s = (Inr (), ?s\<lparr>m_tables := (m_tables ?s)[0 := u]\<rparr>)"
      using 1(1) 2(1) by (simp add: bnd_def)
    show "retabled s (?s\<lparr>m_tables := (m_tables ?s)[0 := u]\<rparr>)" by (rule retabled_trans [OF 1(4) 2(4)])
  qed (use 1 2 len in simp_all)
qed

text \<open>The symbols of a block, once its tables are built.\<close>

lemma tables_then_symbols:
  assumes "reader_ok s" and "take (m_table_sizes s ! 0) (m_code_size (m_tables s ! 0)) = lit"
    and "take (m_table_sizes s ! 1) (m_code_size (m_tables s ! 1)) = dst" and "kraft lit" and "kraft dst"
    and "tokens_ok lit dst ts" and "stream s = tokens_bits lit dst ts @ rest" and "holds (frame s) out"
    and "expand ts out = Some out'" and "length out' \<le> length (out_buf s)" and "length ts < fuel"
  shows "\<exists>s'. bnd (bnd (build_table 1) (\<lambda>_. build_table 0)) (\<lambda>_. inflate_symbols fuel) s = (Inr (), s') \<and>
    grew (frame s) out' (frame s') \<and> reader_ok s' \<and> stream s' = rest"
proof -
  obtain s1 where 1: "bnd (build_table 1) (\<lambda>_. build_table 0) s = (Inr (), s1)" "built lit (m_tables s1 ! 0)"
      "built dst (m_tables s1 ! 1)" "reader_ok s1" "retabled s s1"
    by (rule build_both_tables [OF assms(1-5)])
  note r = retabled_simps [OF 1(5)] and g = retabled_grew [OF 1(5) assms(8)]
  have "holds (frame s1) out" using g by (simp add: grew_def)
  then obtain s2 where "inflate_symbols fuel s1 = (Inr (), s2)" "wrote (frame s1) out' (frame s2)" "reader_ok s2" "stream s2 = rest"
    using inflate_symbols_stream [OF 1(2,3) assms(6) 1(4) _ _ assms(9) _ assms(11)] r assms(7,10) by auto
  then show ?thesis using 1(1) grew_trans [OF g grew_wrote] by (auto simp: bnd_def)
qed

section \<open>Blocks with the fixed codes\<close>

definition fixed_lit :: "nat list" where
  "fixed_lit = replicate 144 8 @ replicate 112 9 @ replicate 24 7 @ replicate 8 8"

definition fixed_dst :: "nat list" where
  "fixed_dst = replicate 32 5"

lemma count_list_replicate: "count_list (replicate n x) y = (if x = y then n else 0)"
  by (induction n) auto

lemma kraft_fixed: "kraft fixed_lit" "kraft fixed_dst"
  by (rule kraft_def [THEN iffD2, OF disjI1],
      simp add: fixed_lit_def fixed_dst_def count_list_replicate first_code_numeral first_code_1 del: first_code.simps replicate.simps)+

lemma static_block:
  assumes "reader_ok s" and "tokens_ok fixed_lit fixed_dst ts" and "stream s = tokens_bits fixed_lit fixed_dst ts @ rest"
    and "holds (frame s) out" and "expand ts out = Some out'" and "length out' \<le> length (out_buf s)" and "length ts < fuel"
  shows "\<exists>s'. inflate_block fuel 1 s = (Inr (), s') \<and> grew (frame s) out' (frame s') \<and> reader_ok s' \<and> stream s' = rest"
proof -
  let ?s = "static_sizes s"
  have a: "arrays_ok s" using assms(1) by (simp add: reader_ok_def inflator_ok_def)
  have r: "retabled s ?s"
    unfolding retabled_def
    by (intro exI [of _ "m_tables ?s"] exI [of _ "m_table_sizes ?s"] exI [of _ "m_len_codes ?s"])
      (simp add: static_sizes_def set_code_size_def)
  have ok: "reader_ok ?s" by (rule retabled_reader [OF r assms(1)]) (use static_sizes_ok [OF a] in simp)
  note g = retabled_grew [OF r assms(4)] and rs = retabled_simps [OF r]
  have lit: "take (m_table_sizes ?s ! 0) (m_code_size (m_tables ?s ! 0)) = fixed_lit"
    and dst: "take (m_table_sizes ?s ! 1) (m_code_size (m_tables ?s ! 1)) = fixed_dst"
    using a by (simp_all add: static_sizes_def set_code_size_def fixed_lit_def fixed_dst_def arrays_ok_def)
  obtain s' where "bnd (bnd (build_table 1) (\<lambda>_. build_table 0)) (\<lambda>_. inflate_symbols fuel) ?s = (Inr (), s')"
      "grew (frame ?s) out' (frame s')" "reader_ok s'" "stream s' = rest"
    using tables_then_symbols [OF ok lit dst kraft_fixed assms(2) _ _ assms(5) _ assms(7)] rs assms(3,6) g
    by (auto simp: grew_def)
  then show ?thesis using grew_trans [OF g] by (auto simp: inflate_block_def build_tables_def bnd_def give_def)
qed

section \<open>Blocks with codes of their own\<close>

text \<open>The code sizes of both codes in their compressed form: a size, the last size again three or more times,
  or a run of zeros.\<close>

datatype len_item = Len nat | Again nat | Zeros nat | More_Zeros nat

fun item_sym :: "len_item \<Rightarrow> nat" where
  "item_sym (Len c) = c"
| "item_sym (Again x) = 16"
| "item_sym (Zeros x) = 17"
| "item_sym (More_Zeros x) = 18"

fun item_extra :: "len_item \<Rightarrow> bool list" where
  "item_extra (Len c) = []"
| "item_extra (Again x) = nat_bits 2 x"
| "item_extra (Zeros x) = nat_bits 3 x"
| "item_extra (More_Zeros x) = nat_bits 7 x"

fun item_fits :: "len_item \<Rightarrow> bool" where
  "item_fits (Len c) \<longleftrightarrow> c < 16"
| "item_fits (Again x) \<longleftrightarrow> x < 4"
| "item_fits (Zeros x) \<longleftrightarrow> x < 8"
| "item_fits (More_Zeros x) \<longleftrightarrow> x < 128"

definition item_bits :: "nat list \<Rightarrow> len_item \<Rightarrow> bool list" where
  "item_bits cl it = code_bits cl (item_sym it) @ item_extra it"

definition items_bits :: "nat list \<Rightarrow> len_item list \<Rightarrow> bool list" where
  "items_bits cl its = concat (map (item_bits cl) its)"

fun unpack :: "len_item list \<Rightarrow> nat list \<Rightarrow> nat list option" where
  "unpack [] acc = Some acc"
| "unpack (Len c # its) acc = unpack its (acc @ [c])"
| "unpack (Again x # its) acc = (if acc = [] then None else unpack its (acc @ replicate (3 + x) (last acc)))"
| "unpack (Zeros x # its) acc = unpack its (acc @ replicate (3 + x) 0)"
| "unpack (More_Zeros x # its) acc = unpack its (acc @ replicate (11 + x) 0)"

lemma unpack_length: "unpack its acc = Some all \<Longrightarrow> length acc + length its \<le> length all"
  by (induction its acc rule: unpack.induct) (fastforce split: if_splits)+

text \<open>What one item adds, and the loop that reads it.\<close>

fun item_sizes :: "len_item \<Rightarrow> nat list \<Rightarrow> nat list" where
  "item_sizes (Len c) acc = [c]"
| "item_sizes (Again x) acc = replicate (3 + x) (last acc)"
| "item_sizes (Zeros x) acc = replicate (3 + x) 0"
| "item_sizes (More_Zeros x) acc = replicate (11 + x) 0"

lemma unpack_Cons: "unpack (it # its) acc = Some all \<Longrightarrow> item_fits it \<Longrightarrow> unpack its (acc @ item_sizes it acc) = Some all \<and> (item_sym it = 16 \<longrightarrow> acc \<noteq> [])"
  by (cases it) (simp_all split: if_splits)

lemma take_spread:
  "take k xs = acc \<Longrightarrow> k = length acc \<Longrightarrow> k + length ys \<le> length xs \<Longrightarrow>
   take (k + length ys) (take k xs @ ys @ drop (k + length ys) xs) = acc @ ys \<and>
   length (take k xs @ ys @ drop (k + length ys) xs) = length xs"
  by auto

lemma read_item:
  assumes "built cl t" and "has_code cl (item_sym it)" and "item_fits it" and "reader_ok s"
    and "stream s = item_bits cl it @ rest" and "take (length acc) lens = acc" and "length acc < tot"
    and "length acc + length (item_sizes it acc) \<le> length lens" and "item_sym it = 16 \<longrightarrow> acc \<noteq> []"
  shows "\<exists>s' lens'. read_len_codes t tot (length acc) lens s =
      read_len_codes t tot (length acc + length (item_sizes it acc)) lens' s' \<and>
    take (length acc + length (item_sizes it acc)) lens' = acc @ item_sizes it acc \<and> length lens' = length lens \<and>
    frame s' = frame s \<and> reader_ok s' \<and> stream s' = rest"
proof -
  obtain s1 where s1: "huff_decode t s = (Inr (item_sym it), s1)" "frame s1 = frame s" "reader_ok s1" "stream s1 = item_extra it @ rest"
    using runs_huff_decode [OF assms(1,2), of "frame s"] assms(4,5) by (auto simp: runs_def item_bits_def)
  let ?k = "length acc" and ?n = "length (item_sizes it acc)"
  show ?thesis
  proof (cases it)
    case (Len c)
    have lt: "?k < length lens" using assms(8) Len by simp
    have "take (Suc ?k) (lens[?k := c]) = acc @ [c]" using assms(6) lt by (simp add: take_Suc_conv_app_nth)
    then show ?thesis
      using s1 assms(3,7) lt Len
      by (subst read_len_codes.simps) (auto intro!: exI [of _ s1] exI [of _ "lens[?k := c]"])
  next
    case (Again x)
    have e: "repeat_extra 16 = 2" "repeat_base 16 = 3" by (simp_all add: repeat_extra_def repeat_base_def)
    have x: "x < 2 ^ 2" using assms(3) Again by simp
    obtain s2 where s2: "get_bits 2 s1 = (Inr x, s2)" "frame s2 = frame s" "reader_ok s2" "stream s2 = rest"
      using runs_nat_bits [OF x, of "frame s"] s1 Again by (auto simp: runs_def)
    have ne: "acc \<noteq> []" "length acc \<noteq> 0" using assms(9) Again by simp_all
    have "lens ! (?k - 1) = acc ! (?k - 1)" using assms(6) ne by (metis diff_less length_greater_0_conv nth_take zero_less_one)
    then have l: "lens ! (?k - 1) = last acc" using ne by (simp add: last_conv_nth)
    have "read_len_codes t tot ?k lens s =
        read_len_codes t tot (?k + ?n) (take ?k lens @ item_sizes it acc @ drop (?k + ?n) lens) s2"
      using s1 s2 e l ne assms(7,8) Again by (subst read_len_codes.simps) (simp add: Let_def add.commute)
    then show ?thesis using s2 take_spread [OF assms(6) refl assms(8)] by blast
  next
    case (Zeros x)
    have e: "repeat_extra 17 = 3" "repeat_base 17 = 3" by (simp_all add: repeat_extra_def repeat_base_def)
    have x: "x < 2 ^ 3" using assms(3) Zeros by simp
    obtain s2 where s2: "get_bits 3 s1 = (Inr x, s2)" "frame s2 = frame s" "reader_ok s2" "stream s2 = rest"
      using runs_nat_bits [OF x, of "frame s"] s1 Zeros by (auto simp: runs_def)
    have "read_len_codes t tot ?k lens s =
        read_len_codes t tot (?k + ?n) (take ?k lens @ item_sizes it acc @ drop (?k + ?n) lens) s2"
      using s1 s2 e assms(7,8) Zeros by (subst read_len_codes.simps) (simp add: Let_def add.commute)
    then show ?thesis using s2 take_spread [OF assms(6) refl assms(8)] by blast
  next
    case (More_Zeros x)
    have e: "repeat_extra 18 = 7" "repeat_base 18 = 11" by (simp_all add: repeat_extra_def repeat_base_def)
    have x: "x < 2 ^ 7" using assms(3) More_Zeros by simp
    obtain s2 where s2: "get_bits 7 s1 = (Inr x, s2)" "frame s2 = frame s" "reader_ok s2" "stream s2 = rest"
      using runs_nat_bits [OF x, of "frame s"] s1 More_Zeros by (auto simp: runs_def)
    have "read_len_codes t tot ?k lens s =
        read_len_codes t tot (?k + ?n) (take ?k lens @ item_sizes it acc @ drop (?k + ?n) lens) s2"
      using s1 s2 e assms(7,8) More_Zeros by (subst read_len_codes.simps) (simp add: Let_def add.commute)
    then show ?thesis using s2 take_spread [OF assms(6) refl assms(8)] by blast
  qed
qed

lemma item_sizes_nonempty: "item_sizes it acc \<noteq> []"
  by (cases it) simp_all

lemma read_items:
  assumes "built cl t" and "\<forall>it \<in> set its. has_code cl (item_sym it) \<and> item_fits it" and "reader_ok s"
    and "stream s = items_bits cl its @ rest" and "take (length acc) lens = acc" and "unpack its acc = Some all"
    and "length all \<le> length lens"
  shows "\<exists>s' lens'. read_len_codes t (length all) (length acc) lens s = (Inr (length all, lens'), s') \<and>
    take (length all) lens' = all \<and> length lens' = length lens \<and> frame s' = frame s \<and> reader_ok s' \<and> stream s' = rest"
  using assms
proof (induction its arbitrary: s acc lens)
  case Nil
  then show ?case by (subst read_len_codes.simps) (simp add: items_bits_def)
next
  case (Cons it its)
  have ok: "has_code cl (item_sym it)" "item_fits it" using Cons.prems(2) by simp_all
  note u = unpack_Cons [OF Cons.prems(6) ok(2)]
  have len: "length acc + length (item_sizes it acc) \<le> length all" using unpack_length [OF conjunct1 [OF u]] by simp
  moreover have "0 < length (item_sizes it acc)" using item_sizes_nonempty by simp
  ultimately have lt: "length acc < length all" by linarith
  have st: "stream s = item_bits cl it @ items_bits cl its @ rest" using Cons.prems(4) by (simp add: items_bits_def)
  obtain s1 lens1 where 1: "read_len_codes t (length all) (length acc) lens s =
      read_len_codes t (length all) (length acc + length (item_sizes it acc)) lens1 s1"
      "take (length acc + length (item_sizes it acc)) lens1 = acc @ item_sizes it acc" "length lens1 = length lens"
      "frame s1 = frame s" "reader_ok s1" "stream s1 = items_bits cl its @ rest"
    using read_item [OF Cons.prems(1) ok Cons.prems(3) st Cons.prems(5) lt] len Cons.prems(7) u by auto
  have "\<exists>s' lens'. read_len_codes t (length all) (length (acc @ item_sizes it acc)) lens1 s1 = (Inr (length all, lens'), s') \<and>
      take (length all) lens' = all \<and> length lens' = length lens1 \<and> frame s' = frame s1 \<and> reader_ok s' \<and> stream s' = rest"
    by (rule Cons.IH) (use Cons.prems(1,2,7) 1 u in simp_all)
  then show ?case using 1 by simp
qed

text \<open>The header of such a block: the codes \<open>d_lit\<close> and \<open>d_dst\<close>, the code \<open>d_cl\<close> for their sizes, of which the
  first \<open>d_n\<close> in the order of \<open>s_length_dezigzag\<close> are sent, and the compressed sizes.\<close>

record dyn =
  d_lit :: "nat list"
  d_dst :: "nat list"
  d_cl :: "nat list"
  d_n :: nat
  d_items :: "len_item list"

definition cl_bits :: "nat list \<Rightarrow> nat list \<Rightarrow> bool list" where
  "cl_bits cl zs = concat (map (\<lambda>z. nat_bits 3 (cl ! z)) zs)"

definition dyn_bits :: "dyn \<Rightarrow> bool list" where
  "dyn_bits d = nat_bits 5 (length (d_lit d) - 257) @ nat_bits 5 (length (d_dst d) - 1) @ nat_bits 4 (d_n d - 4) @
     cl_bits (d_cl d) (take (d_n d) s_length_dezigzag) @ items_bits (d_cl d) (d_items d)"

definition dyn_ok :: "dyn \<Rightarrow> bool" where
  "dyn_ok d \<longleftrightarrow> 257 \<le> length (d_lit d) \<and> length (d_lit d) \<le> 288 \<and> 1 \<le> length (d_dst d) \<and> length (d_dst d) \<le> 32 \<and>
     4 \<le> d_n d \<and> d_n d \<le> 19 \<and> length (d_cl d) = 19 \<and> (\<forall>c \<in> set (d_cl d). c < 8) \<and>
     (\<forall>z \<in> set (drop (d_n d) s_length_dezigzag). d_cl d ! z = 0) \<and> kraft (d_cl d) \<and> kraft (d_lit d) \<and> kraft (d_dst d) \<and>
     (\<forall>it \<in> set (d_items d). has_code (d_cl d) (item_sym it) \<and> item_fits it) \<and>
     unpack (d_items d) [] = Some (d_lit d @ d_dst d)"

lemma dezigzag: "length s_length_dezigzag = 19" "set s_length_dezigzag = {..<19}"
proof -
  have "[0..<19] = [0, 1, 2, 3, 4, 5, 6, 7, 8, 9, 10, 11, 12, 13, 14, 15, 16, 17, 18 :: nat]" by (simp add: upt_rec)
  then have "set s_length_dezigzag = set [0..<19]" by (simp only: s_length_dezigzag_def set_simps) auto
  then show "set s_length_dezigzag = {..<19}" by (simp only: set_upt atLeast0LessThan)
qed (simp add: s_length_dezigzag_def)

lemma runs_read_code_sizes:
  "(\<forall>z \<in> set zs. cl ! z < 8) \<Longrightarrow>
   runs F (read_code_sizes zs cs) (cl_bits cl zs) (fold (\<lambda>z cs. cs[z := cl ! z]) zs cs) F"
proof (induction zs arbitrary: cs)
  case Nil
  then show ?case by (simp add: runs_def cl_bits_def)
next
  case (Cons z zs)
  have "runs F (get_bits 3) (nat_bits 3 (cl ! z)) (cl ! z) F" using Cons.prems by (intro runs_nat_bits) simp_all
  moreover have "runs F (read_code_sizes zs (cs[z := cl ! z])) (cl_bits cl zs) (fold (\<lambda>z cs. cs[z := cl ! z]) zs (cs[z := cl ! z])) F"
    using Cons by simp
  ultimately show ?case using runs_bnd [of F "get_bits 3" _ _ F "\<lambda>x. read_code_sizes zs (cs[z := x])"] by (simp add: cl_bits_def)
qed

lemma fold_update_nth:
  "length (fold (\<lambda>z cs. cs[z := f z]) zs cs) = length cs \<and>
   (i < length cs \<longrightarrow> fold (\<lambda>z cs. cs[z := f z]) zs cs ! i = (if i \<in> set zs then f i else cs ! i))"
  by (induction zs arbitrary: cs) (auto simp: nth_list_update)

lemma cl_restored:
  assumes "dyn_ok d"
  shows "take 19 (fold (\<lambda>z cs. cs[z := d_cl d ! z]) (take (d_n d) s_length_dezigzag) (replicate 288 0)) = d_cl d"
    and "length (fold (\<lambda>z cs. cs[z := d_cl d ! z]) (take (d_n d) s_length_dezigzag) (replicate 288 (0 :: nat))) = 288"
proof -
  let ?r = "fold (\<lambda>z cs. cs[z := d_cl d ! z]) (take (d_n d) s_length_dezigzag) (replicate 288 (0 :: nat))"
  show len: "length ?r = 288" using fold_update_nth [of "(!) (d_cl d)"] by simp
  have "?r ! i = d_cl d ! i" if i: "i < 19" for i
  proof (cases "i \<in> set (take (d_n d) s_length_dezigzag)")
    case True
    then show ?thesis using fold_update_nth [of "(!) (d_cl d)" _ "replicate 288 0" i] i by simp
  next
    case False
    have "set s_length_dezigzag = set (take (d_n d) s_length_dezigzag) \<union> set (drop (d_n d) s_length_dezigzag)"
      by (metis append_take_drop_id set_append)
    then have "i \<in> set (drop (d_n d) s_length_dezigzag)" using False i dezigzag(2) by auto
    then have "d_cl d ! i = 0" using assms by (simp add: dyn_ok_def)
    then show ?thesis using False fold_update_nth [of "(!) (d_cl d)" _ "replicate 288 0" i] i by simp
  qed
  then show "take 19 ?r = d_cl d" using len assms by (intro nth_equalityI) (simp_all add: dyn_ok_def)
qed

lemma dynamic_sizes_stream:
  assumes "dyn_ok d" and "reader_ok s"
    and "stream s = nat_bits 5 (length (d_lit d) - 257) @ nat_bits 5 (length (d_dst d) - 1) @ nat_bits 4 (d_n d - 4) @
      cl_bits (d_cl d) (take (d_n d) s_length_dezigzag) @ rest"
  shows "\<exists>s'. dynamic_sizes s = (Inr (), s') \<and> reader_ok s' \<and> stream s' = rest \<and>
    m_table_sizes s' = [length (d_lit d), length (d_dst d), 19] \<and> take 19 (m_code_size (m_tables s' ! 2)) = d_cl d \<and>
    out_buf s' = out_buf s \<and> (\<forall>out. holds (frame s) out \<longrightarrow> grew (frame s) out (frame s'))"
proof -
  have d: "length (d_lit d) - 257 < 2 ^ 5" "length (d_dst d) - 1 < 2 ^ 5" "d_n d - 4 < 2 ^ 4" using assms(1) by (auto simp: dyn_ok_def)
  obtain s1 where s1: "get_bits 5 s = (Inr (length (d_lit d) - 257), s1)" "frame s1 = frame s" "reader_ok s1"
      "stream s1 = nat_bits 5 (length (d_dst d) - 1) @ nat_bits 4 (d_n d - 4) @ cl_bits (d_cl d) (take (d_n d) s_length_dezigzag) @ rest"
    using runs_nat_bits [OF d(1), of "frame s"] assms(2,3) by (auto simp: runs_def)
  obtain s2 where s2: "get_bits 5 s1 = (Inr (length (d_dst d) - 1), s2)" "frame s2 = frame s" "reader_ok s2"
      "stream s2 = nat_bits 4 (d_n d - 4) @ cl_bits (d_cl d) (take (d_n d) s_length_dezigzag) @ rest"
    using runs_nat_bits [OF d(2), of "frame s"] s1 by (auto simp: runs_def)
  obtain s3 where s3: "get_bits 4 s2 = (Inr (d_n d - 4), s3)" "frame s3 = frame s" "reader_ok s3"
      "stream s3 = cl_bits (d_cl d) (take (d_n d) s_length_dezigzag) @ rest"
    using runs_nat_bits [OF d(3), of "frame s"] s2 by (auto simp: runs_def)
  let ?s3 = "s3\<lparr>m_table_sizes := [length (d_lit d), length (d_dst d), d_n d]\<rparr>"
  let ?cs = "fold (\<lambda>z cs. cs[z := d_cl d ! z]) (take (d_n d) s_length_dezigzag) (replicate 288 0)"
  have r3: "retabled s3 ?s3"
    unfolding retabled_def
    by (intro exI [of _ "m_tables s3"] exI [of _ "m_table_sizes ?s3"] exI [of _ "m_len_codes s3"]) simp
  have ok3: "reader_ok ?s3"
    by (rule retabled_reader [OF r3 s3(3)]) (use s3(3) assms(1) in \<open>simp add: reader_ok_def inflator_ok_def arrays_ok_def dyn_ok_def\<close>)
  have "\<forall>z \<in> set (take (d_n d) s_length_dezigzag). d_cl d ! z < 8"
    using assms(1) dezigzag(2) by (auto simp: dyn_ok_def dest!: in_set_takeD)
  from runs_read_code_sizes [OF this, of "frame ?s3" "replicate 288 0"] obtain s4 where
    s4: "read_code_sizes (take (d_n d) s_length_dezigzag) (replicate 288 0) ?s3 = (Inr ?cs, s4)" "frame s4 = frame ?s3" "reader_ok s4" "stream s4 = rest"
    using ok3 s3(4) retabled_simps(1) [OF r3] by (auto simp: runs_def)
  let ?s5 = "set_code_size 2 ?cs (s4\<lparr>m_table_sizes := (m_table_sizes s4)[2 := 19]\<rparr>)"
  have n: "length (d_lit d) - 257 + 257 = length (d_lit d)" "length (d_dst d) - 1 + 1 = length (d_dst d)" "d_n d - 4 + 4 = d_n d"
    using assms(1) by (auto simp: dyn_ok_def)
  have e: "dynamic_sizes s = (Inr (), ?s5)"
    using s1(1) s2(1) s3(1) s4(1) n
    by (simp add: dynamic_sizes_def bnd_def Let_def s_min_table_sizes_def MAX_HUFF_SYMBOLS_0_def del: One_nat_def)
  have r5: "retabled s4 ?s5"
    unfolding retabled_def
    by (intro exI [of _ "m_tables ?s5"] exI [of _ "m_table_sizes ?s5"] exI [of _ "m_len_codes s4"]) (simp add: set_code_size_def)
  have "inflator_ok ?s5" using works_ok [OF works_dynamic_sizes e] assms(2) by (simp add: reader_ok_def)
  then have ok5: "reader_ok ?s5" by (intro retabled_reader [OF r5 s4(3)]) (simp add: inflator_ok_def)
  have f4: "m_table_sizes s4 = [length (d_lit d), length (d_dst d), d_n d]" "length (m_tables s4) = 3"
    using arg_cong [OF s4(2), of m_table_sizes] s4(3) by (simp_all add: reader_ok_def inflator_ok_def arrays_ok_def)
  have "grew (frame s) out (frame ?s5)" if h: "holds (frame s) out" for out
  proof -
    have "grew (frame s) out (frame s4)" using retabled_grew [OF r3, of out] h s3(2) s4(2) by simp
    moreover from this have "grew (frame s4) out (frame ?s5)" by (intro retabled_grew [OF r5]) (simp add: grew_def)
    ultimately show ?thesis by (rule grew_trans)
  qed
  moreover have "out_buf ?s5 = out_buf s"
    using arg_cong [OF s4(2), of out_buf] arg_cong [OF s3(2), of out_buf] by (simp add: set_code_size_def)
  ultimately show ?thesis
    using e ok5 s4(4) retabled_simps(1) [OF r5] f4 cl_restored [OF assms(1)]
    by (intro exI [of _ ?s5]) (simp add: set_code_size_def numeral_2_eq_2)
qed

text \<open>The sizes of the two codes, once they are read.\<close>

lemma set_len_codes_stream:
  assumes "dyn_ok d" and "built (d_cl d) (m_tables s ! 2)" and "table_ok 19 (m_tables s ! 2)" and "reader_ok s"
    and "m_table_sizes s = [length (d_lit d), length (d_dst d), 19]" and "stream s = items_bits (d_cl d) (d_items d) @ rest"
    and "holds (frame s) out"
  shows "\<exists>s'. set_len_codes s = (Inr (), s') \<and> reader_ok s' \<and> stream s' = rest \<and>
    take (m_table_sizes s' ! 0) (m_code_size (m_tables s' ! 0)) = d_lit d \<and>
    take (m_table_sizes s' ! 1) (m_code_size (m_tables s' ! 1)) = d_dst d \<and>
    out_buf s' = out_buf s \<and> grew (frame s) out (frame s')"
proof -
  let ?all = "d_lit d @ d_dst d" and ?n0 = "length (d_lit d)" and ?n1 = "length (d_dst d)"
  have d: "\<forall>it \<in> set (d_items d). has_code (d_cl d) (item_sym it) \<and> item_fits it" "unpack (d_items d) [] = Some ?all"
    "?n0 \<le> 288" "?n1 \<le> 32" using assms(1) by (simp_all add: dyn_ok_def)
  have a: "length (m_len_codes s) = 457" "length (m_tables s) = 3"
    using assms(4) by (simp_all add: reader_ok_def inflator_ok_def arrays_ok_def)
  obtain s1 lens where 1: "read_len_codes (m_tables s ! 2) (length ?all) 0 (m_len_codes s) s = (Inr (length ?all, lens), s1)"
      "take (length ?all) lens = ?all" "length lens = 457" "frame s1 = frame s" "reader_ok s1" "stream s1 = rest"
    using read_items [OF assms(2) d(1) assms(4,6), of "[]" "m_len_codes s" ?all] d a by auto
  have f: "m_tables s1 = m_tables s" "m_table_sizes s1 = m_table_sizes s" "out_buf s1 = out_buf s"
    using arg_cong [OF 1(4), of m_tables] arg_cong [OF 1(4), of m_table_sizes] arg_cong [OF 1(4), of out_buf] by simp_all
  have c: "length (m_code_size (m_tables s1 ! 0)) = 288" "length (m_code_size (m_tables s1 ! 1)) = 288"
    using 1(5) a(2) f(1) by (simp_all add: reader_ok_def inflator_ok_def arrays_ok_def)
  let ?s2 = "set_code_size 1 (take ?n1 (drop ?n0 lens) @ drop ?n1 (m_code_size (m_tables s1 ! 1)))
      (set_code_size 0 (take ?n0 lens @ drop ?n0 (m_code_size (m_tables s1 ! 0))) (s1\<lparr>m_len_codes := lens\<rparr>))"
  have e: "set_len_codes s = (Inr (), ?s2)"
    using 1(1,3) f(1) c d assms(5) by (simp add: set_len_codes_def bnd_def Let_def)
  have r: "retabled s1 ?s2"
    unfolding retabled_def
    by (intro exI [of _ "m_tables ?s2"] exI [of _ "m_table_sizes s1"] exI [of _ lens]) (simp add: set_code_size_def)
  have "inflator_ok ?s2" using works_ok [OF works_set_len_codes [OF assms(3)] e] assms(4) by (simp add: reader_ok_def)
  then have ok: "reader_ok ?s2" by (intro retabled_reader [OF r 1(5)]) (simp add: inflator_ok_def)
  have "take ?n0 lens = d_lit d" "take ?n1 (drop ?n0 lens) = d_dst d"
    using arg_cong [OF 1(2), of "take ?n0"] arg_cong [OF 1(2), of "drop ?n0"] by (simp_all add: take_drop add.commute)
  then have "take (m_table_sizes ?s2 ! 0) (m_code_size (m_tables ?s2 ! 0)) = d_lit d"
      "take (m_table_sizes ?s2 ! 1) (m_code_size (m_tables ?s2 ! 1)) = d_dst d"
    using a(2) f c d assms(5) by (simp_all add: set_code_size_def)
  moreover have "grew (frame s) out (frame ?s2)" using retabled_grew [OF r, of out] assms(7) 1(4) by simp
  ultimately show ?thesis
    using e ok retabled_simps(1) [OF r] 1(6) f(3) by (intro exI [of _ ?s2]) (simp add: set_code_size_def)
qed

lemma dynamic_block:
  assumes "dyn_ok d" and "reader_ok s" and "tokens_ok (d_lit d) (d_dst d) ts"
    and "stream s = dyn_bits d @ tokens_bits (d_lit d) (d_dst d) ts @ rest" and "holds (frame s) out"
    and "expand ts out = Some out'" and "length out' \<le> length (out_buf s)" and "length ts < fuel"
  shows "\<exists>s'. inflate_block fuel 2 s = (Inr (), s') \<and> grew (frame s) out' (frame s') \<and> reader_ok s' \<and> stream s' = rest"
proof -
  let ?rest = "tokens_bits (d_lit d) (d_dst d) ts @ rest"
  have k: "kraft (d_cl d)" "kraft (d_lit d)" "kraft (d_dst d)" using assms(1) by (simp_all add: dyn_ok_def)
  obtain s1 where 1: "dynamic_sizes s = (Inr (), s1)" "reader_ok s1" "stream s1 = items_bits (d_cl d) (d_items d) @ ?rest"
      "m_table_sizes s1 = [length (d_lit d), length (d_dst d), 19]" "take 19 (m_code_size (m_tables s1 ! 2)) = d_cl d"
      "out_buf s1 = out_buf s" "grew (frame s) out (frame s1)"
    using dynamic_sizes_stream [OF assms(1,2), of "items_bits (d_cl d) (d_items d) @ ?rest"] assms(4,5) by (auto simp: dyn_bits_def)
  have cl: "take (m_table_sizes s1 ! 2) (m_code_size (m_tables s1 ! 2)) = d_cl d" using 1(4,5) by simp
  obtain t where t: "build_table 2 s1 = (Inr (), s1\<lparr>m_tables := (m_tables s1)[2 := t]\<rparr>)" "built (d_cl d) t"
      "reader_ok (s1\<lparr>m_tables := (m_tables s1)[2 := t]\<rparr>)" "retabled s1 (s1\<lparr>m_tables := (m_tables s1)[2 := t]\<rparr>)"
    using build_table_built [OF 1(2), of 2] cl k(1) by auto
  let ?s2 = "s1\<lparr>m_tables := (m_tables s1)[2 := t]\<rparr>"
  have "inflator_ok s1" "length (m_tables s1) = 3" using 1(2) by (simp_all add: reader_ok_def inflator_ok_def arrays_ok_def)
  then have t2: "m_tables ?s2 ! 2 = t" "table_ok 19 (m_tables ?s2 ! 2)"
    using build_table_result(1) [OF t(1)] by (simp_all add: max_syms_def)
  have g2: "grew (frame s1) out (frame ?s2)" using retabled_grew [OF t(4)] 1(7) by (simp add: grew_def)
  obtain s3 where 3: "set_len_codes ?s2 = (Inr (), s3)" "reader_ok s3" "stream s3 = ?rest"
      "take (m_table_sizes s3 ! 0) (m_code_size (m_tables s3 ! 0)) = d_lit d"
      "take (m_table_sizes s3 ! 1) (m_code_size (m_tables s3 ! 1)) = d_dst d"
      "out_buf s3 = out_buf ?s2" "grew (frame ?s2) out (frame s3)"
    using set_len_codes_stream [OF assms(1) _ t2(2) t(3)] t t2 1(3,4) retabled_simps(1) [OF t(4)] g2 by (auto simp: grew_def)
  have g: "grew (frame s) out (frame s3)" using grew_trans [OF 1(7) grew_trans [OF g2 3(7)]] .
  obtain s' where "bnd (bnd (build_table 1) (\<lambda>_. build_table 0)) (\<lambda>_. inflate_symbols fuel) s3 = (Inr (), s')"
      "grew (frame s3) out' (frame s')" "reader_ok s'" "stream s' = rest"
    using tables_then_symbols [OF 3(2,4,5) k(2,3) assms(3) 3(3) _ assms(6) _ assms(8)] 3(6) 1(6) g assms(7) by (auto simp: grew_def)
  then show ?thesis
    using 1(1) t(1) 3(1) grew_trans [OF g] by (auto simp: inflate_block_def build_tables_def bnd_def)
qed

end
