(* ===== verification/Inflate_Stored.thy ===== *)
theory Inflate_Stored
  imports Inflate_Total
begin

text \<open>
  Streams of stored blocks, as a compressor writes them for data that it does not compress: header,
  blocks with their lengths, checksum. The decompressor restores them.
\<close>

definition le16 :: "nat \<Rightarrow> byte list" where
  "le16 n = [of_nat (n mod 256), of_nat (n div 256)]"

definition stored_chunk :: "bool \<Rightarrow> byte list \<Rightarrow> byte list" where
  "stored_chunk final data = (if final then 1 else 0) # le16 (length data) @ le16 (65535 - length data) @ data"

fun stored_chunks :: "byte list list \<Rightarrow> byte list" where
  "stored_chunks [] = []"
| "stored_chunks [c] = stored_chunk True c"
| "stored_chunks (c # cs) = stored_chunk False c @ stored_chunks cs"

definition be32_of :: "nat \<Rightarrow> byte list" where
  "be32_of n = [of_nat (n div 2 ^ 24), of_nat (n div 2 ^ 16 mod 256), of_nat (n div 2 ^ 8 mod 256), of_nat (n mod 256)]"

definition zlib_stored :: "byte list list \<Rightarrow> byte list" where
  "zlib_stored chunks = [0x78, 0x01] @ stored_chunks chunks @ be32_of (adler32_of (concat chunks))"

text \<open>The decompressor between two bytes, with \<open>rest\<close> still to read.\<close>

definition reading :: "inflator \<Rightarrow> byte list \<Rightarrow> bool" where
  "reading s rest \<longleftrightarrow> num_bits s = 0 \<and> bit_buf s = 0 \<and> drop (in_cur s) (in_buf s) = rest"

lemma reading_byte:
  assumes "reading s (c # rest)"
  shows "get_byte s = (Inr c, s\<lparr>in_cur := in_cur s + 1\<rparr>)" and "reading (s\<lparr>in_cur := in_cur s + 1\<rparr>) rest"
proof -
  have d: "drop (in_cur s) (in_buf s) = c # rest" using assms by (simp add: reading_def)
  then have lt: "in_cur s < length (in_buf s)" by (metis drop_all leI list.distinct(1))
  then show "get_byte s = (Inr c, s\<lparr>in_cur := in_cur s + 1\<rparr>)"
    using d by (simp add: get_byte_def) (metis hd_drop_conv_nth list.sel(1))
  show "reading (s\<lparr>in_cur := in_cur s + 1\<rparr>) rest"
    using assms d by (simp add: reading_def) (metis drop_Suc list.sel(3) tl_drop)
qed

lemma raw_byte_reading:
  "reading s (c # rest) \<Longrightarrow> raw_byte s = (Inr (unat c), s\<lparr>in_cur := in_cur s + 1\<rparr>)"
  using reading_byte(1) [of s c rest] by (simp add: reading_def raw_byte_def bnd_def give_def)

text \<open>The same with the position written out.\<close>

definition at :: "inflator \<Rightarrow> nat \<Rightarrow> inflator" where
  "at s i = s\<lparr>in_cur := i, bit_buf := 0, num_bits := 0\<rparr>"

lemma at_raw_byte:
  assumes "reading (at s i) (c # rest)"
  shows "raw_byte (at s i) = (Inr (unat c), at s (Suc i))" and "reading (at s (Suc i)) rest"
proof -
  have e: "(at s i)\<lparr>in_cur := in_cur (at s i) + 1\<rparr> = at s (Suc i)" by (simp add: at_def)
  show "raw_byte (at s i) = (Inr (unat c), at s (Suc i))" using raw_byte_reading [OF assms] by (simp only: e)
  show "reading (at s (Suc i)) rest" using reading_byte(2) [OF assms] by (simp only: e)
qed

text \<open>The first byte of a stored block: the final bit, the type 0 and five bits that are skipped.\<close>

lemma block_start:
  assumes "reading s ((if final then 1 else 0) # rest)"
  shows "get_bits 3 s = (Inr (if final then 1 else 0), s\<lparr>in_cur := in_cur s + 1, bit_buf := 0, num_bits := 5\<rparr>)"
proof -
  let ?c = "(if final then 1 else 0) :: byte"
  have n: "num_bits s = 0" "bit_buf s = 0" using assms by (simp_all add: reading_def)
  have "need_bits 3 s = (Inr (), s\<lparr>in_cur := in_cur s + 1, bit_buf := ucast ?c, num_bits := 8\<rparr>)"
    using reading_byte(1) [OF assms] n by (subst need_bits.simps) (simp add: add_byte_def)
  moreover have "unat ((ucast ?c :: u64) AND mask 3) = (if final then 1 else 0)" by (simp add: mask_eq_exp_minus_1)
  moreover have "drop_bit 3 (ucast ?c :: u64) = 0" by simp
  ultimately show ?thesis
    using n by (simp add: get_bits_eq bnd_def have_bits_def drop_bits_def)
qed

lemma skip_five:
  "skip_bits (unat (num_bits (s\<lparr>in_cur := i, bit_buf := 0, num_bits := 5\<rparr>) AND 7)) (s\<lparr>in_cur := i, bit_buf := 0, num_bits := 5\<rparr>) =
    (Inr (), at s i)"
proof -
  have "unat ((5 :: u32) AND 7) = 5" by code_simp
  then show ?thesis by (simp add: skip_bits_eq bnd_def have_bits_def drop_bits_def at_def)
qed

lemma le16_value:
  assumes "n \<le> 65535"
  shows "unat (of_nat (n mod 256) :: byte) OR push_bit 8 (unat (of_nat (n div 256) :: byte)) = n"
proof -
  have "n div 256 < 256" using assms by simp
  then have "unat (of_nat (n mod 256) :: byte) = take_bit 8 n" "unat (of_nat (n div 256) :: byte) = drop_bit 8 n"
    by (simp_all add: unsigned_of_nat take_bit_nat_eq_self drop_bit_eq_div take_bit_eq_mod)
  moreover have "take_bit 8 n OR push_bit 8 (drop_bit 8 n) = n"
  proof (rule bit_eqI)
    fix k show "bit (take_bit 8 n OR push_bit 8 (drop_bit 8 n)) k = bit n k"
      by (cases "k < 8") (simp_all add: bit_simps)
  qed
  ultimately show ?thesis by simp
qed

lemma length_complement:
  assumes "n \<le> 65535"
  shows "0xFFFF XOR (65535 - n) = (n :: nat)"
proof -
  let ?x = "n XOR 65535"
  have m: "(65535 :: nat) = mask 16" by (simp add: mask_eq_exp_minus_1)
  have "n = take_bit 16 n" using assms by (simp add: take_bit_nat_eq_self)
  then have "bit n k \<Longrightarrow> k < 16" for k by (metis bit_take_bit_iff)
  then have "n AND ?x = 0" unfolding m by (intro bit_eqI) (auto simp: bit_simps)
  then have "n + ?x = n XOR ?x" by (rule disjunctive_add_eq_xor)
  also have "\<dots> = 65535" by (simp flip: xor.assoc)
  finally have "65535 - n = ?x" by simp
  then show ?thesis by (simp add: xor.left_commute)
qed

lemma stored_copy_whole:
  assumes "n \<le> length (out_buf s) - out_cur s" and "n \<le> length (in_buf s) - in_cur s"
  shows "stored_copy n s = (Inr (), copied_in n s)"
proof (cases "n = 0")
  case False
  have m: "min (min (length (out_buf s) - out_cur s) (length (in_buf s) - in_cur s)) n = n" using assms by simp
  have "\<not> length (out_buf s) \<le> out_cur s" "\<not> length (in_buf s) \<le> in_cur s" using assms False by simp_all
  then have "stored_copy n s = stored_copy 0 (copied_in n s)"
    using False by (subst stored_copy_eq) (simp only: m Let_def if_False diff_self_eq_0)
  then show ?thesis by (simp add: stored_copy_eq [of 0])
qed (simp add: stored_copy_eq copied_in_def)

text \<open>A block is copied to the output.\<close>

lemma stored_block_reading:
  assumes "reading (at s i) (le16 (length data) @ le16 (65535 - length data) @ data @ rest)"
    and "length data \<le> 65535" and "out_cur s + length data \<le> length (out_buf s)"
  shows "stored_block (s\<lparr>in_cur := i, bit_buf := 0, num_bits := 5\<rparr>) = (Inr (), copied_in (length data) (at s (i + 4)))"
    and "reading (copied_in (length data) (at s (i + 4))) rest"
    and "out_buf (copied_in (length data) (at s (i + 4))) =
      take (out_cur s) (out_buf s) @ data @ drop (out_cur s + length data) (out_buf s)"
proof -
  let ?n = "length data"
  have r0: "reading (at s i) (of_nat (?n mod 256) # of_nat (?n div 256) # of_nat ((65535 - ?n) mod 256) #
      of_nat ((65535 - ?n) div 256) # data @ rest)"
    using assms(1) by (simp add: le16_def)
  note b0 = at_raw_byte [OF r0] note b1 = at_raw_byte [OF b0(2)] note b2 = at_raw_byte [OF b1(2)] note b3 = at_raw_byte [OF b2(2)]
  have i4: "Suc (Suc (Suc (Suc i))) = i + 4" by simp
  have h: "unat (of_nat (?n mod 256) :: byte) OR push_bit 8 (unat (of_nat (?n div 256) :: byte)) = ?n"
    "unat (of_nat ((65535 - ?n) mod 256) :: byte) OR push_bit 8 (unat (of_nat ((65535 - ?n) div 256) :: byte)) = 65535 - ?n"
    using assms(2) by (simp_all only: le16_value diff_le_self)
  have r4: "drop (i + 4) (in_buf s) = data @ rest" using b3(2) by (simp add: reading_def at_def i4)
  have copy: "bnd (stored_bits ?n) stored_copy (at s (i + 4)) = (Inr (), copied_in ?n (at s (i + 4)))"
  proof (cases "?n = 0")
    case True
    then show ?thesis by (simp add: bnd_def stored_copy_eq copied_in_def at_def)
  next
    case False
    have bits: "stored_bits ?n (at s (i + 4)) = (Inr ?n, at s (i + 4))" using False by (cases ?n) (simp_all add: at_def)
    have "?n \<le> length (in_buf s) - (i + 4)" using r4 by (metis length_append length_drop le_add1)
    then have "stored_copy ?n (at s (i + 4)) = (Inr (), copied_in ?n (at s (i + 4)))"
      using assms(3) by (intro stored_copy_whole) (simp_all add: at_def)
    then show ?thesis using bits by (simp add: bnd_def)
  qed
  show "stored_block (s\<lparr>in_cur := i, bit_buf := 0, num_bits := 5\<rparr>) = (Inr (), copied_in ?n (at s (i + 4)))"
    unfolding stored_block_def bnd_def skip_five
    using b0(1) b1(1) b2(1) b3(1) h length_complement [OF assms(2)] copy by (simp add: bnd_def Let_def i4)
  show "reading (copied_in ?n (at s (i + 4))) rest"
    using r4 by (simp add: reading_def copied_in_def at_def flip: drop_drop add: add.commute)
  show "out_buf (copied_in ?n (at s (i + 4))) = take (out_cur s) (out_buf s) @ data @ drop (out_cur s + ?n) (out_buf s)"
    using r4 by (simp add: copied_in_def at_def)
qed

lemma stored_step:
  assumes "reading s (stored_chunk final data @ rest)" and "length data \<le> 65535" and "out_cur s + length data \<le> length (out_buf s)"
  shows "\<exists>s'. reading s' rest \<and> in_buf s' = in_buf s \<and> decomp_flags s' = decomp_flags s \<and> m_check_adler32 s' = m_check_adler32 s \<and>
    out_buf s' = take (out_cur s) (out_buf s) @ data @ drop (out_cur s + length data) (out_buf s) \<and> out_cur s' = out_cur s + length data \<and>
    inflate_blocks (Suc fuel) s = (if final then (Inr (), s') else inflate_blocks fuel s')"
proof -
  let ?tail = "le16 (length data) @ le16 (65535 - length data) @ data @ rest"
  let ?s' = "copied_in (length data) (at s (in_cur s + 1 + 4))"
  have r: "reading s ((if final then 1 else 0) # ?tail)" using assms(1) by (simp add: stored_chunk_def)
  have "s\<lparr>in_cur := in_cur s + 1\<rparr> = at s (in_cur s + 1)" using r by (simp add: reading_def at_def)
  then have r1: "reading (at s (in_cur s + 1)) ?tail" using reading_byte(2) [OF r] by simp
  note b = stored_block_reading [OF r1 assms(2,3)]
  have "drop_bit 1 (if final then 1 else 0 :: nat) = 0" by simp
  then have "inflate_blocks (Suc fuel) s = (if final then (Inr (), ?s') else inflate_blocks fuel ?s')"
    using block_start [OF r] b(1) by (simp add: bnd_def inflate_block_def give_def)
  moreover have "in_buf ?s' = in_buf s" "decomp_flags ?s' = decomp_flags s" "m_check_adler32 ?s' = m_check_adler32 s"
    "out_cur ?s' = out_cur s + length data" by (simp_all add: copied_in_def at_def)
  ultimately show ?thesis using b(2,3) by blast
qed

lemma inflate_blocks_stored:
  assumes "reading s (stored_chunks chunks @ rest)" and "chunks \<noteq> []" and "\<forall>c \<in> set chunks. length c \<le> 65535"
    and "out_cur s + length (concat chunks) \<le> length (out_buf s)" and "length chunks \<le> fuel"
  shows "\<exists>s'. inflate_blocks fuel s = (Inr (), s') \<and> reading s' rest \<and> in_buf s' = in_buf s \<and> decomp_flags s' = decomp_flags s \<and>
    m_check_adler32 s' = m_check_adler32 s \<and> out_cur s' = out_cur s + length (concat chunks) \<and>
    out_buf s' = take (out_cur s) (out_buf s) @ concat chunks @ drop (out_cur s + length (concat chunks)) (out_buf s)"
  using assms
proof (induction chunks arbitrary: s fuel rule: stored_chunks.induct)
  case (2 c)
  then obtain f where f: "fuel = Suc f" by (cases fuel) simp_all
  show ?case
    using stored_step [of s True c rest f] 2 f by auto
next
  case (3 c c' cs)
  then obtain f where f: "fuel = Suc f" by (cases fuel) simp_all
  let ?cs = "c' # cs"
  obtain s1 where r1: "reading s1 (stored_chunks ?cs @ rest)" and io: "in_buf s1 = in_buf s" "decomp_flags s1 = decomp_flags s"
      "m_check_adler32 s1 = m_check_adler32 s"
    and o1: "out_buf s1 = take (out_cur s) (out_buf s) @ c @ drop (out_cur s + length c) (out_buf s)" "out_cur s1 = out_cur s + length c"
    and b: "inflate_blocks fuel s = inflate_blocks f s1"
    using stored_step [of s False c "stored_chunks ?cs @ rest" f] 3(2-5) f by auto
  have len: "length (out_buf s1) = length (out_buf s)" using o1(1) 3(5) by simp
  obtain s' where s': "inflate_blocks f s1 = (Inr (), s')" "reading s' rest" "in_buf s' = in_buf s1" "decomp_flags s' = decomp_flags s1"
      "m_check_adler32 s' = m_check_adler32 s1" "out_cur s' = out_cur s1 + length (concat ?cs)"
      "out_buf s' = take (out_cur s1) (out_buf s1) @ concat ?cs @ drop (out_cur s1 + length (concat ?cs)) (out_buf s1)"
    using 3(1) [OF r1, of f] 3(4-6) f len o1(2) by auto
  have "take (out_cur s1) (out_buf s1) = take (out_cur s) (out_buf s) @ c" using o1 3(5) by simp
  moreover have "drop (out_cur s1 + k) (out_buf s1) = drop (out_cur s + length c + k) (out_buf s)" for k
    using o1 3(5) by (simp add: add.commute add.left_commute)
  ultimately have "out_buf s' = take (out_cur s) (out_buf s) @ concat (c # ?cs) @ drop (out_cur s + length (concat (c # ?cs))) (out_buf s)"
    using s'(7) by (simp add: add.assoc)
  then show ?case using b s' io o1(2) by simp
qed simp

section \<open>The whole stream\<close>

lemma be32_of_value:
  assumes "n < 2 ^ 32"
  shows "be32 (be32_of n) = (of_nat n :: u32)"
proof (rule bit_word_eqI)
  fix k assume "k < LENGTH(32)"
  then have k: "k < 32" by simp
  have d: "n div 2 ^ 24 = drop_bit 24 n" "n div 2 ^ 16 mod 256 = take_bit 8 (drop_bit 16 n)"
    "n div 2 ^ 8 mod 256 = take_bit 8 (drop_bit 8 n)" "n mod 256 = take_bit 8 n"
    by (simp_all add: drop_bit_eq_div take_bit_eq_mod)
  consider "k < 8" | "8 \<le> k \<and> k < 16" | "16 \<le> k \<and> k < 24" | "24 \<le> k" by linarith
  then show "bit (be32 (be32_of n)) k = bit (of_nat n :: u32) k"
    unfolding be32_def be32_of_def d using k by cases (auto simp: bit_simps)
qed

lemma adler32_of_less: "adler32_of data < 2 ^ 32"
proof -
  have "fst (adler_spec data (1, 0)) < 65521 \<and> snd (adler_spec data (1, 0)) < 65521" by (rule adler_spec_bound) simp_all
  then show ?thesis by (auto simp: adler32_of_def split: prod.splits)
qed

definition add_adler :: "inflator \<Rightarrow> byte \<Rightarrow> inflator" where
  "add_adler s c = s\<lparr>in_cur := in_cur s + 1, m_z_adler32 := push_bit 8 (m_z_adler32 s) OR ucast c\<rparr>"

lemma adler_byte_reading:
  assumes "reading s (c # rest)"
  shows "adler_byte s = (Inr (), add_adler s c)" and "reading (add_adler s c) rest"
  using raw_byte_reading [OF assms] reading_byte(2) [OF assms]
  by (simp_all add: adler_byte_def bnd_def reading_def add_adler_def)

lemma adler_bytes_reading:
  assumes "reading s (be32_of n @ extra)" and "n < 2 ^ 32"
  shows "bnd adler_byte (\<lambda>_. bnd adler_byte (\<lambda>_. bnd adler_byte (\<lambda>_. adler_byte))) s =
    (Inr (), s\<lparr>in_cur := in_cur s + 4, m_z_adler32 := of_nat n\<rparr>)"
proof -
  obtain a b c d where n: "be32_of n = [a, b, c, d]" by (simp add: be32_of_def)
  have r: "reading s (a # b # c # d # extra)" using assms(1) n by simp
  note b1 = adler_byte_reading [OF r] note b2 = adler_byte_reading [OF b1(2)] note b3 = adler_byte_reading [OF b2(2)]
  note b4 = adler_byte_reading [OF b3(2)]
  have "add_adler (add_adler (add_adler (add_adler s a) b) c) d = s\<lparr>in_cur := in_cur s + 4,
      m_z_adler32 := push_bit 8 (push_bit 8 (push_bit 8 (push_bit 8 (m_z_adler32 s) OR ucast a) OR ucast b) OR ucast c) OR ucast d\<rparr>"
    by (rule inflator.equality) (simp_all add: add_adler_def)
  then have "add_adler (add_adler (add_adler (add_adler s a) b) c) d = s\<lparr>in_cur := in_cur s + 4, m_z_adler32 := of_nat n\<rparr>"
    by (simp only: be32_bytes n [symmetric] be32_of_value [OF assms(2)])
  then show ?thesis using b1(1) b2(1) b3(1) b4(1) by (simp add: bnd_def)
qed

lemma trailer_reading:
  assumes "reading s (be32_of n)" and "n < 2 ^ 32" and "flag FLAG_PARSE_ZLIB_HEADER s"
  shows "trailer s = (Inr (), s\<lparr>in_cur := in_cur s + 4, m_z_adler32 := of_nat n\<rparr>)"
proof -
  have z: "num_bits s = 0" "bit_buf s = 0" using assms(1) by (simp_all add: reading_def)
  have "skip_bits (unat (num_bits s AND 7)) s = (Inr (), s)"
    using z by (simp add: skip_bits_eq bnd_def have_bits_def drop_bits_def)
  moreover have "put_back s = s" using z by (subst put_back.simps) simp
  moreover have e: "s\<lparr>bit_buf := 0\<rparr> = s" using z by (intro inflator.equality) simp_all
  have "bnd adler_byte (\<lambda>_. bnd adler_byte (\<lambda>_. bnd adler_byte (\<lambda>_. adler_byte))) (s\<lparr>bit_buf := 0\<rparr>) =
      (Inr (), s\<lparr>in_cur := in_cur s + 4, m_z_adler32 := of_nat n\<rparr>)"
    unfolding e by (rule adler_bytes_reading [of _ _ "[]"]) (use assms in simp_all)
  ultimately show ?thesis
    using z assms(3) by (simp add: trailer_def bnd_def [of "\<lambda>s. skip_bits (unat (num_bits s AND 7)) s"] Let_def)
qed

text \<open>A header that announces deflated data without a dictionary.\<close>

definition header_ok :: "byte \<Rightarrow> byte \<Rightarrow> bool" where
  "header_ok c0 c1 \<longleftrightarrow> (unat c0 * 256 + unat c1) mod 31 = 0 \<and> unat c1 AND 32 = 0 \<and> unat c0 AND 15 = 8"

lemma header_reading:
  assumes "reading s (c0 # c1 # rest)" and "header_ok c0 c1" and "flag FLAG_NON_WRAPPING s"
  shows "zlib_header s = (Inr (), if flag FLAG_PARSE_ZLIB_HEADER s then s\<lparr>in_cur := in_cur s + 2\<rparr> else s)"
    and "reading (s\<lparr>in_cur := in_cur s + 2\<rparr>) rest"
proof -
  note b0 = reading_byte [OF assms(1)] note b1 = reading_byte [OF b0(2)]
  show "zlib_header s = (Inr (), if flag FLAG_PARSE_ZLIB_HEADER s then s\<lparr>in_cur := in_cur s + 2\<rparr> else s)"
    using b0(1) b1(1) assms(2,3) by (simp add: zlib_header_def bnd_def Let_def header_ok_def)
  show "reading (s\<lparr>in_cur := in_cur s + 2\<rparr>) rest" using b1(2) by simp
qed

lemma length_stored_chunks: "length chunks \<le> length (stored_chunks chunks)"
  by (induction chunks rule: stored_chunks.induct) (simp_all add: stored_chunk_def)

text \<open>A stream of stored blocks is restored, and consumed to its end.\<close>

lemma stored_stream_inflates:
  assumes "chunks \<noteq> []" and "\<forall>c \<in> set chunks. length c \<le> 65535" and "length (concat chunks) \<le> length out"
    and "flags AND FLAG_PARSE_ZLIB_HEADER \<noteq> 0" and "flags AND FLAG_NON_WRAPPING \<noteq> 0"
  shows "\<exists>s. tinfl_decompress (zlib_stored chunks) out flags = Inr (STATUS_DONE, s) \<and> in_cur s = length (zlib_stored chunks) \<and>
    out_cur s = length (concat chunks) \<and> out_buf s = concat chunks @ drop (length (concat chunks)) out"
proof -
  let ?inp = "zlib_stored chunks" and ?data = "concat chunks"
  let ?s = "tinfl_start ?inp out flags" and ?n = "adler32_of ?data"
  have fuel: "length chunks \<le> tinfl_fuel ?inp out"
    using length_stored_chunks [of chunks] by (simp add: tinfl_fuel_def zlib_stored_def)
  have r0: "reading ?s (0x78 # 0x01 # stored_chunks chunks @ be32_of ?n)"
    by (simp add: reading_def tinfl_start_def zlib_stored_def)
  have fl: "flag FLAG_NON_WRAPPING ?s" "flag FLAG_PARSE_ZLIB_HEADER ?s" using assms(4,5) by (simp_all add: tinfl_start_def)
  have "header_ok 0x78 0x01" by (simp add: header_ok_def)
  note h = header_reading [OF r0 this fl(1)]
  obtain s1 where b: "inflate_blocks (tinfl_fuel ?inp out) (?s\<lparr>in_cur := in_cur ?s + 2\<rparr>) = (Inr (), s1)"
    and r1: "reading s1 (be32_of ?n)" and s1: "in_buf s1 = ?inp" "decomp_flags s1 = flags" "m_check_adler32 s1 = 1"
      "out_cur s1 = length ?data" "out_buf s1 = ?data @ drop (length ?data) out"
    using inflate_blocks_stored [OF h(2) assms(1,2) _ fuel] assms(3) by (auto simp: tinfl_start_def)
  have f1: "flag FLAG_PARSE_ZLIB_HEADER s1" using s1 assms(4) by simp
  let ?s2 = "s1\<lparr>in_cur := in_cur s1 + 4, m_z_adler32 := of_nat ?n\<rparr>"
  have c: "tinfl_core (tinfl_fuel ?inp out) ?s = (Inr (), ?s2)"
    using h(1) fl(2) b trailer_reading [OF r1 adler32_of_less f1] by (simp add: tinfl_core_def bnd_def)
  have ok: "inflator_ok ?s2"
    using works_ok [OF works_core [OF tinfl_start_ok(2)] c tinfl_start_ok(1)] by simp
  obtain st s3 where x: "exit_state STATUS_DONE ?s2 = (st, s3)" by fastforce
  have z: "num_bits ?s2 = 0" using r1 by (simp add: reading_def)
  have "unat (of_nat ?n :: u32) = ?n" using adler32_of_less [of ?data] by (simp add: unsigned_of_nat take_bit_nat_eq_self)
  then have st: "st = STATUS_DONE" "in_cur s3 = in_cur ?s2"
    using common_exit_done [of ?s2] x z f1 s1 assms(3) by auto
  have "drop (in_cur s1) ?inp = be32_of ?n" using r1 s1 by (simp add: reading_def)
  then have "length (drop (in_cur s1) ?inp) = 4" by (simp add: be32_of_def)
  then have len: "in_cur s1 + 4 = length ?inp" by simp
  have "tinfl_decompress ?inp out flags = Inr (STATUS_DONE, s3)"
    using c x st(1) fl(1) by (simp add: tinfl_decompress_eq tinfl_body_core Let_def)
  then show ?thesis using common_exit_io [OF x ok] s1 st(2) len by simp
qed

end
