(* ===== verification/Inflate_Streams.thy ===== *)
theory Inflate_Streams
  imports Inflate_Blocks Inflate_Stored
begin

text \<open>
  Streams of any blocks: stored, with the fixed codes, or with codes of their own. The decompressor
  restores what a well-formed stream stands for.
\<close>

section \<open>Stored blocks\<close>

lemma bits_of_byte_value: "bits_value (map (bit (b :: byte)) [0..<8]) = unat b"
proof -
  have "map (bit b) [0..<8] = map (bit (unat b)) [0..<8]" by (simp add: bit_unsigned_iff)
  moreover have "bits_value (map (bit (unat b)) [0..<8]) = unat b" by (rule bits_value_nat_bits) (use unsigned_less [of b] in simp)
  ultimately show ?thesis by (simp only:)
qed

lemma runs_byte: "runs F (get_bits 8) (byte_bits [b]) (unat b) F"
  using runs_get_bits(1) [of "byte_bits [b]" 8 F] bits_of_byte_value [of b] by simp

lemma byte_bits_inj: "map (bit (b :: byte)) [0..<8] = map (bit c) [0..<8] \<longleftrightarrow> b = c"
  using bits_of_byte_value [of b] bits_of_byte_value [of c] by (metis word_unat_eq_iff)

lemma byte_bits_prefix:
  "byte_bits xs = byte_bits ys @ rest \<Longrightarrow> \<exists>zs. xs = ys @ zs \<and> rest = byte_bits zs"
proof (induction ys arbitrary: xs)
  case (Cons y ys)
  then obtain x xs' where x: "xs = x # xs'" by (cases xs) simp_all
  then have "map (bit x) [0..<8] = map (bit y) [0..<8]" "byte_bits xs' = byte_bits ys @ rest"
    using Cons.prems by (simp_all add: append_eq_append_conv)
  from iffD1 [OF byte_bits_inj this(1)] Cons.IH [OF this(2)] show ?case using x by simp
qed simp

lemma byte_bits_eq: "byte_bits xs = byte_bits ys \<longleftrightarrow> xs = ys"
proof
  assume e: "byte_bits xs = byte_bits ys"
  then obtain zs where "xs = ys @ zs" "byte_bits zs = []" using byte_bits_prefix [of xs ys "[]"] by auto
  then show "xs = ys" by (metis append_Nil2 length_byte_bits length_0_conv mult_eq_0_iff zero_neq_numeral)
qed simp

text \<open>Between two bytes the bit buffer holds whole bytes.\<close>

lemma num_bits_mod: "unat (num_bits s) mod 8 = length (stream s) mod 8"
  by (simp add: length_stream)

lemma raw_byte_stream:
  assumes "reader_ok s" and "stream s = byte_bits [b] @ rest" and "length rest mod 8 = 0"
  shows "\<exists>s'. raw_byte s = (Inr (unat b), s') \<and> frame s' = frame s \<and> reader_ok s' \<and> stream s' = rest"
proof (cases "num_bits s = 0")
  case True
  then have "byte_bits (drop (in_cur s) (in_buf s)) = byte_bits [b] @ rest" using assms(2) by (simp add: stream_def)
  from byte_bits_prefix [OF this] obtain zs where z: "drop (in_cur s) (in_buf s) = b # zs" "rest = byte_bits zs" by auto
  have r: "reading s (b # zs)" using assms(1) True z by (auto simp: reading_def reader_ok_def intro: bit_word_eqI)
  note g = reading_byte [OF r]
  let ?s = "s\<lparr>in_cur := in_cur s + 1\<rparr>"
  have "in_cur s < length (in_buf s)" using z(1) by (metis drop_all list.distinct(1) not_less)
  then have "reader_ok ?s" using assms(1) True by (auto simp: reader_ok_def inflator_ok_def)
  moreover have "stream ?s = rest" using g(2) z(2) by (simp add: stream_def reading_def)
  ultimately show ?thesis using g(1) True by (auto simp: raw_byte_def bnd_def give_def frame_def)
next
  case False
  from runsE [OF runs_byte refl assms(1,2)] show ?thesis using False by (auto simp: raw_byte_def)
qed

lemma stored_bits_stream:
  assumes "reader_ok s" and "stream s = byte_bits data @ rest" and "length rest mod 8 = 0" and "holds (frame s) out"
    and "length out + length data \<le> length (out_buf s)"
  shows "\<exists>s' k. stored_bits (length data) s = (Inr (length data - k), s') \<and> k \<le> length data \<and> (k = length data \<or> num_bits s' = 0) \<and>
    wrote (frame s) (out @ take k data) (frame s') \<and> reader_ok s' \<and> stream s' = byte_bits (drop k data) @ rest"
  using assms
proof (induction data arbitrary: s out)
  case Nil
  then show ?case by (auto intro: wrote_self)
next
  case (Cons b data)
  show ?case
  proof (cases "num_bits s = 0")
    case True
    then show ?thesis using Cons.prems by (intro exI [of _ s] exI [of _ 0]) (auto intro: wrote_self)
  next
    case False
    have "stream s = byte_bits [b] @ byte_bits data @ rest" using Cons.prems(2) by simp
    from runsE [OF runs_byte refl Cons.prems(1) this] obtain s1 where 1: "get_bits 8 s = (Inr (unat b), s1)" "frame s1 = frame s" "reader_ok s1" "stream s1 = byte_bits data @ rest" .
    have l: "length (out_buf s1) = length (out_buf s)" using arg_cong [OF 1(2), of out_buf] by simp
    obtain s2 where 2: "put_byte b s1 = (Inr (), s2)" "wrote (frame s1) (out @ [b]) (frame s2)" "reader_ok s2" "stream s2 = stream s1"
      using put_byte_holds [of s1 out b] 1 Cons.prems(4,5) l by auto
    have l2: "length (out_buf s2) = length (out_buf s)" using wrote_simps [OF 2(2)] l by simp
    obtain s3 k where 3: "stored_bits (length data) s2 = (Inr (length data - k), s3)" "k \<le> length data"
        "k = length data \<or> num_bits s3 = 0" "wrote (frame s2) ((out @ [b]) @ take k data) (frame s3)" "reader_ok s3"
        "stream s3 = byte_bits (drop k data) @ rest"
      using Cons.IH [OF 2(3) _ Cons.prems(3) wrote_holds [OF 2(2)]] 1(4) 2(4) Cons.prems(5) l2 by auto
    have "wrote (frame s) (out @ take (Suc k) (b # data)) (frame s3)"
      using wrote_trans [OF 2(2) 3(4)] 1(2) by simp
    then show ?thesis
      using False 1(1) 2(1) 3 by (intro exI [of _ s3] exI [of _ "Suc k"]) (auto simp: bnd_def)
  qed
qed

lemma align_stream:
  assumes "reader_ok s" and "stream s = pad @ rest" and "length pad < 8" and "length rest mod 8 = 0"
  shows "\<exists>s'. skip_bits (unat (num_bits s AND 7)) s = (Inr (), s') \<and> frame s' = frame s \<and> reader_ok s' \<and> stream s' = rest"
proof -
  have "unat (num_bits s AND 7) = (length pad + length rest) mod 8"
    using num_bits_mod [of s] assms(2) by (simp add: and_7)
  also have "\<dots> = length pad" using assms(3,4) by (metis mod_add_right_eq add_0_right mod_less)
  finally have n: "unat (num_bits s AND 7) = length pad" .
  have "runs (frame s) (skip_bits (length pad)) pad () (frame s)" by (rule runs_get_bits) (use assms(3) in simp_all)
  from runsE [OF this refl assms(1,2)] show ?thesis unfolding n by auto
qed

lemma stored_copy_stream:
  assumes "reader_ok s" and "stream s = byte_bits data @ rest" and "data = [] \<or> num_bits s = 0" and "holds (frame s) out"
    and "length out + length data \<le> length (out_buf s)"
  shows "\<exists>s'. stored_copy (length data) s = (Inr (), s') \<and> grew (frame s) (out @ data) (frame s') \<and> reader_ok s' \<and> stream s' = rest"
proof (cases "data = []")
  case True
  then show ?thesis using assms by (subst stored_copy_eq) (auto simp: grew_def)
next
  case False
  then have z: "num_bits s = 0" using assms(3) by simp
  then have "byte_bits (drop (in_cur s) (in_buf s)) = byte_bits data @ rest" using assms(2) by (simp add: stream_def)
  from byte_bits_prefix [OF this] obtain zs where d: "drop (in_cur s) (in_buf s) = data @ zs" "rest = byte_bits zs" by auto
  let ?n = "length data"
  have n: "?n \<le> length (in_buf s) - in_cur s" "in_cur s + ?n \<le> length (in_buf s)"
    using arg_cong [OF d(1), of length] assms(1) by (auto simp: reader_ok_def inflator_ok_def)
  have h: "out_cur s = length out" "take (length out) (out_buf s) = out" using assms(4) by (simp_all add: holds_def)
  have e: "stored_copy ?n s = (Inr (), copied_in ?n s)" by (rule stored_copy_whole) (use n assms(5) h in simp_all)
  have t: "take ?n (drop (in_cur s) (in_buf s)) = data" using d by simp
  have "grew (frame s) (out @ data) (frame (copied_in ?n s))"
    using h t assms(5) by (simp add: grew_def holds_def copied_in_def frame_def)
  moreover have "reader_ok (copied_in ?n s)"
    using assms(1,5) h n t by (simp add: reader_ok_def inflator_ok_def copied_in_def arrays_ok_def)
  moreover have "drop (in_cur s + ?n) (in_buf s) = zs"
    using d(1) by (metis add.commute append_eq_conv_conj drop_drop)
  then have "stream (copied_in ?n s) = rest" using z d(2) by (simp add: stream_def copied_in_def)
  ultimately show ?thesis using e by blast
qed

lemma stored_block_stream:
  assumes "reader_ok s" and "stream s = pad @ byte_bits (le16 (length data) @ le16 (65535 - length data) @ data) @ rest"
    and "length pad < 8" and "length rest mod 8 = 0" and "length data \<le> 65535" and "holds (frame s) out"
    and "length out + length data \<le> length (out_buf s)"
  shows "\<exists>s'. inflate_block fuel 0 s = (Inr (), s') \<and> grew (frame s) (out @ data) (frame s') \<and> reader_ok s' \<and> stream s' = rest"
proof -
  let ?n = "length data"
  obtain a b c d where l: "le16 ?n = [a, b]" "le16 (65535 - ?n) = [c, d]" by (simp add: le16_def)
  have v: "unat a OR push_bit 8 (unat b) = ?n" "unat c OR push_bit 8 (unat d) = 65535 - ?n"
    using le16_value [of ?n] le16_value [of "65535 - ?n"] assms(5) l by (simp_all add: le16_def)
  obtain s0 where 0: "skip_bits (unat (num_bits s AND 7)) s = (Inr (), s0)" "frame s0 = frame s" "reader_ok s0"
      "stream s0 = byte_bits [a] @ byte_bits ([b, c, d] @ data) @ rest"
    using align_stream [OF assms(1,2,3)] assms(4) l by auto
  obtain s1 where 1: "raw_byte s0 = (Inr (unat a), s1)" "frame s1 = frame s" "reader_ok s1" "stream s1 = byte_bits [b] @ byte_bits ([c, d] @ data) @ rest"
    using raw_byte_stream [OF 0(3,4)] 0(2) assms(4) by auto
  obtain s2 where 2: "raw_byte s1 = (Inr (unat b), s2)" "frame s2 = frame s" "reader_ok s2" "stream s2 = byte_bits [c] @ byte_bits (d # data) @ rest"
    using raw_byte_stream [OF 1(3,4)] 1(2) assms(4) by auto
  obtain s3 where 3: "raw_byte s2 = (Inr (unat c), s3)" "frame s3 = frame s" "reader_ok s3" "stream s3 = byte_bits [d] @ byte_bits data @ rest"
    using raw_byte_stream [OF 2(3,4)] 2(2) assms(4) by auto
  obtain s4 where 4: "raw_byte s3 = (Inr (unat d), s4)" "frame s4 = frame s" "reader_ok s4" "stream s4 = byte_bits data @ rest"
    using raw_byte_stream [OF 3(3,4)] 3(2) assms(4) by auto
  have "out_buf s4 = out_buf s" using 4(2) by (metis frame_sel(2))
  then have h: "holds (frame s4) out" "length out + ?n \<le> length (out_buf s4)" using assms(6,7) 4(2) by simp_all
  obtain s5 k where 5: "stored_bits ?n s4 = (Inr (?n - k), s5)" "k \<le> ?n" "k = ?n \<or> num_bits s5 = 0"
      "wrote (frame s4) (out @ take k data) (frame s5)" "reader_ok s5" "stream s5 = byte_bits (drop k data) @ rest"
    using stored_bits_stream [OF 4(3,4) assms(4) h] by auto
  have "length (out @ take k data) + length (drop k data) \<le> length (out_buf s5)"
    using 5(2) h(2) wrote_simps [OF 5(4)] by simp
  then obtain s6 where 6: "stored_copy (length (drop k data)) s5 = (Inr (), s6)" "grew (frame s5) ((out @ take k data) @ drop k data) (frame s6)"
      "reader_ok s6" "stream s6 = rest"
    using stored_copy_stream [OF 5(5,6) _ wrote_holds [OF 5(4)]] 5(3) by auto
  have "?n = 65535 XOR (65535 - ?n)" using length_complement [OF assms(5)] by simp
  then have "inflate_block fuel 0 s = (Inr (), s6)"
    using 0(1) 1(1) 2(1) 3(1) 4(1) 5(1) 6(1) v by (simp add: inflate_block_def stored_block_def bnd_def Let_def)
  moreover have "grew (frame s) (out @ data) (frame s6)"
    using grew_trans [OF grew_wrote [OF 5(4)] 6(2)] 4(2) by simp
  ultimately show ?thesis using 6(3,4) by blast
qed

section \<open>Sequences of blocks\<close>

text \<open>A stored block has bits in front that fill up the last byte.\<close>

datatype block = Stored "bool list" "byte list" | Fixed "token list" | Dynamic dyn "token list"

fun block_type :: "block \<Rightarrow> nat" where
  "block_type (Stored pad data) = 0"
| "block_type (Fixed ts) = 1"
| "block_type (Dynamic d ts) = 2"

fun block_bits :: "block \<Rightarrow> bool list" where
  "block_bits (Stored pad data) = pad @ byte_bits (le16 (length data) @ le16 (65535 - length data) @ data)"
| "block_bits (Fixed ts) = tokens_bits fixed_lit fixed_dst ts"
| "block_bits (Dynamic d ts) = dyn_bits d @ tokens_bits (d_lit d) (d_dst d) ts"

fun blocks_bits :: "block list \<Rightarrow> bool list" where
  "blocks_bits [] = []"
| "blocks_bits (b # bs) = nat_bits 3 (2 * block_type b + of_bool (bs = [])) @ block_bits b @ blocks_bits bs"

text \<open>Whether a block can stand behind \<open>p\<close> bits.\<close>

fun block_ok :: "nat \<Rightarrow> block \<Rightarrow> bool" where
  "block_ok p (Stored pad data) \<longleftrightarrow> length pad < 8 \<and> (p + length pad) mod 8 = 0 \<and> length data \<le> 65535"
| "block_ok p (Fixed ts) \<longleftrightarrow> tokens_ok fixed_lit fixed_dst ts"
| "block_ok p (Dynamic d ts) \<longleftrightarrow> dyn_ok d \<and> tokens_ok (d_lit d) (d_dst d) ts"

fun blocks_ok :: "nat \<Rightarrow> block list \<Rightarrow> bool" where
  "blocks_ok p [] = True"
| "blocks_ok p (b # bs) \<longleftrightarrow> block_ok (p + 3) b \<and> blocks_ok (p + 3 + length (block_bits b)) bs"

fun expand_block :: "block \<Rightarrow> byte list \<Rightarrow> byte list option" where
  "expand_block (Stored pad data) out = Some (out @ data)"
| "expand_block (Fixed ts) out = expand ts out"
| "expand_block (Dynamic d ts) out = expand ts out"

fun expand_blocks :: "block list \<Rightarrow> byte list \<Rightarrow> byte list option" where
  "expand_blocks [] out = Some out"
| "expand_blocks (b # bs) out = (case expand_block b out of None \<Rightarrow> None | Some out' \<Rightarrow> expand_blocks bs out')"

lemma length_base_pos: "i < 29 \<Longrightarrow> 1 \<le> s_length_base ! i"
proof -
  have "list_all (\<lambda>b. 1 \<le> b) (take 29 s_length_base)" by (simp add: s_length_base_def)
  then show "i < 29 \<Longrightarrow> 1 \<le> s_length_base ! i" by (auto simp: list_all_length extras_length)
qed

lemma expand_count:
  "expand ts out = Some out' \<Longrightarrow> \<forall>t \<in> set ts. token_ok lit dst t \<Longrightarrow> length out + length ts \<le> length out'"
proof (induction ts out rule: expand.induct)
  case (3 i x j y ts out)
  then show ?case using length_base_pos [of i] by (auto split: if_splits)
qed auto

lemma expand_blocks_length: "expand_blocks bs out = Some out' \<Longrightarrow> length out \<le> length out'"
proof (induction bs arbitrary: out)
  case (Cons b bs)
  then obtain o1 where "expand_block b out = Some o1" "expand_blocks bs o1 = Some out'" by (auto split: option.splits)
  then show ?case using Cons.IH [of o1] expand_length by (cases b) fastforce+
qed simp

lemma inflate_block_stream:
  assumes "reader_ok s" and "stream s = block_bits b @ rest" and "block_ok p b" and "(p + length (stream s)) mod 8 = 0"
    and "holds (frame s) out" and "expand_block b out = Some out'" and "length out' \<le> length (out_buf s)" and "length (out_buf s) < fuel"
  shows "\<exists>s'. inflate_block fuel (block_type b) s = (Inr (), s') \<and> grew (frame s) out' (frame s') \<and> reader_ok s' \<and> stream s' = rest"
proof (cases b)
  case (Stored pad data)
  have "(p + length pad + length rest) mod 8 = 0" using assms(2,4) Stored by (simp add: le16_def) presburger
  then have "length rest mod 8 = 0" using assms(3) Stored by simp presburger
  then show ?thesis
    using stored_block_stream [OF assms(1), of pad data rest out fuel] assms(2,3,5,6,7) Stored by auto
next
  case (Fixed ts)
  then show ?thesis
    using static_block [OF assms(1), of ts rest out out' fuel] assms expand_count [of ts out out' fixed_lit fixed_dst]
    by (auto simp: tokens_ok_def)
next
  case (Dynamic d ts)
  then show ?thesis
    using dynamic_block [OF _ assms(1), of d ts rest out out' fuel] assms expand_count [of ts out out' "d_lit d" "d_dst d"]
    by (auto simp: tokens_ok_def)
qed

lemma grew_simps:
  assumes "grew (frame s) out (frame s')"
  shows "holds (frame s') out" and "length (out_buf s') = length (out_buf s)" and "in_buf s' = in_buf s"
    and "decomp_flags s' = decomp_flags s" and "m_check_adler32 s' = m_check_adler32 s" and "m_z_adler32 s' = m_z_adler32 s"
  using assms by (simp_all add: grew_def)

lemma block_type_less: "block_type b < 3"
  by (cases b) simp_all

lemma block_head: "(2 * t + of_bool f) AND 1 = (of_bool f :: nat)" "drop_bit 1 (2 * t + of_bool f :: nat) = t"
  by (cases f; simp add: and_one_eq drop_bit_Suc)+

lemma inflate_blocks_stream:
  assumes "bs \<noteq> []" and "reader_ok s" and "stream s = blocks_bits bs @ rest" and "blocks_ok p bs" and "(p + length (stream s)) mod 8 = 0"
    and "holds (frame s) out" and "expand_blocks bs out = Some out'" and "length out' \<le> length (out_buf s)"
    and "length (out_buf s) + length bs < fuel"
  shows "\<exists>s'. inflate_blocks fuel s = (Inr (), s') \<and> grew (frame s) out' (frame s') \<and> reader_ok s' \<and> stream s' = rest"
  using assms
proof (induction bs arbitrary: s p out fuel)
  case (Cons b bs)
  obtain k where fuel: "fuel = Suc k" using Cons.prems(9) by (cases fuel) simp_all
  obtain o1 where o1: "expand_block b out = Some o1" "expand_blocks bs o1 = Some out'"
    using Cons.prems(7) by (auto split: option.splits)
  note l1 = expand_blocks_length [OF o1(2)]
  let ?h = "2 * block_type b + of_bool (bs = []) :: nat"
  have "?h < 2 ^ 3" using block_type_less [of b] by simp
  then have "runs (frame s) (get_bits 3) (nat_bits 3 ?h) ?h (frame s)" by (rule runs_nat_bits) simp
  moreover have "stream s = nat_bits 3 ?h @ block_bits b @ blocks_bits bs @ rest" using Cons.prems(3) by simp
  ultimately obtain s1 where 1: "get_bits 3 s = (Inr ?h, s1)" "frame s1 = frame s" "reader_ok s1"
      "stream s1 = block_bits b @ blocks_bits bs @ rest"
    using runsE [OF _ refl Cons.prems(2)] by metis
  have buf: "out_buf s1 = out_buf s" using 1(2) by (metis frame_sel(2))
  have p1: "(p + 3 + length (stream s1)) mod 8 = 0"
    using Cons.prems(3,5) 1(4) by (simp add: nat_bits_def algebra_simps)
  obtain s2 where 2: "inflate_block (Suc k) (block_type b) s1 = (Inr (), s2)" "grew (frame s1) o1 (frame s2)" "reader_ok s2"
      "stream s2 = blocks_bits bs @ rest"
    using inflate_block_stream [OF 1(3,4), of "p + 3" out o1 "Suc k"] Cons.prems(4,6,8,9) p1 o1(1) 1(2) buf fuel l1 by auto
  show ?case
  proof (cases "bs = []")
    case True
    then show ?thesis using 1(1,2) 2 o1(2) fuel block_head [of "block_type b" True] by (auto simp: bnd_def give_def)
  next
    case False
    have "(p + 3 + length (block_bits b) + length (stream s2)) mod 8 = 0" using p1 1(4) 2(4) by (simp add: algebra_simps)
    then obtain s3 where 3: "inflate_blocks k s2 = (Inr (), s3)" "grew (frame s2) out' (frame s3)" "reader_ok s3" "stream s3 = rest"
      using Cons.IH [OF False 2(3,4), of "p + 3 + length (block_bits b)" o1 k] Cons.prems(4,8,9) grew_simps [OF 2(2)] o1(2) buf fuel by auto
    have "grew (frame s) out' (frame s3)" using grew_trans [OF 2(2) 3(2)] 1(2) by simp
    then show ?thesis
      using False 1(1) 2(1) 3 fuel block_head [of "block_type b" False] by (auto simp: bnd_def give_def)
  qed
qed simp

section \<open>Whole streams\<close>

text \<open>The trailer, with anything behind it.\<close>

lemma put_back_bytes:
  assumes "reader_ok s" and "stream s = byte_bits bs" and "in_buf s = pre @ bs"
  shows "(put_back s)\<lparr>bit_buf := bit_buf (put_back s) AND mask (unat (num_bits (put_back s)))\<rparr> =
    s\<lparr>in_cur := length pre, num_bits := 0, bit_buf := 0\<rparr>"
proof -
  have ok: "inflator_ok s" using assms(1) by (simp add: reader_ok_def)
  note p = put_back_ok [OF ok]
  have "length (stream s) = 8 * length bs" using assms(2) by simp
  then have n: "unat (num_bits s) mod 8 = 0" and len: "unat (num_bits s) + 8 * (length (in_buf s) - in_cur s) = 8 * length bs"
    using num_bits_mod [of s] by (simp_all add: length_stream)
  have z: "num_bits (put_back s) = 0" using p n by (simp add: unat_eq_0)
  have "work_left (put_back s) = work_left s" "in_buf (put_back s) = in_buf s" "length (out_buf (put_back s)) = length (out_buf s)"
    "out_cur (put_back s) = out_cur s" "in_cur (put_back s) \<le> length (in_buf s)"
    using p by (auto simp: extends_def inflator_ok_def)
  then have c: "in_cur (put_back s) = length pre"
    using len z assms(3) by (auto simp: work_left_def)
  have r: "\<exists>i n. put_back s = s\<lparr>in_cur := i, num_bits := n\<rparr>" for s
  proof (induction s rule: put_back.induct)
    case (1 s)
    show ?case
    proof (cases "0 < in_cur s \<and> 8 \<le> num_bits s")
      case True
      with 1 obtain i n where "put_back (s\<lparr>in_cur := in_cur s - 1, num_bits := num_bits s - 8\<rparr>) =
          s\<lparr>in_cur := in_cur s - 1, num_bits := num_bits s - 8\<rparr>\<lparr>in_cur := i, num_bits := n\<rparr>" by blast
      then show ?thesis using True by (subst put_back.simps) auto
    next
      case False
      then show ?thesis by (subst put_back.simps) (auto intro!: exI [of _ "in_cur s"] exI [of _ "num_bits s"])
    qed
  qed
  then obtain i n where "put_back s = s\<lparr>in_cur := i, num_bits := n\<rparr>" by blast
  then show ?thesis using z c by simp
qed

lemma trailer_stream:
  assumes "reader_ok s" and "stream s = pad @ byte_bits (be32_of n @ extra)" and "length pad < 8" and "n < 2 ^ 32"
    and "in_buf s = pre @ be32_of n @ extra" and "flag FLAG_PARSE_ZLIB_HEADER s"
  shows "\<exists>s'. trailer s = (Inr (), s') \<and> frame s' = (frame s)\<lparr>m_z_adler32 := of_nat n\<rparr> \<and> num_bits s' = 0 \<and>
    in_cur s' = length pre + 4"
proof -
  obtain s1 where 1: "skip_bits (unat (num_bits s AND 7)) s = (Inr (), s1)" "frame s1 = frame s" "reader_ok s1"
      "stream s1 = byte_bits (be32_of n @ extra)"
    using align_stream [OF assms(1-3)] by auto
  have b: "in_buf s1 = pre @ be32_of n @ extra" using 1(2) assms(5) by (metis frame_sel(1))
  have f: "flag FLAG_PARSE_ZLIB_HEADER s1" using 1(2) assms(6) by (metis frame_sel(4))
  let ?s = "s1\<lparr>in_cur := length pre, num_bits := 0, bit_buf := 0\<rparr>"
  have p: "(put_back s1)\<lparr>bit_buf := bit_buf (put_back s1) AND mask (unat (num_bits (put_back s1)))\<rparr> = ?s"
    by (rule put_back_bytes [OF 1(3,4) b])
  have z: "num_bits (put_back s1) = 0" using arg_cong [OF p, of num_bits] by simp
  have "reading ?s (be32_of n @ extra)" using b by (simp add: reading_def)
  from adler_bytes_reading [OF this assms(4)] have "trailer s = (Inr (), ?s\<lparr>in_cur := in_cur ?s + 4, m_z_adler32 := of_nat n\<rparr>)"
    unfolding trailer_def bnd_def [of "\<lambda>s. skip_bits (unat (num_bits s AND 7)) s"] 1(1) Let_def prod.case sum.case p
    using f z by simp
  moreover have "frame (?s\<lparr>in_cur := in_cur ?s + 4, m_z_adler32 := of_nat n\<rparr>) = (frame s)\<lparr>m_z_adler32 := of_nat n\<rparr>"
    unfolding 1(2) [symmetric] by (rule inflator.equality) (simp_all add: frame_def)
  ultimately show ?thesis by auto
qed

text \<open>A zlib stream of the blocks \<open>bs\<close>: header, blocks, bits that fill up the last byte, checksum. Bytes behind it are not read.\<close>

definition zlib_stream :: "block list \<Rightarrow> byte list \<Rightarrow> byte list \<Rightarrow> bool" where
  "zlib_stream bs data inp \<longleftrightarrow> bs \<noteq> [] \<and> blocks_ok 16 bs \<and> expand_blocks bs [] = Some data \<and>
     (\<exists>c0 c1 body pad extra. header_ok c0 c1 \<and> length pad < 8 \<and> byte_bits body = blocks_bits bs @ pad \<and>
        inp = c0 # c1 # body @ be32_of (adler32_of data) @ extra)"

lemma tinfl_start_stream:
  "reader_ok (tinfl_start inp out flags)" "stream (tinfl_start inp out flags) = byte_bits inp" "holds (frame (tinfl_start inp out flags)) []"
  using tinfl_start_ok(1) [of inp out flags] by (simp_all add: reader_ok_def tinfl_start_def stream_def holds_def)

lemma blocks_count: "length bs \<le> length (blocks_bits bs)"
  by (induction bs) (auto simp: nat_bits_def)

lemma zlib_stream_inflates:
  assumes "zlib_stream bs data inp" and "length data \<le> length out"
    and "flags AND FLAG_PARSE_ZLIB_HEADER \<noteq> 0" and "flags AND FLAG_NON_WRAPPING \<noteq> 0"
  shows "\<exists>s. tinfl_decompress inp out flags = Inr (STATUS_DONE, s) \<and> out_cur s = length data \<and> take (length data) (out_buf s) = data \<and>
    length (out_buf s) = length out \<and> in_cur s \<le> length inp"
proof -
  let ?n = "adler32_of data"
  obtain c0 c1 body pad extra where i: "header_ok c0 c1" "length pad < 8" "byte_bits body = blocks_bits bs @ pad"
      "inp = c0 # c1 # body @ be32_of ?n @ extra" and b: "bs \<noteq> []" "blocks_ok 16 bs" "expand_blocks bs [] = Some data"
    using assms(1) by (auto simp: zlib_stream_def)
  let ?s = "tinfl_start inp out flags" and ?fuel = "tinfl_fuel inp out"
  note st = tinfl_start_stream [of inp out flags]
  have fl: "flag FLAG_NON_WRAPPING ?s" "flag FLAG_PARSE_ZLIB_HEADER ?s" using assms(3,4) by (simp_all add: tinfl_start_def)
  have r0: "reading ?s (c0 # c1 # body @ be32_of ?n @ extra)" using i(4) by (simp add: reading_def tinfl_start_def)
  note h = header_reading [OF r0 i(1) fl(1)]
  let ?s1 = "?s\<lparr>in_cur := in_cur ?s + 2\<rparr>"
  have "in_buf ?s = inp" "num_bits ?s = 0" "in_cur ?s = 0" by (simp_all add: tinfl_start_def)
  then have r1: "reader_ok ?s1" using st(1) i(4) by (simp add: reader_ok_def inflator_ok_def)
  have s1: "stream ?s1 = blocks_bits bs @ pad @ byte_bits (be32_of ?n @ extra)"
    using h(2) i(3) by (simp add: stream_def reading_def)
  have l: "length (stream ?s1) = 8 * (length body + length (be32_of ?n @ extra))"
    using h(2) by (simp add: stream_def reading_def)
  have "length bs \<le> 8 * length body" using blocks_count [of bs] arg_cong [OF i(3), of length] by simp
  then have fuel: "length (out_buf ?s1) + length bs < ?fuel" using i(4) by (simp add: tinfl_fuel_def tinfl_start_def)
  have m: "(16 + length (stream ?s1)) mod 8 = 0" unfolding l by presburger
  have o: "holds (frame ?s1) []" "length data \<le> length (out_buf ?s1)" using st(3) assms(2) by (simp_all add: tinfl_start_def frame_def)
  obtain s2 where 2: "inflate_blocks ?fuel ?s1 = (Inr (), s2)" "grew (frame ?s1) data (frame s2)" "reader_ok s2"
      "stream s2 = pad @ byte_bits (be32_of ?n @ extra)"
    using inflate_blocks_stream [OF b(1) r1 s1 b(2) m o(1) b(3) o(2) fuel] by (elim exE conjE)
  note g = grew_simps [OF 2(2)]
  have f2: "flag FLAG_PARSE_ZLIB_HEADER s2" "in_buf s2 = (c0 # c1 # body) @ be32_of ?n @ extra" using g fl(2) i(4) by (simp_all add: tinfl_start_def)
  obtain s3 where 3: "trailer s2 = (Inr (), s3)" "frame s3 = (frame s2)\<lparr>m_z_adler32 := of_nat ?n\<rparr>" "num_bits s3 = 0"
    using trailer_stream [OF 2(3,4) i(2) adler32_of_less f2(2,1)] by auto
  have fr: "m_z_adler32 s3 = of_nat ?n" "out_buf s3 = out_buf s2" "out_cur s3 = out_cur s2" "decomp_flags s3 = decomp_flags s2"
      "m_check_adler32 s3 = m_check_adler32 s2"
    using arg_cong [OF 3(2), of m_z_adler32] arg_cong [OF 3(2), of out_buf] arg_cong [OF 3(2), of out_cur]
      arg_cong [OF 3(2), of decomp_flags] arg_cong [OF 3(2), of m_check_adler32] by (simp_all add: frame_def)
  have c: "tinfl_core ?fuel ?s = (Inr (), s3)" using h(1) fl(2) 2(1) 3(1) by (simp add: tinfl_core_def bnd_def)
  have ok: "inflator_ok s3" using works_ok [OF works_core [OF tinfl_start_ok(2)] c tinfl_start_ok(1)] by simp
  have o: "out_cur s3 = length data" "take (length data) (out_buf s3) = data" using g(1) fr by (simp_all add: holds_def)
  obtain st s4 where x: "exit_state STATUS_DONE s3 = (st, s4)" by fastforce
  have "unat (of_nat ?n :: u32) = ?n" using adler32_of_less [of data] by (simp add: unsigned_of_nat take_bit_nat_eq_self)
  then have "st = STATUS_DONE"
    using common_exit_done(1) [of s3] x 3(3) f2(1) o fr g(5) ok by (auto simp: tinfl_start_def inflator_ok_def)
  then have "tinfl_decompress inp out flags = Inr (STATUS_DONE, s4)"
    using c x fl(1) by (simp add: tinfl_decompress_eq tinfl_body_core Let_def)
  moreover obtain st' s' where "tinfl_decompress inp out flags = Inr (st', s')" "in_cur s' \<le> length inp" "length (out_buf s') = length out"
    using tinfl_returns [of inp out flags] by blast
  ultimately show ?thesis using common_exit_io [OF x ok] o by auto
qed

end
