(* ===== verification/Miniz_Zlib.thy ===== *)
theory Miniz_Zlib
  imports Inflate_Streams
begin

text \<open>
  The zlib-style functions of miniz.c that the clients call through compression.c:
  \<open>mz_uncompress\<close> with \<open>mz_inflateInit\<close>, the call of \<open>mz_inflate\<close> that is given the whole
  stream (the first one, with \<open>MZ_FINISH\<close>), \<open>mz_inflateEnd\<close>; the bounds and \<open>mz_error\<close>.

  Pointers into the caller's buffers are offsets. Whether the allocation of the state succeeds is an
  argument.
\<close>

definition MZ_OK :: int where "MZ_OK = 0"
definition MZ_STREAM_END :: int where "MZ_STREAM_END = 1"
definition MZ_NEED_DICT :: int where "MZ_NEED_DICT = 2"
definition MZ_ERRNO :: int where "MZ_ERRNO = -1"
definition MZ_STREAM_ERROR :: int where "MZ_STREAM_ERROR = -2"
definition MZ_DATA_ERROR :: int where "MZ_DATA_ERROR = -3"
definition MZ_MEM_ERROR :: int where "MZ_MEM_ERROR = -4"
definition MZ_BUF_ERROR :: int where "MZ_BUF_ERROR = -5"
definition MZ_VERSION_ERROR :: int where "MZ_VERSION_ERROR = -6"
definition MZ_PARAM_ERROR :: int where "MZ_PARAM_ERROR = -10000"
definition MZ_DEFAULT_WINDOW_BITS :: int where "MZ_DEFAULT_WINDOW_BITS = 15"

lemmas MZ_defs = MZ_OK_def MZ_STREAM_END_def MZ_NEED_DICT_def MZ_ERRNO_def MZ_STREAM_ERROR_def MZ_DATA_ERROR_def
  MZ_MEM_ERROR_def MZ_BUF_ERROR_def MZ_VERSION_ERROR_def MZ_PARAM_ERROR_def MZ_DEFAULT_WINDOW_BITS_def

section \<open>Streams\<close>

record inflate_state =
  m_dict_ofs :: u32
  m_dict_avail :: u32
  m_first_call :: u32
  m_has_flushed :: u32
  m_window_bits :: int
  m_last_status :: int

record mz_stream =
  next_in :: nat
  avail_in :: u32
  total_in :: u64
  next_out :: nat
  avail_out :: u32
  total_out :: u64
  zstate :: "inflate_state option"
  data_type :: int
  zadler :: u64
  reserved :: u64

definition mz_stream_zero :: mz_stream where
  "mz_stream_zero = \<lparr>next_in = 0, avail_in = 0, total_in = 0, next_out = 0, avail_out = 0, total_out = 0,
     zstate = None, data_type = 0, zadler = 0, reserved = 0\<rparr>"

definition mz_inflateInit2 :: "bool \<Rightarrow> mz_stream option \<Rightarrow> int \<Rightarrow> int \<times> mz_stream option" where
  "mz_inflateInit2 alloc pStream window_bits =
     (case pStream of
        None \<Rightarrow> (MZ_STREAM_ERROR, None)
      | Some z \<Rightarrow>
          if window_bits \<noteq> MZ_DEFAULT_WINDOW_BITS \<and> - window_bits \<noteq> MZ_DEFAULT_WINDOW_BITS then (MZ_PARAM_ERROR, Some z)
          else let z = z\<lparr>data_type := 0, zadler := 0, total_in := 0, total_out := 0, reserved := 0\<rparr> in
            if \<not> alloc then (MZ_MEM_ERROR, Some z)
            else (MZ_OK, Some (z\<lparr>zstate := Some \<lparr>m_dict_ofs = 0, m_dict_avail = 0, m_first_call = 1, m_has_flushed = 0,
              m_window_bits = window_bits, m_last_status = STATUS_NEEDS_MORE_INPUT\<rparr>\<rparr>)))"

definition mz_inflateInit :: "bool \<Rightarrow> mz_stream option \<Rightarrow> int \<times> mz_stream option" where
  "mz_inflateInit alloc pStream = mz_inflateInit2 alloc pStream MZ_DEFAULT_WINDOW_BITS"

definition mz_inflateEnd :: "mz_stream option \<Rightarrow> int \<times> mz_stream option" where
  "mz_inflateEnd pStream =
     (case pStream of
        None \<Rightarrow> (MZ_STREAM_ERROR, None)
      | Some z \<Rightarrow> (MZ_OK, Some (if zstate z \<noteq> None then z\<lparr>zstate := None\<rparr> else z)))"

text \<open>\<open>mz_inflate\<close> with \<open>MZ_FINISH\<close> on a stream whose first call it is: the state after the call, the
  output buffer and the code, or the stop of the decompressor. A later call has no result here.\<close>

definition inflate_flags :: "inflate_state \<Rightarrow> u32" where
  "inflate_flags p =
     (if 0 < m_window_bits p then FLAG_COMPUTE_ADLER32 OR FLAG_PARSE_ZLIB_HEADER else FLAG_COMPUTE_ADLER32)
       OR FLAG_NON_WRAPPING"

definition mz_inflate_finish ::
    "mz_stream option \<Rightarrow> byte list \<Rightarrow> byte list \<Rightarrow> (stop + int \<times> mz_stream option \<times> byte list) option" where
  "mz_inflate_finish pStream src dst =
     (case pStream of
        None \<Rightarrow> Some (Inr (MZ_STREAM_ERROR, pStream, dst))
      | Some z \<Rightarrow>
          (case zstate z of
             None \<Rightarrow> Some (Inr (MZ_STREAM_ERROR, pStream, dst))
           | Some p \<Rightarrow>
               let first_call = m_first_call p; flags = inflate_flags p; p = p\<lparr>m_first_call := 0\<rparr> in
               if m_last_status p < 0 then Some (Inr (MZ_DATA_ERROR, Some (z\<lparr>zstate := Some p\<rparr>), dst))
               else if first_call = 0 then None
               else (case tinfl_decompress (take (unat (avail_in z)) (drop (next_in z) src))
                           (take (unat (avail_out z)) (drop (next_out z) dst)) flags of
                   Inl e \<Rightarrow> Some (Inl e)
                 | Inr (st, s) \<Rightarrow>
                     let in_bytes = in_cur s; out_bytes = out_cur s;
                         z = z\<lparr>next_in := next_in z + in_bytes, avail_in := avail_in z - of_nat in_bytes,
                               total_in := total_in z + of_nat in_bytes,
                               next_out := next_out z + out_bytes, avail_out := avail_out z - of_nat out_bytes,
                               total_out := total_out z + of_nat out_bytes,
                               zadler := ucast (m_check_adler32 s)\<rparr>;
                         p = p\<lparr>m_has_flushed := m_has_flushed p OR 1, m_last_status := st\<rparr>;
                         dst' = take (next_out z - out_bytes) dst @ out_buf s @
                                drop (next_out z - out_bytes + length (out_buf s)) dst
                     in if st < 0 then Some (Inr (MZ_DATA_ERROR, Some (z\<lparr>zstate := Some p\<rparr>), dst'))
                        else if st \<noteq> STATUS_DONE then
                          Some (Inr (MZ_BUF_ERROR, Some (z\<lparr>zstate := Some (p\<lparr>m_last_status := STATUS_FAILED\<rparr>)\<rparr>), dst'))
                        else Some (Inr (MZ_STREAM_END, Some (z\<lparr>zstate := Some p\<rparr>), dst')))))"

text \<open>\<open>mz_uncompress\<close> on whole buffers: the code, the length it stores through \<open>pDest_len\<close> and the output.\<close>

definition mz_uncompress :: "bool \<Rightarrow> byte list \<Rightarrow> byte list \<Rightarrow> (stop + int \<times> u64 \<times> byte list) option" where
  "mz_uncompress alloc pDest pSource =
     (let source_len = of_nat (length pSource) :: u64; dest_len = of_nat (length pDest) :: u64 in
      if 0xFFFFFFFF < source_len OR dest_len then Some (Inr (MZ_PARAM_ERROR, dest_len, pDest))
      else let stream = mz_stream_zero\<lparr>next_in := 0, avail_in := ucast source_len, next_out := 0, avail_out := ucast dest_len\<rparr>;
               (st, z) = mz_inflateInit alloc (Some stream)
           in if st \<noteq> MZ_OK then Some (Inr (st, dest_len, pDest))
              else case mz_inflate_finish z pSource pDest of
                  None \<Rightarrow> None
                | Some (Inl e) \<Rightarrow> Some (Inl e)
                | Some (Inr (st, z, pDest')) \<Rightarrow>
                    if st \<noteq> MZ_STREAM_END then
                      Some (Inr (if st = MZ_BUF_ERROR \<and> map_option avail_in z = Some 0 then MZ_DATA_ERROR else st,
                                 dest_len, pDest'))
                    else Some (Inr (fst (mz_inflateEnd z), (case z of Some z \<Rightarrow> total_out z | None \<Rightarrow> 0), pDest')))"

definition mz_deflateBound :: "u64 \<Rightarrow> u64" where
  "mz_deflateBound source_len =
     max (128 + (source_len * 110) div 100) (128 + source_len + ((source_len div (31 * 1024)) + 1) * 5)"

definition mz_compressBound :: "u64 \<Rightarrow> u64" where
  "mz_compressBound source_len = mz_deflateBound source_len"

definition error_descs :: "(int \<times> string) list" where
  "error_descs = [(MZ_OK, ''''), (MZ_STREAM_END, ''stream end''), (MZ_NEED_DICT, ''need dictionary''), (MZ_ERRNO, ''file error''),
     (MZ_STREAM_ERROR, ''stream error''), (MZ_DATA_ERROR, ''data error''), (MZ_MEM_ERROR, ''out of memory''),
     (MZ_BUF_ERROR, ''buf error''), (MZ_VERSION_ERROR, ''version error''), (MZ_PARAM_ERROR, ''parameter error'')]"

definition mz_error :: "int \<Rightarrow> string option" where
  "mz_error err = map_of error_descs err"

section \<open>Uncompressing\<close>

lemma inflate_flags_default [simp]:
  "m_window_bits p = 15 \<Longrightarrow> inflate_flags p AND FLAG_PARSE_ZLIB_HEADER \<noteq> 0 \<and> inflate_flags p AND FLAG_NON_WRAPPING \<noteq> 0"
  by (simp add: inflate_flags_def FLAG_COMPUTE_ADLER32_def FLAG_PARSE_ZLIB_HEADER_def FLAG_NON_WRAPPING_def)

text \<open>The stream after \<open>mz_inflateInit\<close>.\<close>

definition fresh_state :: inflate_state where
  "fresh_state = \<lparr>m_dict_ofs = 0, m_dict_avail = 0, m_first_call = 1, m_has_flushed = 0,
     m_window_bits = 15, m_last_status = STATUS_NEEDS_MORE_INPUT\<rparr>"

definition zlib_flags :: u32 where
  "zlib_flags = inflate_flags fresh_state"

lemma zlib_flags_simps [simp]: "zlib_flags AND FLAG_PARSE_ZLIB_HEADER \<noteq> 0" "zlib_flags AND FLAG_NON_WRAPPING \<noteq> 0"
  by (simp_all add: zlib_flags_def fresh_state_def)

definition u32_of_length :: "byte list \<Rightarrow> nat" where
  "u32_of_length xs = unat (ucast (of_nat (length xs) :: u64) :: u32)"

lemma u32_of_length_le: "u32_of_length xs \<le> length xs"
  by (simp add: u32_of_length_def unsigned_of_nat unsigned_ucast_eq take_bit_nat_eq_self_iff take_bit_nat_less_eq_self
      flip: take_bit_eq_mod)

lemma u32_of_length: "length xs < 2 ^ 32 \<Longrightarrow> u32_of_length xs = length xs"
  by (simp add: u32_of_length_def unsigned_of_nat unsigned_ucast_eq take_bit_nat_eq_self)

lemma u32_of_length_less: "u32_of_length xs < 2 ^ 32"
  using unsigned_less [of "ucast (of_nat (length xs) :: u64) :: u32"] by (simp add: u32_of_length_def)

text \<open>What \<open>mz_uncompress\<close> makes of the answer of the decompressor.\<close>

definition uncompress_answer :: "byte list \<Rightarrow> byte list \<Rightarrow> int \<Rightarrow> inflator \<Rightarrow> int \<times> u64 \<times> byte list" where
  "uncompress_answer pDest pSource st s =
     (let dst = out_buf s @ drop (length (out_buf s)) pDest in
      if st = STATUS_DONE then (MZ_OK, of_nat (out_cur s), dst)
      else (if st < 0 \<or> in_cur s = u32_of_length pSource then MZ_DATA_ERROR else MZ_BUF_ERROR, of_nat (length pDest), dst))"

lemma avail_zero: "k \<le> unat (a :: u32) \<Longrightarrow> a - of_nat k = 0 \<longleftrightarrow> k = unat a"
  using unsigned_less [of a] by (auto simp: unsigned_of_nat take_bit_nat_eq_self)

lemma mz_uncompress_eq:
  assumes "tinfl_decompress (take (u32_of_length pSource) pSource) (take (u32_of_length pDest) pDest) zlib_flags = Inr (st, s)"
    and "in_cur s \<le> u32_of_length pSource"
    and "\<not> 0xFFFFFFFF < (of_nat (length pSource) OR of_nat (length pDest) :: u64)"
  shows "mz_uncompress True pDest pSource = Some (Inr (uncompress_answer pDest pSource st s))"
proof -
  have f: "inflate_flags (fresh_state) = zlib_flags" by (simp add: zlib_flags_def)
  note k = avail_zero [of "in_cur s" "ucast (of_nat (length pSource) :: u64)", folded u32_of_length_def, OF assms(2)]
  show ?thesis
    using assms(1,3) k
    by (simp add: mz_uncompress_def mz_inflateInit_def mz_inflateInit2_def mz_inflate_finish_def MZ_defs Let_def
        mz_stream_zero_def mz_inflateEnd_def uncompress_answer_def STATUS_NEEDS_MORE_INPUT_def STATUS_DONE_def
        f [unfolded fresh_state_def STATUS_NEEDS_MORE_INPUT_def] flip: u32_of_length_def)
qed

lemma uncompress_outcome:
  assumes "\<not> 0xFFFFFFFF < (of_nat (length pSource) OR of_nat (length pDest) :: u64)"
  shows "\<exists>code len dst. mz_uncompress True pDest pSource = Some (Inr (code, len, dst)) \<and>
    code \<in> {MZ_OK, MZ_DATA_ERROR, MZ_BUF_ERROR, MZ_MEM_ERROR, MZ_PARAM_ERROR} \<and> length dst = length pDest \<and>
    (code \<noteq> MZ_OK \<longrightarrow> len = of_nat (length pDest)) \<and>
    (code = MZ_OK \<longrightarrow> unat len \<le> length pDest \<and>
       (\<exists>k \<ge> 4. k \<le> length pSource \<and> adler32_of (take (unat len) dst) = unat (be32 (take 4 (drop (k - 4) pSource)))))"
proof -
  let ?in = "take (u32_of_length pSource) pSource" and ?out = "take (u32_of_length pDest) pDest"
  obtain st s where r: "tinfl_decompress ?in ?out zlib_flags = Inr (st, s)" and
      le: "in_cur s \<le> length ?in" "length (out_buf s) = length ?out" "out_cur s \<le> length ?out"
    using tinfl_returns [of ?in ?out zlib_flags] by blast
  have len: "length ?in = u32_of_length pSource" "length ?out = u32_of_length pDest" by (simp_all add: min.absorb2 u32_of_length_le)
  have e: "mz_uncompress True pDest pSource = Some (Inr (uncompress_answer pDest pSource st s))"
    using mz_uncompress_eq [OF r _ assms] le(1) by (simp add: len)
  have n: "unat (of_nat (out_cur s) :: u64) = out_cur s"
    using le(3) u32_of_length_less [of pDest] by (simp add: len unsigned_of_nat take_bit_nat_eq_self)
  have l: "length (out_buf s @ drop (length (out_buf s)) pDest) = length pDest" using le(2) by simp
  show ?thesis
  proof (cases "st = STATUS_DONE")
    case True
    note c = tinfl_done_checksum [OF r [unfolded True] zlib_flags_simps(1)]
    have "4 \<le> u32_of_length pSource - (in_cur s - 4)" using c le(1) len by linarith
    then have k: "take 4 (drop (in_cur s - 4) ?in) = take 4 (drop (in_cur s - 4) pSource)"
      by (simp only: drop_take take_take min.absorb1)
    have t: "take (out_cur s) (out_buf s @ drop (length (out_buf s)) pDest) = take (out_cur s) (out_buf s)"
      using le(2,3) by simp
    have "in_cur s \<le> length pSource" using le(1) by simp
    moreover have "out_cur s \<le> length pDest" using le(3) by simp
    ultimately show ?thesis
      using e n l t c unfolding k by (auto simp: uncompress_answer_def True MZ_defs)
  next
    case False
    then show ?thesis using e l by (simp add: uncompress_answer_def MZ_defs)
  qed
qed

text \<open>C8: \<open>mz_uncompress\<close>, whatever it is given: it returns, without leaving a buffer, with one of five
  codes. The output buffer keeps its size; on success the returned length fits it, and the bytes up to it
  have the Adler-32 checksum that four consecutive bytes of the input carry, which the decompressor read
  last. On an error the length is unchanged.\<close>

theorem mz_uncompress_outcome:
  "\<exists>code len dst. mz_uncompress alloc pDest pSource = Some (Inr (code, len, dst)) \<and>
    code \<in> {MZ_OK, MZ_DATA_ERROR, MZ_BUF_ERROR, MZ_MEM_ERROR, MZ_PARAM_ERROR} \<and> length dst = length pDest \<and>
    (code \<noteq> MZ_OK \<longrightarrow> len = of_nat (length pDest)) \<and>
    (code = MZ_OK \<longrightarrow> alloc \<and> unat len \<le> length pDest \<and>
       (\<exists>k \<ge> 4. k \<le> length pSource \<and> adler32_of (take (unat len) dst) = unat (be32 (take 4 (drop (k - 4) pSource)))))"
proof (cases "0xFFFFFFFF < (of_nat (length pSource) OR of_nat (length pDest) :: u64)")
  case True
  then show ?thesis by (simp add: mz_uncompress_def MZ_defs)
next
  case small: False
  show ?thesis
  proof (cases alloc)
    case False
    then show ?thesis
      using small by (simp add: mz_uncompress_def mz_inflateInit_def mz_inflateInit2_def MZ_defs Let_def)
  next
    case True
    with uncompress_outcome [OF small] show ?thesis by simp
  qed
qed

section \<open>The round trip of stored data\<close>

text \<open>The length of a stream of stored blocks: five bytes for each block and six for the frame.\<close>

lemma length_stored [simp]: "length (stored_chunks chunks) = 5 * length chunks + length (concat chunks)"
  by (induction chunks rule: stored_chunks.induct) (simp_all add: stored_chunk_def le16_def)

lemma length_zlib_stored [simp]: "length (zlib_stored chunks) = 5 * length chunks + length (concat chunks) + 6"
  by (simp add: zlib_stored_def be32_of_def)

lemma or_u32_bounded:
  assumes "m < 2 ^ 32" and "n < 2 ^ 32"
  shows "\<not> 0xFFFFFFFF < (of_nat m OR of_nat n :: u64)"
proof -
  have t: "take_bit 32 (of_nat k :: u64) = of_nat k" if "k < 2 ^ 32" for k
    using that by (simp add: word_unat_eq_iff unsigned_of_nat unsigned_take_bit_eq take_bit_nat_eq_self)
  have "of_nat m OR of_nat n = take_bit 32 (of_nat m OR of_nat n :: u64)"
    unfolding take_bit_or by (simp only: t assms)
  also have "\<dots> \<le> mask 32" unfolding take_bit_eq_mask by (rule word_and_le1)
  also have "(mask 32 :: u64) = 0xFFFFFFFF" by (simp add: mask_eq_exp_minus_1)
  finally show ?thesis by (rule leD)
qed

lemma uncompress_stored:
  assumes "chunks \<noteq> []" and "\<forall>c \<in> set chunks. length c \<le> 65535" and "length (concat chunks) \<le> length pDest"
    and "length pDest < 2 ^ 32" and "length (zlib_stored chunks) < 2 ^ 32"
  shows "mz_uncompress True pDest (zlib_stored chunks) =
    Some (Inr (MZ_OK, of_nat (length (concat chunks)), concat chunks @ drop (length (concat chunks)) pDest))"
proof -
  have l: "u32_of_length pDest = length pDest" "u32_of_length (zlib_stored chunks) = length (zlib_stored chunks)"
    using assms(4,5) by (simp_all only: u32_of_length)
  obtain s where r: "tinfl_decompress (zlib_stored chunks) pDest zlib_flags = Inr (STATUS_DONE, s)"
    and o: "in_cur s = length (zlib_stored chunks)" "out_cur s = length (concat chunks)"
      "out_buf s = concat chunks @ drop (length (concat chunks)) pDest"
    using stored_stream_inflates [OF assms(1-3) zlib_flags_simps] by blast
  have "mz_uncompress True pDest (zlib_stored chunks) = Some (Inr (uncompress_answer pDest (zlib_stored chunks) STATUS_DONE s))"
    by (rule mz_uncompress_eq) (use r o l or_u32_bounded [OF assms(5,4)] in simp_all)
  then show ?thesis using o assms(3) by (simp add: uncompress_answer_def)
qed

lemma uncompress_zlib_stream:
  assumes "zlib_stream bs data src" and "length data \<le> length pDest" and "length pDest < 2 ^ 32" and "length src < 2 ^ 32"
  shows "\<exists>dst. mz_uncompress True pDest src = Some (Inr (MZ_OK, of_nat (length data), dst)) \<and>
    take (length data) dst = data \<and> length dst = length pDest"
proof -
  have l: "u32_of_length pDest = length pDest" "u32_of_length src = length src"
    using assms(3,4) by (simp_all only: u32_of_length)
  obtain s where r: "tinfl_decompress src pDest zlib_flags = Inr (STATUS_DONE, s)"
    and o: "out_cur s = length data" "take (length data) (out_buf s) = data" "length (out_buf s) = length pDest" "in_cur s \<le> length src"
    using zlib_stream_inflates [OF assms(1,2) zlib_flags_simps] by blast
  have "mz_uncompress True pDest src = Some (Inr (uncompress_answer pDest src STATUS_DONE s))"
    by (rule mz_uncompress_eq) (use r o(4) l or_u32_bounded [OF assms(4,3)] in simp_all)
  then show ?thesis using o assms(2) by (simp add: uncompress_answer_def)
qed

text \<open>C5: Any zlib stream, of stored blocks, blocks with the fixed codes and blocks with codes of their own in
  any order, is restored by \<open>mz_uncompress\<close> into any buffer large enough: the code is \<open>MZ_OK\<close>, the length is
  that of the data, and the buffer begins with the data that the blocks stand for.\<close>

theorem mz_uncompress_restores:
  assumes "zlib_stream bs data src" and "length data \<le> length pDest" and "length pDest < 2 ^ 32" and "length src < 2 ^ 32"
  shows "\<exists>dst. mz_uncompress True pDest src = Some (Inr (MZ_OK, of_nat (length data), dst)) \<and>
    take (length data) dst = data \<and> length dst = length pDest"
  using assms by (rule uncompress_zlib_stream)

text \<open>A zlib stream of stored blocks, whatever its bytes and however they are divided into blocks, is
  restored by \<open>mz_uncompress\<close> into any buffer large enough: the code is \<open>MZ_OK\<close>, the length is that of the
  data, and the rest of the buffer is not touched.\<close>

theorem mz_uncompress_restores_stored:
  assumes "chunks \<noteq> []" and "\<forall>c \<in> set chunks. length c \<le> 65535" and "length (concat chunks) \<le> length pDest"
    and "length pDest < 2 ^ 32" and "length (zlib_stored chunks) < 2 ^ 32"
  shows "mz_uncompress True pDest (zlib_stored chunks) =
    Some (Inr (MZ_OK, of_nat (length (concat chunks)), concat chunks @ drop (length (concat chunks)) pDest))"
  using assms by (rule uncompress_stored)

theorem mz_uncompress_restores_stored_witness:
  "mz_uncompress True [0, 0, 0, 9] (zlib_stored [[104], [105, 33]]) = Some (Inr (MZ_OK, 3, [104, 105, 33, 9]))"
  using mz_uncompress_restores_stored [of "[[104], [105, 33]]" "[0, 0, 0, 9]"] by simp

lemma fixed_codes:
  "code_bits fixed_lit 97 = [True, False, False, True, False, False, False, True]"
  "code_bits fixed_lit 262 = [False, False, False, False, True, True, False]"
  "code_bits fixed_lit 256 = [False, False, False, False, False, False, False]"
  "code_bits fixed_dst 0 = [False, False, False, False, False]"
  unfolding code_bits_def code_of_def fixed_lit_def fixed_dst_def
  by (simp_all add: nth_append count_list_replicate first_code_numeral first_code_1 upt_rec Let_def del: first_code.simps replicate.simps)

lemma lz_copy_numeral:
  "lz_copy (numeral k) d out = lz_copy (pred_numeral k) d (out @ [out ! (length out - d)])"
  by (simp add: numeral_eq_Suc)

text \<open>What zlib makes of ten letters \<open>a\<close>: two of them, and a match for the other eight.\<close>

lemma sample_stream:
  "zlib_stream [Fixed [Lit 97, Lit 97, Match 5 0 0 0]] [97, 97, 97, 97, 97, 97, 97, 97, 97, 97] [0x78, 0x01, 0x4b, 0x4c, 0x84, 0x01, 0x00, 0x14, 0xe1, 0x03, 0xcb]"
proof -
  have "header_ok 0x78 0x01" by (simp add: header_ok_def)
  moreover have "tokens_ok fixed_lit fixed_dst [Lit 97, Lit 97, Match 5 0 0 0]"
    by (simp add: tokens_ok_def has_code_def fixed_lit_def fixed_dst_def nth_append s_length_extra_def s_dist_extra_def)
  moreover have "expand [Lit 97, Lit 97, Match 5 0 0 0] [] = Some [97, 97, 97, 97, 97, 97, 97, 97, 97, 97]"
    by (simp add: s_length_base_def s_dist_base_def lz_copy_numeral)
  moreover have "byte_bits [0x4b, 0x4c, 0x84, 0x01, 0x00] = blocks_bits [Fixed [Lit 97, Lit 97, Match 5 0 0 0]] @ [False, False]"
    by (simp add: fixed_codes tokens_bits_def nat_bits_def upt_rec s_length_extra_def s_dist_extra_def bit_0)
  moreover have "be32_of (adler32_of [97, 97, 97, 97, 97, 97, 97, 97, 97, 97]) = [0x14, 0xe1, 0x03, 0xcb]"
    by (simp add: be32_of_def adler32_of_def adler_spec_def)
  ultimately show ?thesis
    unfolding zlib_stream_def
    by (intro conjI exI [of _ "0x78"] exI [of _ "0x01"] exI [of _ "[0x4b, 0x4c, 0x84, 0x01, 0x00]"] exI [of _ "[False, False]"]
        exI [of _ "[]"]) simp_all
qed

lemma ten_long: "length [a, b, c, d, e, f, g, h, i, j] = 10" "length [a, b, c, d, e, f, g, h, i, j, k, l] = 12"
  by simp_all

theorem mz_uncompress_restores_witness:
  "\<exists>dst. mz_uncompress True [0, 0, 0, 0, 0, 0, 0, 0, 0, 0, 0, 0] [0x78, 0x01, 0x4b, 0x4c, 0x84, 0x01, 0x00, 0x14, 0xe1, 0x03, 0xcb] =
     Some (Inr (MZ_OK, 10, dst)) \<and> take 10 dst = [97, 97, 97, 97, 97, 97, 97, 97, 97, 97] \<and> length dst = 12"
  using mz_uncompress_restores [OF sample_stream, of "[0, 0, 0, 0, 0, 0, 0, 0, 0, 0, 0, 0]", unfolded ten_long] by simp

theorem mz_uncompress_outcome_witness:
  "mz_uncompress True [0, 0, 0, 9] (zlib_stored [[104], [105, 33]]) = Some (Inr (MZ_OK, 3, [104, 105, 33, 9])) \<and>
   (\<exists>k \<ge> 4. k \<le> 19 \<and> adler32_of [104, 105, 33] = unat (be32 (take 4 (drop (k - 4) (zlib_stored [[104], [105, 33]])))))"
proof -
  have r: "mz_uncompress True [0, 0, 0, 9] (zlib_stored [[104], [105, 33]]) = Some (Inr (MZ_OK, 3, [104, 105, 33, 9]))"
    using uncompress_stored [of "[[104], [105, 33]]" "[0, 0, 0, 9]"] by simp
  show ?thesis
    using mz_uncompress_outcome [of True "[0, 0, 0, 9]" "zlib_stored [[104], [105, 33]]"] by (simp add: r)
qed

text \<open>A stream whose first block has the reserved type is refused.\<close>

lemma reserved_bits:
  assumes "reading s (0x07 # rest)"
  shows "get_bits 3 s = (Inr 7, s\<lparr>in_cur := in_cur s + 1, bit_buf := 0, num_bits := 5\<rparr>)"
proof -
  have n: "num_bits s = 0" "bit_buf s = 0" using assms by (simp_all add: reading_def)
  have "need_bits 3 s = (Inr (), s\<lparr>in_cur := in_cur s + 1, bit_buf := 7, num_bits := 8\<rparr>)"
    using reading_byte(1) [OF assms] n by (subst need_bits.simps) (simp add: add_byte_def)
  moreover have "unat ((7 :: u64) AND mask 3) = 7" by (simp add: mask_eq_exp_minus_1)
  ultimately show ?thesis using n by (simp add: get_bits_eq bnd_def have_bits_def drop_bits_def)
qed

lemma reserved_block_refused:
  assumes "flags AND FLAG_NON_WRAPPING \<noteq> 0" and "flags AND FLAG_PARSE_ZLIB_HEADER \<noteq> 0"
  shows "\<exists>s. tinfl_decompress (0x78 # 0x01 # 0x07 # rest) out flags = Inr (STATUS_FAILED, s)"
proof -
  let ?inp = "0x78 # 0x01 # 0x07 # rest" let ?s = "tinfl_start ?inp out flags"
  have r0: "reading ?s (0x78 # 0x01 # 0x07 # rest)" by (simp add: reading_def tinfl_start_def)
  have f: "flag FLAG_NON_WRAPPING ?s" "flag FLAG_PARSE_ZLIB_HEADER ?s" using assms by (simp_all add: tinfl_start_def)
  define u where "u = ?s\<lparr>in_cur := in_cur ?s + 2\<rparr>"
  have "header_ok 0x78 0x01" by (simp add: header_ok_def)
  note h = header_reading [OF r0 this f(1), folded u_def]
  obtain fuel where fuel: "tinfl_fuel ?inp out = Suc fuel" by (simp add: tinfl_fuel_def)
  obtain s1 where c: "tinfl_core (Suc fuel) ?s = (Inl (Status STATUS_FAILED), s1)"
    using h(1) f(2) reserved_bits [OF h(2)] by (simp add: tinfl_core_def bnd_def inflate_block_def halt_def)
  obtain st s2 where x: "exit_state STATUS_FAILED s1 = (st, s2)" by fastforce
  then have "st = STATUS_FAILED" by (auto simp: exit_state_def Let_def STATUS_FAILED_def)
  then show ?thesis using f c x by (simp add: tinfl_decompress_eq tinfl_body_core Let_def fuel)
qed

lemma uncompress_reserved_block:
  assumes "length pDest < 2 ^ 32" and "length rest + 3 < 2 ^ 32"
  shows "\<exists>len dst. mz_uncompress True pDest (0x78 # 0x01 # 0x07 # rest) = Some (Inr (MZ_DATA_ERROR, len, dst))"
proof -
  let ?inp = "0x78 # 0x01 # 0x07 # rest :: byte list"
  have l: "u32_of_length pDest = length pDest" "u32_of_length ?inp = length ?inp"
    by (rule u32_of_length, use assms in simp)+
  obtain s where r: "tinfl_decompress ?inp pDest zlib_flags = Inr (STATUS_FAILED, s)"
    using reserved_block_refused [OF zlib_flags_simps(2,1)] by blast
  have "in_cur s \<le> length ?inp" using tinfl_returns [of ?inp pDest zlib_flags] r by auto
  moreover have "length ?inp < 2 ^ 32" using assms(2) by simp
  ultimately have "mz_uncompress True pDest ?inp = Some (Inr (uncompress_answer pDest ?inp STATUS_FAILED s))"
    by (intro mz_uncompress_eq) (use r l or_u32_bounded [of "length ?inp" "length pDest"] assms(1) in simp_all)
  then show ?thesis by (simp add: uncompress_answer_def STATUS_FAILED_def STATUS_DONE_def)
qed

end
