(* ===== verification/WS_Exchange.thy ===== *)
theory WS_Exchange
  imports WS_Client Miniz_Zlib
begin

text \<open>
  Clients and server together: the transfers of ws_post and ws_get are the requests of the server
  model. What is published by the one program is what the other delivers, and the pages that
  ws_get loses.
\<close>

section \<open>One run of each client\<close>

lemma post_run_accepted:
  assumes "pg_host g = Some host" and "pg_message g = Some m" and "pg_msglen g = int (length m)" and "m \<noteq> []"
    and "(case pg_token g of Some t \<Rightarrow> Some t
          | None \<Rightarrow> create_token (cl_gcrypt env) (pg_alg g) (to_bytes m) (length m)) = Some tok"
    and "create_url host (pg_port g) tok (pg_secure g) = Some u" and "ce_init (cl_curl env)"
    and "ce_perform (cl_curl env)
           (Curl_Post u (z85_text (payload (cl_deflate env) (pg_comp g) (to_bytes m)))) n = (pieces, Some 200, n')"
    and "length m * 5 < 2 ^ 62"
  shows "\<exists>out. post_run env g n =
    Inr (0, printed (out @ (if 1 \<le> pg_verbosity g then ''Token: '' @ tok @ NL else [])), n')"
proof -
  let ?p = "payload (cl_deflate env) (pg_comp g) (to_bytes m)"
  have "no_nul (z85_text ?p)" using z85_text_alphabet by (rule base85_no_nul)
  then have "\<exists>out. post_msg (cl_curl env) (pg_verbosity g) u (z85_text ?p) n = (out, 0, n')"
    using transfer_done [OF assms(7,8)] by (simp add: post_msg_def ws_curl_post_def Let_def)
  then obtain out' where out': "post_msg (cl_curl env) (pg_verbosity g) u (z85_text ?p) n = (out', 0, n')" ..
  obtain out where out: "encode_msg (cl_ndebug env) (cl_deflate env) (pg_comp g) (pg_verbosity g) (to_bytes m) (length m) =
      Inr (out, Some (z85_text ?p))"
    using encode_msg_payload [of "to_bytes m"] assms(4,9) by fastforce
  show ?thesis
    using assms(1-6) out out'
    by (simp add: post_run_def encode_msg_and_post_def str_or_null_def split: option.splits)
qed

lemma get_run_answered:
  assumes "gg_token g = Some tok"
    and "create_url (str_or_null (gg_host g)) (gg_port g) tok (gg_secure g) = Some u" and "ce_init (cl_curl env)"
    and "ce_perform (cl_curl env) (Curl_Get u) n = (pieces, Some 200, n')"
    and "concat pieces = z85_text p" and "p \<noteq> []" and "length p * 5 < 2 ^ 62"
  shows "get_run env g n = Inr (0, deliver_data (cl_deflate env) (cl_can_write env) (gg_filename g) p, n')"
proof -
  have "pieces \<noteq> []" using assms(5) z85_text_Cons(1) [OF assms(6)] by auto
  then show ?thesis
    using assms(1,2,5) transfer_done [OF assms(3,4)] handle_page_text [OF assms(6,7)]
    by (simp add: get_run_def ws_curl_get_def)
qed

section \<open>The server at the other end\<close>

text \<open>Where a server is reached: the base of its URLs, the version of the protocol, the time, and how
  an upload and a response are cut into pieces on the way.\<close>

record site =
  s_base :: string
  s_version :: string
  s_now :: int
  s_cut :: "string \<Rightarrow> string list"

definition site_ok :: "site \<Rightarrow> bool" where
  "site_ok st \<longleftrightarrow> (\<forall>d. concat (s_cut st d) = d \<and> [] \<notin> set (s_cut st d))"

text \<open>The connection of a request, with the length of its body.\<close>

definition client_connection :: "string option \<Rightarrow> connection" where
  "client_connection d = \<lparr>con_info = True, con_addr = Some (AF_INET, ''127.0.0.1''),
     con_header = (\<lambda>h. if h = ''Content-Length'' then map_option (\<lambda>x. show_nat (length x)) d else None),
     con_queue = MHD_YES\<rparr>"

definition http_call ::
    "site \<Rightarrow> string \<Rightarrow> string \<Rightarrow> string option \<Rightarrow> 'c instance_of_server \<times> 'c server \<Rightarrow>
     string list \<times> int option \<times> 'c instance_of_server \<times> 'c server" where
  "http_call st meth u d = (\<lambda>(ws, w).
     if take (length (s_base st)) u \<noteq> s_base st then ([], None, ws, w)
     else
       let r = serve_request (s_now st) ws (client_connection d) (drop (length (s_base st)) u) meth
                 (s_version st) (case d of None \<Rightarrow> [] | Some x \<Rightarrow> s_cut st x) w
       in case queued r of
            None \<Rightarrow> ([], None, instance_of r, world r)
          | Some p \<Rightarrow> (s_cut st (body p), Some (status p), instance_of r, world r))"

definition site_curl :: "site \<Rightarrow> ('c instance_of_server \<times> 'c server) curl" where
  "site_curl st = \<lparr>ce_init = True,
     ce_perform = (\<lambda>q. case q of Curl_Get u \<Rightarrow> http_call st ''GET'' u None
                       | Curl_Post u d \<Rightarrow> http_call st ''POST'' u (Some d))\<rparr>"

lemma client_connection_complete:
  assumes "site_ok st" and "length d < 2 ^ 63"
  shows "complete_request (client_connection (Some d)) (s_cut st d)"
    and "complete_request (client_connection None) []"
proof -
  have "strtol10 (show_nat (length d)) = int (length d)"
    using assms(2) by (intro strtol10_show_nat) (simp add: LONG_MAX_def)
  then show "complete_request (client_connection (Some d)) (s_cut st d)"
    using assms(1) by (auto simp: complete_request_def client_connection_def site_ok_def c_atol_def)
  show "complete_request (client_connection None) []"
    by (simp add: complete_request_def client_connection_def)
qed

text \<open>A page is published under a token and read back over two transfers.\<close>

lemma publish_and_read:
  fixes ws :: "'c instance_of_server"
  assumes "redis_up api view" and "ready api ws" and "max_content_length ws < 2 ^ 63"
    and "online w" and "0 \<le> expiration (g_rt w)" and "\<not> shutting_down w" and "\<not> immutable (g_rt w)"
    and "(r, len, store_node api alg len) \<in> set (store_nodes api)" and "valid_token len tok"
    and "site_ok st" and "valid_data d" and "length d \<le> unat (max_content_length ws)"
  shows "\<exists>pieces pieces' s s'.
    ce_perform (site_curl st) (Curl_Post (s_base st @ r @ tok) d) (ws, w) = (pieces, Some 200, s) \<and>
    ce_perform (site_curl st) (Curl_Get (s_base st @ r @ tok)) s = (pieces', Some 200, s') \<and> concat pieces' = d"
proof -
  have "length d < 2 ^ 63" using assms(3,12) by (simp add: word_less_nat_alt)
  note con = client_connection_complete [OF assms(10) this]
  have cut: "concat (s_cut st d) = d" for d using assms(10) by (simp add: site_ok_def)
  have "\<not> (immutable (g_rt w) \<and> db view w (token_of tok) \<noteq> None)" using assms(7) by simp
  from post_then_get_http [OF assms(1-6,8,9) refl con(1) _ con(2) _ this, of "s_now st" "s_version st"
      "s_now st" "s_version st"] assms(11,12) cut
  show ?thesis by (auto simp: site_curl_def http_call_def Let_def)
qed

section \<open>Published and retrieved\<close>

text \<open>The documented behaviour of the deflate codec: a successful compression gives a zlib stream,
  which uncompresses into any buffer that is large enough and whose size fits 32 bits.\<close>

definition deflate_ok :: "deflate \<Rightarrow> bool" where
  "deflate_ok dc \<longleftrightarrow> (\<forall>d out. df_compress dc (df_bound dc (length d)) d = (0, out) \<longrightarrow>
     looks_compressed out \<and> (\<forall>n \<ge> length d. n < 2 ^ 32 \<longrightarrow> df_uncompress dc n out = (0, d)))"

lemma payload_delivered:
  assumes "deflate_ok dc" and "msg \<noteq> []" and "\<not> looks_compressed msg"
    and "length msg \<le> 10 * length (payload dc g_comp msg)" and "10 * length (payload dc g_comp msg) < 2 ^ 32"
  shows "deliver_data dc cw f (payload dc g_comp msg) =
    (case f of Some f \<Rightarrow> \<lparr>stdout_text = [], written = (if cw f then Some (f, msg) else None)\<rparr>
     | None \<Rightarrow> printed (cstr (of_bytes msg)))"
proof (cases "payload dc g_comp msg = msg")
  case True
  with assms(3) show ?thesis by (simp add: deliver_data_def)
next
  case False
  then obtain out where o: "df_compress dc (df_bound dc (length msg)) msg = (0, out)"
      "payload dc g_comp msg = out" "out \<noteq> []"
    by (auto simp: payload_def split: prod.splits if_splits)
  then have "looks_compressed out" "df_uncompress dc (10 * length out) out = (0, msg)"
    using assms(1,4,5) by (auto simp: deflate_ok_def)
  then have "inflate_msg dc out = Some msg"
    using assms(2,5) o(2) by (simp add: inflate_msg_def mza_restore_def md_zero_def Let_def unat_word_ariths unsigned_of_nat take_bit_nat_eq_self)
  with \<open>looks_compressed out\<close> show ?thesis by (simp add: deliver_data_def o(2))
qed

lemma payload_text_valid:
  assumes "msg \<noteq> []" shows "valid_data (z85_text (payload dc g_comp msg))"
proof -
  have "5 \<le> length (z85_text (payload dc g_comp msg))"
    using z85_text_Cons(1,2) [OF payload_nonempty [OF assms]] by simp
  then show ?thesis using z85_text_alphabet by (simp only: valid_data_def)
qed

text \<open>The token ws_post uses: the one given, or the one created.\<close>

lemma post_token:
  assumes "post_check fs g0 = Parsed g" and "pg_msglen g0 = 0"
    and "\<forall>t. pg_token g = Some t \<longrightarrow> (\<forall>x \<in> set t. c_isxdigit x)"
    and "gcrypt_sizes gc" and "\<forall>a. gcry_md_open gc a"
  obtains tok where "(case pg_token g of Some t \<Rightarrow> Some t | None \<Rightarrow> create_token gc (pg_alg g) msg n) = Some tok"
    and "post_valid_token tok" and "\<forall>x \<in> set tok. c_isxdigit x"
proof (cases "pg_token g")
  case (Some t)
  with post_check_Parsed(3) [OF assms(1,2)] assms(3) that [of t] show thesis by simp
next
  case None
  then have "gcalg_of (pg_alg g) \<noteq> None"
    using post_check_Parsed(3) [OF assms(1,2)] by (auto simp: gcalg_of_def hash_codes)
  then obtain t where t: "create_token gc (pg_alg g) msg n = Some t"
    using assms(5) by (auto simp: create_token_def)
  have "\<forall>x \<in> set t. c_isxdigit x"
    using create_token_text [OF assms(4) t] by (auto simp: valid_token_def)
  with created_token_valid [OF assms(4) t] None t that [of t] show thesis by simp
qed


text \<open>C37: the pages that ws_get loses. When the bytes a page decodes to begin like a zlib stream but do
  not inflate into ten times their size, ws_get writes nothing and yet exits with status 0. That is
  the fate of any uncompressed message of more than 6 bytes that happens to begin with 78 01, and of
  a message that was compressed to less than a tenth.\<close>

theorem undelivered_pages:
  assumes "gg_token g = Some tok"
    and "create_url (str_or_null (gg_host g)) (gg_port g) tok (gg_secure g) = Some u" and "ce_init (cl_curl env)"
    and "ce_perform (cl_curl env) (Curl_Get u) n = (pieces, Some 200, n')"
    and "concat pieces = z85_text data" and "looks_compressed data"
    and "fst (df_uncompress (cl_deflate env) (10 * length data) data) \<noteq> 0" and "10 * length data < 2 ^ 62"
  shows "get_run env g n = Inr (0, printed [], n')"
proof -
  have "data \<noteq> []" using assms(6) by (auto simp: looks_compressed_def)
  moreover have "unat (10 * of_nat (length data) :: u64) = 10 * length data"
    using assms(8) by (simp add: unat_word_ariths unsigned_of_nat take_bit_nat_eq_self)
  ultimately have "inflate_msg (cl_deflate env) data = None"
    using assms(7) by (auto simp: inflate_msg_def mza_restore_def md_zero_def Let_def split_beta)
  then have "deliver_data (cl_deflate env) (cl_can_write env) (gg_filename g) data = printed []"
    using assms(6) by (simp add: deliver_data_def)
  then show ?thesis using get_run_answered [OF assms(1-5) \<open>data \<noteq> []\<close>] assms(8) by simp
qed

section \<open>A run of both programs\<close>

text \<open>The codec over the decompressor of miniz.c; the compressor here stores its input in blocks of at
  most 65535 bytes.\<close>

definition miniz_codec :: "(nat \<Rightarrow> byte list \<Rightarrow> int \<times> byte list) \<Rightarrow> deflate" where
  "miniz_codec squash = \<lparr>df_bound = (\<lambda>n. unat (mz_compressBound (of_nat n))), df_compress = squash,
     df_uncompress = (\<lambda>n d. case mz_uncompress True (replicate n 0) d of
        Some (Inr (err, len, out)) \<Rightarrow> (err, take (unat len) out) | _ \<Rightarrow> (MZ_DATA_ERROR, []))\<rparr>"

function cut_blocks :: "byte list \<Rightarrow> byte list list" where
  "cut_blocks d = (if length d \<le> 65535 then [d] else take 65535 d # cut_blocks (drop 65535 d))"
  by pat_completeness auto
termination by (relation "measure length") auto

declare cut_blocks.simps [simp del]

lemma cut_blocks:
  "concat (cut_blocks d) = d \<and> cut_blocks d \<noteq> [] \<and> (\<forall>c \<in> set (cut_blocks d). length c \<le> 65535)"
  by (induction d rule: cut_blocks.induct) (subst (1 2 3) cut_blocks.simps, auto)

definition store_blocks :: "nat \<Rightarrow> byte list \<Rightarrow> int \<times> byte list" where
  "store_blocks n d =
     (let out = zlib_stored (cut_blocks d) in if length out \<le> n \<and> length out < 2 ^ 32 then (MZ_OK, out) else (MZ_BUF_ERROR, []))"

definition sample_codec :: deflate where
  "sample_codec = miniz_codec store_blocks"

lemma sample_codec_ok: "deflate_ok sample_codec"
proof -
  have "looks_compressed (zlib_stored (cut_blocks d))" for d
    using cut_blocks [of d] by (cases "cut_blocks d") (simp_all add: looks_compressed_def zlib_stored_def be32_of_def)
  moreover have "df_uncompress sample_codec n (zlib_stored (cut_blocks d)) = (0, d)"
    if "length d \<le> n" "n < 2 ^ 32" "length (zlib_stored (cut_blocks d)) < 2 ^ 32" for n d
  proof -
    have c: "concat (cut_blocks d) = d" "cut_blocks d \<noteq> []" "\<forall>c \<in> set (cut_blocks d). length c \<le> 65535"
      using cut_blocks [of d] by simp_all
    have "unat (of_nat (length d) :: u64) = length d" using that(1,2) by (simp add: unsigned_of_nat take_bit_nat_eq_self)
    with uncompress_stored [OF c(2,3), of "replicate n 0"] show ?thesis
      using that by (simp add: sample_codec_def miniz_codec_def c(1) MZ_OK_def del: length_zlib_stored)
  qed
  ultimately show ?thesis
    by (auto simp: deflate_ok_def sample_codec_def miniz_codec_def store_blocks_def Let_def MZ_defs
        simp del: length_zlib_stored split: if_splits)
qed

definition sample_site :: site where
  "sample_site = \<lparr>s_base = url_base ''localhost'' 80 False, s_version = ''1.1'', s_now = 0,
     s_cut = (\<lambda>d. if d = [] then [] else [d])\<rparr>"

lemma sample_site_ok: "site_ok sample_site"
  by (simp add: site_ok_def sample_site_def)

definition sample_client :: "((string \<rightharpoonup> string) instance_of_server \<times> (string \<rightharpoonup> string) server) client_env" where
  "sample_client = \<lparr>cl_curl = site_curl sample_site, cl_gcrypt = sample_gcrypt, cl_deflate = sample_codec,
     cl_files = sample_files, cl_can_write = (\<lambda>f. True), cl_ndebug = False\<rparr>"

lemma sample_client_simps [simp]:
  "cl_curl sample_client = site_curl sample_site" "cl_gcrypt sample_client = sample_gcrypt"
  "cl_deflate sample_client = sample_codec" "cl_can_write sample_client f"
  by (simp_all add: sample_client_def)

lemma sample_base_short: "length (url_base ''localhost'' 80 False) \<le> 1900"
proof -
  have "length (show_nat (unat (80 :: u16))) \<le> 5" by (rule length_show_nat) simp_all
  then show ?thesis by (simp add: url_base_def)
qed

definition sample_get :: get_globals where
  "sample_get = get_globals_zero\<lparr>gg_host := Some ''localhost'', gg_port := 80\<rparr>"


text \<open>Eight bytes posted as they are, which begin with 78 01 and are no zlib stream.\<close>

definition sample_world :: "(string \<rightharpoonup> string) instance_of_server \<times> (string \<rightharpoonup> string) server" where
  "sample_world = (add_nodes plain_redis (searest_new 11 139 1000), sample_server False False)"

theorem undelivered_pages_witness:
  "get_run (sample_client\<lparr>cl_curl := \<lparr>ce_init = True,
       ce_perform = (\<lambda>q n. ([z85_text [0x78, 0x01, 7, 2, 3, 4, 5, 6]], Some 200, n))\<rparr>\<rparr>)
     (sample_get\<lparr>gg_token := Some (replicate 32 (CHR ''a''))\<rparr>) sample_world = Inr (0, printed [], sample_world)"
proof -
  obtain u where "create_url (str_or_null (gg_host sample_get)) (gg_port sample_get) (replicate 32 (CHR ''a''))
      (gg_secure sample_get) = Some u"
    by (simp add: create_url_def node_of_length_def hash_codes)
  moreover obtain len dst where "mz_uncompress True (replicate 80 0) [0x78, 0x01, 7, 2, 3, 4, 5, 6] =
      Some (Inr (MZ_DATA_ERROR, len, dst))"
    using uncompress_reserved_block [of "replicate 80 0" "[2, 3, 4, 5, 6]"] by auto
  then have refused: "fst (df_uncompress sample_codec 80 [0x78, 0x01, 7, 2, 3, 4, 5, 6]) \<noteq> 0"
    by (simp add: sample_codec_def miniz_codec_def MZ_defs)
  ultimately show ?thesis
    by (intro undelivered_pages [where pieces = "[z85_text [0x78, 0x01, 7, 2, 3, 4, 5, 6]]" 
        and data = "[0x78, 0x01, 7, 2, 3, 4, 5, 6]" and u = u])
      (simp_all add: looks_compressed_def refused)
qed

end
