(* ===== verification/Tdefl_Huffman.thy ===== *)
theory Tdefl_Huffman
  imports Tinfl "HOL-Library.Monad_Syntax"
begin

text \<open>
  The compressor of miniz.c, first part: how it makes a Huffman code from the counts of the symbols
  (\<open>tdefl_optimize_huffman_table\<close> and what it calls).

  Counters are natural numbers where none exceeds 32 bits; fields of 16 bits are reduced modulo
  \<open>2 ^ 16\<close> where the source stores them. A read or write outside an array, and a count or an index
  below zero, is \<open>None\<close>; an index that the source masks or takes from a loop with a constant bound of
  its own needs no test. Arrays on the stack that the source does not initialise hold zeros here;
  nothing reads them before it writes them.
\<close>

section \<open>Arrays\<close>

definition key_at :: "'a list \<Rightarrow> nat \<Rightarrow> 'a option" where
  "key_at A i = (if i < length A then Some (A ! i) else None)"

definition set_key :: "'a list \<Rightarrow> nat \<Rightarrow> 'a \<Rightarrow> 'a list option" where
  "set_key A i v = (if i < length A then Some (A[i := v]) else None)"

text \<open>A \<open>for\<close> loop whose body may fail.\<close>

fun for_each :: "('i \<Rightarrow> 's \<Rightarrow> 's option) \<Rightarrow> 'i list \<Rightarrow> 's \<Rightarrow> 's option" where
  "for_each f [] s = Some s"
| "for_each f (i # is) s = (case f i s of None \<Rightarrow> None | Some s' \<Rightarrow> for_each f is s')"

lemma for_each_append: "for_each f (xs @ ys) s = (case for_each f xs s of None \<Rightarrow> None | Some s' \<Rightarrow> for_each f ys s')"
  by (induction xs arbitrary: s) (simp_all split: option.split)

section \<open>Sorting the symbols by their counts\<close>

definition TDEFL_MAX_HUFF_SYMBOLS :: nat where "TDEFL_MAX_HUFF_SYMBOLS = 288"
definition TDEFL_MAX_HUFF_SYMBOLS_0 :: nat where "TDEFL_MAX_HUFF_SYMBOLS_0 = 288"
definition TDEFL_MAX_HUFF_SYMBOLS_1 :: nat where "TDEFL_MAX_HUFF_SYMBOLS_1 = 32"
definition TDEFL_MAX_HUFF_SYMBOLS_2 :: nat where "TDEFL_MAX_HUFF_SYMBOLS_2 = 19"
definition TDEFL_MAX_SUPPORTED_HUFF_CODESIZE :: nat where "TDEFL_MAX_SUPPORTED_HUFF_CODESIZE = 32"

record tdefl_sym_freq =
  m_key :: nat
  m_sym_index :: nat

definition radix_hist :: "tdefl_sym_freq list \<Rightarrow> nat list" where
  "radix_hist syms =
     fold (\<lambda>s hist.
       let freq = m_key s; lo = freq AND 0xFF; hi = 256 + (drop_bit 8 freq AND 0xFF);
           hist = hist[lo := hist ! lo + 1]
       in hist[hi := hist ! hi + 1]) syms (replicate (256 * 2) 0)"

definition radix_offsets :: "nat list \<Rightarrow> nat list" where
  "radix_offsets pHist =
     fst (fold (\<lambda>i (offsets, cur_ofs). (offsets[i := cur_ofs], cur_ofs + pHist ! i)) [0..<256] (replicate 256 0, 0))"

definition radix_move ::
    "nat \<Rightarrow> tdefl_sym_freq \<Rightarrow> nat list \<times> tdefl_sym_freq list \<Rightarrow> (nat list \<times> tdefl_sym_freq list) option" where
  "radix_move pass_shift s = (\<lambda>(offsets, new).
     let b = drop_bit pass_shift (m_key s) AND 0xFF
     in do {
       pos \<leftarrow> key_at offsets b;
       offsets \<leftarrow> set_key offsets b (pos + 1);
       new \<leftarrow> set_key new pos s;
       Some (offsets, new) })"

definition radix_pass :: "nat \<Rightarrow> nat \<Rightarrow> nat list \<Rightarrow> tdefl_sym_freq list \<times> tdefl_sym_freq list \<Rightarrow>
    (tdefl_sym_freq list \<times> tdefl_sym_freq list) option" where
  "radix_pass num_syms pass_shift pHist = (\<lambda>(cur, new).
     if length cur < num_syms then None
     else do {
       (offsets, new) \<leftarrow> for_each (radix_move pass_shift) (take num_syms cur) (radix_offsets pHist, new);
       Some (new, cur) })"

definition tdefl_radix_sort_syms ::
    "nat \<Rightarrow> tdefl_sym_freq list \<Rightarrow> tdefl_sym_freq list \<Rightarrow> tdefl_sym_freq list option" where
  "tdefl_radix_sort_syms num_syms pSyms0 pSyms1 =
     (if length pSyms0 < num_syms then None
      else
        let hist = radix_hist (take num_syms pSyms0);
            total_passes = (if num_syms = hist ! 256 then 1 else 2 :: nat)
        in do {
          p \<leftarrow> radix_pass num_syms 0 (take 256 hist) (pSyms0, pSyms1);
          p \<leftarrow> (if total_passes = 1 then Some p else radix_pass num_syms 8 (drop 256 hist) p);
          Some (fst p) })"

section \<open>Code lengths\<close>

text \<open>\<open>A\<close> is the array of the keys; the symbols beside them are not touched. \<open>root\<close> and \<open>next\<close> of the last
  phase, which end at -1, are counted from one.\<close>

definition mr_pair :: "nat \<Rightarrow> nat \<Rightarrow> nat list \<times> nat \<times> nat \<Rightarrow> (nat list \<times> nat \<times> nat) option" where
  "mr_pair n next = (\<lambda>(A, root, leaf). do {
     inner \<leftarrow> (if n \<le> leaf then Some True else do { r \<leftarrow> key_at A root; l \<leftarrow> key_at A leaf; Some (r < l) });
     (A, root, leaf) \<leftarrow>
       (if inner then do { r \<leftarrow> key_at A root; A \<leftarrow> set_key A next r; A \<leftarrow> set_key A root next; Some (A, root + 1, leaf) }
        else do { l \<leftarrow> key_at A leaf; A \<leftarrow> set_key A next l; Some (A, root, leaf + 1) });
     inner \<leftarrow> (if n \<le> leaf then Some True else if root < next then do { r \<leftarrow> key_at A root; l \<leftarrow> key_at A leaf; Some (r < l) }
              else Some False);
     x \<leftarrow> key_at A next;
     if inner then do { r \<leftarrow> key_at A root; A \<leftarrow> set_key A next ((x + r) mod 65536); A \<leftarrow> set_key A root next; Some (A, root + 1, leaf) }
     else do { l \<leftarrow> key_at A leaf; A \<leftarrow> set_key A next ((x + l) mod 65536); Some (A, root, leaf + 1) } })"

definition mr_parents :: "nat \<Rightarrow> nat list \<Rightarrow> nat list option" where
  "mr_parents n A = do {
     a \<leftarrow> key_at A 0; b \<leftarrow> key_at A 1;
     A \<leftarrow> set_key A 0 ((a + b) mod 65536);
     (A, root, leaf) \<leftarrow> for_each (mr_pair n) [1..<n - 1] (A, 0, 2);
     Some A }"

definition mr_depth :: "nat \<Rightarrow> nat list \<Rightarrow> nat list option" where
  "mr_depth next A = do { p \<leftarrow> key_at A next; d \<leftarrow> key_at A p; set_key A next ((d + 1) mod 65536) }"

definition mr_depths :: "nat \<Rightarrow> nat list \<Rightarrow> nat list option" where
  "mr_depths n A = do { A \<leftarrow> set_key A (n - 2) 0; for_each mr_depth (rev [0..<n - 2]) A }"

fun mr_used :: "nat list \<Rightarrow> nat \<Rightarrow> nat \<Rightarrow> nat \<Rightarrow> (nat \<times> nat) option" where
  "mr_used A dpth 0 used = Some (used, 0)"
| "mr_used A dpth (Suc root) used =
     (if length A \<le> root then None
      else if A ! root = dpth then mr_used A dpth root (used + 1) else Some (used, Suc root))"

fun mr_leaves :: "nat \<Rightarrow> nat \<Rightarrow> nat list \<Rightarrow> nat \<Rightarrow> (nat list \<times> nat) option" where
  "mr_leaves 0 dpth A next = Some (A, next)"
| "mr_leaves (Suc k) dpth A 0 = None"
| "mr_leaves (Suc k) dpth A (Suc next) =
     (if length A \<le> next then None else mr_leaves k dpth (A[next := dpth mod 65536]) next)"

lemma mr_used_sum: "mr_used A dpth root used = Some (used', root') \<Longrightarrow> used' + root' = used + root"
  by (induction root arbitrary: used) (auto split: if_splits)

function mr_levels :: "nat list \<Rightarrow> nat \<Rightarrow> nat \<Rightarrow> nat \<Rightarrow> nat \<Rightarrow> nat list option" where
  "mr_levels A avbl root dpth next =
     (if avbl = 0 then Some A
      else case mr_used A dpth root 0 of
        None \<Rightarrow> None
      | Some (used, root') \<Rightarrow>
          (case mr_leaves (avbl - used) dpth A next of
             None \<Rightarrow> None
           | Some (A', next') \<Rightarrow> mr_levels A' (2 * used) root' (dpth + 1) next'))"
  by pat_completeness auto
termination
proof (relation "measure (\<lambda>(A, avbl, root, dpth, next). 2 * root + (if avbl = 0 then 0 else 1))", goal_cases)
  case (2 A avbl root dpth "next" x used root' p A' next')
  then have "used + root' = root" using mr_used_sum [of A dpth root 0 used root'] by simp
  then show ?case using 2(1) by auto
qed simp

declare mr_levels.simps [simp del]

definition tdefl_calculate_minimum_redundancy :: "nat list \<Rightarrow> nat \<Rightarrow> nat list option" where
  "tdefl_calculate_minimum_redundancy A n =
     (if n = 0 then Some A
      else if n = 1 then set_key A 0 1
      else do { A \<leftarrow> mr_parents n A; A \<leftarrow> mr_depths n A; mr_levels A 1 (n - 1) 0 n })"

section \<open>Limiting the code lengths\<close>

fun enforce_split :: "nat \<Rightarrow> nat list \<Rightarrow> nat list" where
  "enforce_split 0 c = c"
| "enforce_split (Suc i) c =
     (if c ! Suc i \<noteq> 0 then c[Suc i := c ! Suc i - 1, Suc (Suc i) := c ! Suc (Suc i) + 2] else enforce_split i c)"

text \<open>A \<open>total\<close> that falls to zero would go on from \<open>2 ^ 32\<close>.\<close>

fun enforce_loop :: "nat \<Rightarrow> nat \<Rightarrow> nat list \<Rightarrow> nat list option" where
  "enforce_loop max_code_size 0 c = None"
| "enforce_loop max_code_size (Suc tot) c =
     (if Suc tot = 2 ^ max_code_size then Some c
      else if c ! max_code_size = 0 then None
      else enforce_loop max_code_size tot
             (enforce_split (max_code_size - 1) (c[max_code_size := c ! max_code_size - 1])))"

definition tdefl_huffman_enforce_max_code_size :: "nat list \<Rightarrow> nat \<Rightarrow> nat \<Rightarrow> nat list option" where
  "tdefl_huffman_enforce_max_code_size pNum_codes code_list_len max_code_size =
     (if code_list_len \<le> 1 then Some pNum_codes
      else
        let c = fold (\<lambda>i c. c[max_code_size := c ! max_code_size + c ! i])
                  [max_code_size + 1..<TDEFL_MAX_SUPPORTED_HUFF_CODESIZE + 1] pNum_codes;
            total = fold (\<lambda>i total. total + push_bit (max_code_size - i) (c ! i)) (rev [1..<max_code_size + 1]) 0
        in enforce_loop max_code_size total c)"

section \<open>Sizes and codes of a table\<close>

definition sym_zero :: tdefl_sym_freq where
  "sym_zero = \<lparr>m_key = 0, m_sym_index = 0\<rparr>"

definition used_syms_of :: "nat \<Rightarrow> nat list \<Rightarrow> tdefl_sym_freq list" where
  "used_syms_of table_len pSym_count =
     map (\<lambda>i. \<lparr>m_key = pSym_count ! i mod 65536, m_sym_index = i mod 65536\<rparr>)
       (filter (\<lambda>i. pSym_count ! i \<noteq> 0) [0..<table_len])"

fun count_codes :: "nat list \<Rightarrow> nat list \<Rightarrow> nat list option" where
  "count_codes [] c = Some c"
| "count_codes (k # ks) c = (if length c \<le> k then None else count_codes ks (c[k := c ! k + 1]))"

text \<open>The sizes \<open>i\<close> in increasing order, each \<open>num_codes[i]\<close> times, for the symbols from the last one down.\<close>

fun assign_sizes :: "nat list \<Rightarrow> tdefl_sym_freq list \<Rightarrow> nat \<Rightarrow> nat list \<Rightarrow> nat list option" where
  "assign_sizes [] pSyms j sizes = Some sizes"
| "assign_sizes (i # is) pSyms 0 sizes = None"
| "assign_sizes (i # is) pSyms (Suc j) sizes =
     (case key_at pSyms j of
        None \<Rightarrow> None
      | Some s \<Rightarrow>
          (case set_key sizes (m_sym_index s) (i mod 256) of None \<Rightarrow> None | Some sizes \<Rightarrow> assign_sizes is pSyms j sizes))"

definition optimal_sizes :: "nat \<Rightarrow> nat \<Rightarrow> nat list \<Rightarrow> (nat list \<times> nat list) option" where
  "optimal_sizes table_len code_size_limit pSym_count =
     (let used = used_syms_of table_len pSym_count; num_used_syms = length used;
          syms0 = used @ replicate (TDEFL_MAX_HUFF_SYMBOLS - num_used_syms) sym_zero
      in do {
        pSyms \<leftarrow> tdefl_radix_sort_syms num_used_syms syms0 (replicate TDEFL_MAX_HUFF_SYMBOLS sym_zero);
        keys \<leftarrow> tdefl_calculate_minimum_redundancy (map m_key pSyms) num_used_syms;
        c \<leftarrow> count_codes (take num_used_syms keys) (replicate (1 + TDEFL_MAX_SUPPORTED_HUFF_CODESIZE) 0);
        num_codes \<leftarrow> tdefl_huffman_enforce_max_code_size c num_used_syms code_size_limit;
        sizes \<leftarrow> assign_sizes (concat (map (\<lambda>i. replicate (num_codes ! i) i) [1..<code_size_limit + 1]))
                  pSyms num_used_syms (replicate TDEFL_MAX_HUFF_SYMBOLS 0);
        Some (num_codes, sizes) })"

definition first_codes :: "nat \<Rightarrow> nat list \<Rightarrow> nat list" where
  "first_codes code_size_limit num_codes =
     fst (fold (\<lambda>i (next_code, j). let j = 2 * (j + num_codes ! (i - 1)) in (next_code[i := j], j))
       [2..<code_size_limit + 1] (replicate (TDEFL_MAX_SUPPORTED_HUFF_CODESIZE + 1) 0, 0))"

definition give_code :: "nat list \<Rightarrow> nat \<Rightarrow> nat list \<times> nat list \<Rightarrow> nat list \<times> nat list" where
  "give_code sizes i = (\<lambda>(next_code, codes).
     let code_size = sizes ! i in
     if code_size = 0 then (next_code, codes)
     else (next_code[code_size := next_code ! code_size + 1], codes[i := rev_bits code_size (next_code ! code_size) 0 mod 65536]))"

text \<open>The sizes and the codes of a table, from its counts, or from its sizes for a table that is given. The
  codes of symbols without one keep the values they had.\<close>

definition tdefl_optimize_huffman_table ::
    "nat \<Rightarrow> nat \<Rightarrow> bool \<Rightarrow> nat list \<Rightarrow> nat list \<times> nat list \<Rightarrow> (nat list \<times> nat list) option" where
  "tdefl_optimize_huffman_table table_len code_size_limit static_table pSym_count = (\<lambda>(sizes, codes).
     case (if static_table
           then (case count_codes (take table_len sizes) (replicate (1 + TDEFL_MAX_SUPPORTED_HUFF_CODESIZE) 0) of
                   None \<Rightarrow> None | Some num_codes \<Rightarrow> Some (num_codes, sizes, codes))
           else (case optimal_sizes table_len code_size_limit pSym_count of
                   None \<Rightarrow> None
                 | Some (num_codes, sizes) \<Rightarrow> Some (num_codes, sizes, replicate TDEFL_MAX_HUFF_SYMBOLS 0))) of
       None \<Rightarrow> None
     | Some (num_codes, sizes, codes) \<Rightarrow>
         Some (sizes, snd (fold (give_code sizes) [0..<table_len] (first_codes code_size_limit num_codes, codes))))"

end
