(* ===== verification/Tdefl.thy ===== *)
theory Tdefl
  imports Tdefl_Huffman "HOL-Library.Monad_Syntax"
begin

text \<open>
  The compressor of miniz.c: \<open>tdefl_compress\<close> without the fast parser of level 1, which the program does
  not select, and with output to a buffer (no \<open>m_pPut_buf_func\<close>). The configuration is that of x86-64, as
  in \<open>Tinfl\<close>.

  A pointer into an array of the compressor is an index. What a block has written so far, from
  \<open>pOutput_buf_start\<close> on, is the list \<open>m_pOutput_buf\<close>, what the call has written to the caller's
  buffer the list \<open>m_pOut_buf\<close>; the bytes that a store of eight leaves behind the end of the output are not
  represented. The input not yet taken is \<open>m_pSrc\<close>. A failing assertion, an access outside an array of the
  compressor and a loop without end are \<open>None\<close>. Unsigned fields are natural numbers: with an input of less
  than \<open>2 ^ 32\<close> bytes none exceeds 32 bits; the 16-bit fields are reduced where they are stored.
\<close>

section \<open>State\<close>

record tdefl_compressor =
  m_flags :: u32
  m_max_probes :: "nat list"
  m_greedy_parsing :: bool
  m_adler32 :: u32
  m_lookahead_pos :: nat
  m_lookahead_size :: nat
  m_dict_size :: nat
  m_pLZ_code_buf :: nat
  m_pLZ_flags :: nat
  m_pOutput_buf :: "byte list"
  m_num_flags_left :: nat
  m_total_lz_bytes :: nat
  m_lz_code_buf_dict_pos :: nat
  m_bits_in :: nat
  m_bit_buffer :: u32
  m_saved_match_dist :: nat
  m_saved_match_len :: nat
  m_saved_lit :: byte
  m_output_flush_ofs :: nat
  m_output_flush_remaining :: nat
  m_finished :: bool
  m_block_index :: nat
  m_wants_to_finish :: bool
  m_prev_return_status :: int
  m_pOut_buf :: "byte list"
  m_pOut_buf_size :: nat
  m_flush :: nat
  m_pSrc :: "byte list"
  m_dict :: "byte list"
  m_huff_count :: "nat list list"
  m_huff_codes :: "nat list list"
  m_huff_code_sizes :: "nat list list"
  m_lz_code_buf :: "byte list"
  m_next :: "nat list"
  m_hash :: "nat list"
  m_output_buf :: "byte list"

definition TDEFL_LZ_DICT_SIZE :: nat where "TDEFL_LZ_DICT_SIZE = 32768"
definition TDEFL_LZ_DICT_SIZE_MASK :: nat where "TDEFL_LZ_DICT_SIZE_MASK = TDEFL_LZ_DICT_SIZE - 1"
definition TDEFL_MIN_MATCH_LEN :: nat where "TDEFL_MIN_MATCH_LEN = 3"
definition TDEFL_MAX_MATCH_LEN :: nat where "TDEFL_MAX_MATCH_LEN = 258"
definition TDEFL_LZ_CODE_BUF_SIZE :: nat where "TDEFL_LZ_CODE_BUF_SIZE = 64 * 1024"
definition TDEFL_OUT_BUF_SIZE :: nat where "TDEFL_OUT_BUF_SIZE = (TDEFL_LZ_CODE_BUF_SIZE * 13) div 10"
definition TDEFL_LZ_HASH_BITS :: nat where "TDEFL_LZ_HASH_BITS = 15"
definition TDEFL_LZ_HASH_SHIFT :: nat where "TDEFL_LZ_HASH_SHIFT = (TDEFL_LZ_HASH_BITS + 2) div 3"
definition TDEFL_LZ_HASH_SIZE :: nat where "TDEFL_LZ_HASH_SIZE = 2 ^ TDEFL_LZ_HASH_BITS"

definition TDEFL_MAX_PROBES_MASK :: u32 where "TDEFL_MAX_PROBES_MASK = 0xFFF"
definition TDEFL_WRITE_ZLIB_HEADER :: u32 where "TDEFL_WRITE_ZLIB_HEADER = 0x01000"
definition TDEFL_COMPUTE_ADLER32 :: u32 where "TDEFL_COMPUTE_ADLER32 = 0x02000"
definition TDEFL_GREEDY_PARSING_FLAG :: u32 where "TDEFL_GREEDY_PARSING_FLAG = 0x04000"
definition TDEFL_NONDETERMINISTIC_PARSING_FLAG :: u32 where "TDEFL_NONDETERMINISTIC_PARSING_FLAG = 0x08000"
definition TDEFL_RLE_MATCHES :: u32 where "TDEFL_RLE_MATCHES = 0x10000"
definition TDEFL_FILTER_MATCHES :: u32 where "TDEFL_FILTER_MATCHES = 0x20000"
definition TDEFL_FORCE_ALL_STATIC_BLOCKS :: u32 where "TDEFL_FORCE_ALL_STATIC_BLOCKS = 0x40000"
definition TDEFL_FORCE_ALL_RAW_BLOCKS :: u32 where "TDEFL_FORCE_ALL_RAW_BLOCKS = 0x80000"

abbreviation tdefl_flag :: "u32 \<Rightarrow> tdefl_compressor \<Rightarrow> bool" where
  "tdefl_flag f d \<equiv> m_flags d AND f \<noteq> 0"

definition TDEFL_STATUS_BAD_PARAM :: int where "TDEFL_STATUS_BAD_PARAM = -2"
definition TDEFL_STATUS_OKAY :: int where "TDEFL_STATUS_OKAY = 0"
definition TDEFL_STATUS_DONE :: int where "TDEFL_STATUS_DONE = 1"

definition TDEFL_NO_FLUSH :: nat where "TDEFL_NO_FLUSH = 0"
definition TDEFL_SYNC_FLUSH :: nat where "TDEFL_SYNC_FLUSH = 2"
definition TDEFL_FULL_FLUSH :: nat where "TDEFL_FULL_FLUSH = 3"
definition TDEFL_FINISH :: nat where "TDEFL_FINISH = 4"

section \<open>Tables\<close>

definition s_tdefl_len_sym :: "nat list" where
  "s_tdefl_len_sym = [257, 258, 259, 260, 261, 262, 263, 264, 265, 265, 266, 266, 267, 267, 268, 268, 269, 269, 269, 269,
     270, 270, 270, 270, 271, 271, 271, 271, 272, 272, 272, 272, 273, 273, 273, 273, 273, 273, 273, 273,
     274, 274, 274, 274, 274, 274, 274, 274, 275, 275, 275, 275, 275, 275, 275, 275, 276, 276, 276, 276,
     276, 276, 276, 276, 277, 277, 277, 277, 277, 277, 277, 277, 277, 277, 277, 277, 277, 277, 277, 277,
     278, 278, 278, 278, 278, 278, 278, 278, 278, 278, 278, 278, 278, 278, 278, 278, 279, 279, 279, 279,
     279, 279, 279, 279, 279, 279, 279, 279, 279, 279, 279, 279, 280, 280, 280, 280, 280, 280, 280, 280,
     280, 280, 280, 280, 280, 280, 280, 280, 281, 281, 281, 281, 281, 281, 281, 281, 281, 281, 281, 281,
     281, 281, 281, 281, 281, 281, 281, 281, 281, 281, 281, 281, 281, 281, 281, 281, 281, 281, 281, 281,
     282, 282, 282, 282, 282, 282, 282, 282, 282, 282, 282, 282, 282, 282, 282, 282, 282, 282, 282, 282,
     282, 282, 282, 282, 282, 282, 282, 282, 282, 282, 282, 282, 283, 283, 283, 283, 283, 283, 283, 283,
     283, 283, 283, 283, 283, 283, 283, 283, 283, 283, 283, 283, 283, 283, 283, 283, 283, 283, 283, 283,
     283, 283, 283, 283, 284, 284, 284, 284, 284, 284, 284, 284, 284, 284, 284, 284, 284, 284, 284, 284,
     284, 284, 284, 284, 284, 284, 284, 284, 284, 284, 284, 284, 284, 284, 284, 285]"

definition s_tdefl_len_extra :: "nat list" where
  "s_tdefl_len_extra = [0, 0, 0, 0, 0, 0, 0, 0, 1, 1, 1, 1, 1, 1, 1, 1, 2, 2, 2, 2, 2, 2, 2, 2, 2, 2, 2, 2, 2, 2, 2, 2, 3, 3,
     3, 3, 3, 3, 3, 3, 3, 3, 3, 3, 3, 3, 3, 3, 3, 3, 3, 3, 3, 3, 3, 3, 3, 3, 3, 3, 3, 3, 3, 3, 4, 4, 4, 4,
     4, 4, 4, 4, 4, 4, 4, 4, 4, 4, 4, 4, 4, 4, 4, 4, 4, 4, 4, 4, 4, 4, 4, 4, 4, 4, 4, 4, 4, 4, 4, 4, 4, 4,
     4, 4, 4, 4, 4, 4, 4, 4, 4, 4, 4, 4, 4, 4, 4, 4, 4, 4, 4, 4, 4, 4, 4, 4, 4, 4, 5, 5, 5, 5, 5, 5, 5, 5,
     5, 5, 5, 5, 5, 5, 5, 5, 5, 5, 5, 5, 5, 5, 5, 5, 5, 5, 5, 5, 5, 5, 5, 5, 5, 5, 5, 5, 5, 5, 5, 5, 5, 5,
     5, 5, 5, 5, 5, 5, 5, 5, 5, 5, 5, 5, 5, 5, 5, 5, 5, 5, 5, 5, 5, 5, 5, 5, 5, 5, 5, 5, 5, 5, 5, 5, 5, 5,
     5, 5, 5, 5, 5, 5, 5, 5, 5, 5, 5, 5, 5, 5, 5, 5, 5, 5, 5, 5, 5, 5, 5, 5, 5, 5, 5, 5, 5, 5, 5, 5, 5, 5,
     5, 5, 5, 5, 5, 5, 5, 5, 5, 5, 5, 5, 5, 5, 5, 5, 5, 0]"

definition s_tdefl_small_dist_sym :: "nat list" where
  "s_tdefl_small_dist_sym = [0, 1, 2, 3, 4, 4, 5, 5, 6, 6, 6, 6, 7, 7, 7, 7, 8, 8, 8, 8, 8, 8, 8, 8, 9, 9, 9, 9, 9, 9, 9, 9, 10, 10,
     10, 10, 10, 10, 10, 10, 10, 10, 10, 10, 10, 10, 10, 10, 11, 11, 11, 11, 11, 11, 11, 11, 11, 11, 11, 11,
     11, 11, 11, 11, 12, 12, 12, 12, 12, 12, 12, 12, 12, 12, 12, 12, 12, 12, 12, 12, 12, 12, 12, 12, 12, 12,
     12, 12, 12, 12, 12, 12, 12, 12, 12, 12, 13, 13, 13, 13, 13, 13, 13, 13, 13, 13, 13, 13, 13, 13, 13, 13,
     13, 13, 13, 13, 13, 13, 13, 13, 13, 13, 13, 13, 13, 13, 13, 13, 14, 14, 14, 14, 14, 14, 14, 14, 14, 14,
     14, 14, 14, 14, 14, 14, 14, 14, 14, 14, 14, 14, 14, 14, 14, 14, 14, 14, 14, 14, 14, 14, 14, 14, 14, 14,
     14, 14, 14, 14, 14, 14, 14, 14, 14, 14, 14, 14, 14, 14, 14, 14, 14, 14, 14, 14, 14, 14, 14, 14, 14, 14,
     14, 14, 15, 15, 15, 15, 15, 15, 15, 15, 15, 15, 15, 15, 15, 15, 15, 15, 15, 15, 15, 15, 15, 15, 15, 15,
     15, 15, 15, 15, 15, 15, 15, 15, 15, 15, 15, 15, 15, 15, 15, 15, 15, 15, 15, 15, 15, 15, 15, 15, 15, 15,
     15, 15, 15, 15, 15, 15, 15, 15, 15, 15, 15, 15, 15, 15, 16, 16, 16, 16, 16, 16, 16, 16, 16, 16, 16, 16,
     16, 16, 16, 16, 16, 16, 16, 16, 16, 16, 16, 16, 16, 16, 16, 16, 16, 16, 16, 16, 16, 16, 16, 16, 16, 16,
     16, 16, 16, 16, 16, 16, 16, 16, 16, 16, 16, 16, 16, 16, 16, 16, 16, 16, 16, 16, 16, 16, 16, 16, 16, 16,
     16, 16, 16, 16, 16, 16, 16, 16, 16, 16, 16, 16, 16, 16, 16, 16, 16, 16, 16, 16, 16, 16, 16, 16, 16, 16,
     16, 16, 16, 16, 16, 16, 16, 16, 16, 16, 16, 16, 16, 16, 16, 16, 16, 16, 16, 16, 16, 16, 16, 16, 16, 16,
     16, 16, 16, 16, 16, 16, 16, 16, 16, 16, 16, 16, 17, 17, 17, 17, 17, 17, 17, 17, 17, 17, 17, 17, 17, 17,
     17, 17, 17, 17, 17, 17, 17, 17, 17, 17, 17, 17, 17, 17, 17, 17, 17, 17, 17, 17, 17, 17, 17, 17, 17, 17,
     17, 17, 17, 17, 17, 17, 17, 17, 17, 17, 17, 17, 17, 17, 17, 17, 17, 17, 17, 17, 17, 17, 17, 17, 17, 17,
     17, 17, 17, 17, 17, 17, 17, 17, 17, 17, 17, 17, 17, 17, 17, 17, 17, 17, 17, 17, 17, 17, 17, 17, 17, 17,
     17, 17, 17, 17, 17, 17, 17, 17, 17, 17, 17, 17, 17, 17, 17, 17, 17, 17, 17, 17, 17, 17, 17, 17, 17, 17,
     17, 17, 17, 17, 17, 17, 17, 17, 17, 17]"

definition s_tdefl_small_dist_extra :: "nat list" where
  "s_tdefl_small_dist_extra = [0, 0, 0, 0, 1, 1, 1, 1, 2, 2, 2, 2, 2, 2, 2, 2, 3, 3, 3, 3, 3, 3, 3, 3, 3, 3, 3, 3, 3, 3, 3, 3, 4, 4,
     4, 4, 4, 4, 4, 4, 4, 4, 4, 4, 4, 4, 4, 4, 4, 4, 4, 4, 4, 4, 4, 4, 4, 4, 4, 4, 4, 4, 4, 4, 5, 5, 5, 5,
     5, 5, 5, 5, 5, 5, 5, 5, 5, 5, 5, 5, 5, 5, 5, 5, 5, 5, 5, 5, 5, 5, 5, 5, 5, 5, 5, 5, 5, 5, 5, 5, 5, 5,
     5, 5, 5, 5, 5, 5, 5, 5, 5, 5, 5, 5, 5, 5, 5, 5, 5, 5, 5, 5, 5, 5, 5, 5, 5, 5, 6, 6, 6, 6, 6, 6, 6, 6,
     6, 6, 6, 6, 6, 6, 6, 6, 6, 6, 6, 6, 6, 6, 6, 6, 6, 6, 6, 6, 6, 6, 6, 6, 6, 6, 6, 6, 6, 6, 6, 6, 6, 6,
     6, 6, 6, 6, 6, 6, 6, 6, 6, 6, 6, 6, 6, 6, 6, 6, 6, 6, 6, 6, 6, 6, 6, 6, 6, 6, 6, 6, 6, 6, 6, 6, 6, 6,
     6, 6, 6, 6, 6, 6, 6, 6, 6, 6, 6, 6, 6, 6, 6, 6, 6, 6, 6, 6, 6, 6, 6, 6, 6, 6, 6, 6, 6, 6, 6, 6, 6, 6,
     6, 6, 6, 6, 6, 6, 6, 6, 6, 6, 6, 6, 6, 6, 6, 6, 6, 6, 7, 7, 7, 7, 7, 7, 7, 7, 7, 7, 7, 7, 7, 7, 7, 7,
     7, 7, 7, 7, 7, 7, 7, 7, 7, 7, 7, 7, 7, 7, 7, 7, 7, 7, 7, 7, 7, 7, 7, 7, 7, 7, 7, 7, 7, 7, 7, 7, 7, 7,
     7, 7, 7, 7, 7, 7, 7, 7, 7, 7, 7, 7, 7, 7, 7, 7, 7, 7, 7, 7, 7, 7, 7, 7, 7, 7, 7, 7, 7, 7, 7, 7, 7, 7,
     7, 7, 7, 7, 7, 7, 7, 7, 7, 7, 7, 7, 7, 7, 7, 7, 7, 7, 7, 7, 7, 7, 7, 7, 7, 7, 7, 7, 7, 7, 7, 7, 7, 7,
     7, 7, 7, 7, 7, 7, 7, 7, 7, 7, 7, 7, 7, 7, 7, 7, 7, 7, 7, 7, 7, 7, 7, 7, 7, 7, 7, 7, 7, 7, 7, 7, 7, 7,
     7, 7, 7, 7, 7, 7, 7, 7, 7, 7, 7, 7, 7, 7, 7, 7, 7, 7, 7, 7, 7, 7, 7, 7, 7, 7, 7, 7, 7, 7, 7, 7, 7, 7,
     7, 7, 7, 7, 7, 7, 7, 7, 7, 7, 7, 7, 7, 7, 7, 7, 7, 7, 7, 7, 7, 7, 7, 7, 7, 7, 7, 7, 7, 7, 7, 7, 7, 7,
     7, 7, 7, 7, 7, 7, 7, 7, 7, 7, 7, 7, 7, 7, 7, 7, 7, 7, 7, 7, 7, 7, 7, 7, 7, 7, 7, 7, 7, 7, 7, 7, 7, 7,
     7, 7]"

definition s_tdefl_large_dist_sym :: "nat list" where
  "s_tdefl_large_dist_sym = [0, 0, 18, 19, 20, 20, 21, 21, 22, 22, 22, 22, 23, 23, 23, 23, 24, 24, 24, 24, 24, 24, 24, 24, 25, 25,
     25, 25, 25, 25, 25, 25, 26, 26, 26, 26, 26, 26, 26, 26, 26, 26, 26, 26, 26, 26, 26, 26, 27, 27, 27, 27,
     27, 27, 27, 27, 27, 27, 27, 27, 27, 27, 27, 27, 28, 28, 28, 28, 28, 28, 28, 28, 28, 28, 28, 28, 28, 28,
     28, 28, 28, 28, 28, 28, 28, 28, 28, 28, 28, 28, 28, 28, 28, 28, 28, 28, 29, 29, 29, 29, 29, 29, 29, 29,
     29, 29, 29, 29, 29, 29, 29, 29, 29, 29, 29, 29, 29, 29, 29, 29, 29, 29, 29, 29, 29, 29, 29, 29]"

definition s_tdefl_large_dist_extra :: "nat list" where
  "s_tdefl_large_dist_extra = [0, 0, 8, 8, 9, 9, 9, 9, 10, 10, 10, 10, 10, 10, 10, 10, 11, 11, 11, 11, 11, 11, 11, 11, 11, 11, 11, 11,
     11, 11, 11, 11, 12, 12, 12, 12, 12, 12, 12, 12, 12, 12, 12, 12, 12, 12, 12, 12, 12, 12, 12, 12, 12, 12,
     12, 12, 12, 12, 12, 12, 12, 12, 12, 12, 13, 13, 13, 13, 13, 13, 13, 13, 13, 13, 13, 13, 13, 13, 13, 13,
     13, 13, 13, 13, 13, 13, 13, 13, 13, 13, 13, 13, 13, 13, 13, 13, 13, 13, 13, 13, 13, 13, 13, 13, 13, 13,
     13, 13, 13, 13, 13, 13, 13, 13, 13, 13, 13, 13, 13, 13, 13, 13, 13, 13, 13, 13, 13, 13]"

section \<open>Bits of a block\<close>

text \<open>\<open>pOutput_buf_end\<close> is \<open>OUTPUT_END\<close> bytes behind the start of the block.\<close>

definition OUTPUT_END :: nat where "OUTPUT_END = TDEFL_OUT_BUF_SIZE - 16"

function put_whole_bytes :: "tdefl_compressor \<Rightarrow> tdefl_compressor" where
  "put_whole_bytes d =
     (if 8 \<le> m_bits_in d then
        put_whole_bytes (d\<lparr>m_pOutput_buf :=
            (if length (m_pOutput_buf d) < OUTPUT_END then m_pOutput_buf d @ [ucast (m_bit_buffer d)] else m_pOutput_buf d),
          m_bit_buffer := drop_bit 8 (m_bit_buffer d), m_bits_in := m_bits_in d - 8\<rparr>)
      else d)"
  by pat_completeness auto
termination by (relation "measure m_bits_in") auto

declare put_whole_bytes.simps [simp del]

definition TDEFL_PUT_BITS :: "nat \<Rightarrow> nat \<Rightarrow> tdefl_compressor \<Rightarrow> tdefl_compressor option" where
  "TDEFL_PUT_BITS bits len d =
     (if 2 ^ len - 1 < bits then None
      else Some (put_whole_bytes (d\<lparr>m_bit_buffer := m_bit_buffer d OR push_bit (m_bits_in d) (of_nat bits),
                                    m_bits_in := m_bits_in d + len\<rparr>)))"

fun put_all :: "(nat \<times> nat) list \<Rightarrow> tdefl_compressor \<Rightarrow> tdefl_compressor option" where
  "put_all [] d = Some d"
| "put_all ((bits, len) # ps) d = TDEFL_PUT_BITS bits len d \<bind> put_all ps"

section \<open>Blocks with codes of their own\<close>

definition optimize_table :: "nat \<Rightarrow> nat \<Rightarrow> nat \<Rightarrow> bool \<Rightarrow> tdefl_compressor \<Rightarrow> tdefl_compressor option" where
  "optimize_table table_num table_len code_size_limit static_table d =
     (case tdefl_optimize_huffman_table table_len code_size_limit static_table (m_huff_count d ! table_num)
             (m_huff_code_sizes d ! table_num, m_huff_codes d ! table_num) of
        None \<Rightarrow> None
      | Some (sizes, codes) \<Rightarrow>
          Some (d\<lparr>m_huff_code_sizes := (m_huff_code_sizes d)[table_num := sizes],
                  m_huff_codes := (m_huff_codes d)[table_num := codes]\<rparr>))"

definition set_count :: "nat \<Rightarrow> nat list \<Rightarrow> tdefl_compressor \<Rightarrow> tdefl_compressor" where
  "set_count table_num cs d = d\<lparr>m_huff_count := (m_huff_count d)[table_num := cs]\<rparr>"

record packing =
  pk_count :: "nat list"
  pk_sizes :: "nat list"
  rle_z_count :: nat
  rle_repeat_count :: nat
  prev_code_size :: nat

definition count_up :: "nat \<Rightarrow> nat \<Rightarrow> nat list \<Rightarrow> nat list" where
  "count_up i k cs = cs[i := (cs ! i + k) mod 65536]"

definition TDEFL_RLE_PREV_CODE_SIZE :: "packing \<Rightarrow> packing" where
  "TDEFL_RLE_PREV_CODE_SIZE r =
     (if rle_repeat_count r = 0 then r
      else (if rle_repeat_count r < 3
            then r\<lparr>pk_count := count_up (prev_code_size r) (rle_repeat_count r) (pk_count r),
                   pk_sizes := pk_sizes r @ replicate (rle_repeat_count r) (prev_code_size r)\<rparr>
            else r\<lparr>pk_count := count_up 16 1 (pk_count r),
                   pk_sizes := pk_sizes r @ [16, (rle_repeat_count r - 3) mod 256]\<rparr>)\<lparr>rle_repeat_count := 0\<rparr>)"

definition TDEFL_RLE_ZERO_CODE_SIZE :: "packing \<Rightarrow> packing" where
  "TDEFL_RLE_ZERO_CODE_SIZE r =
     (if rle_z_count r = 0 then r
      else (if rle_z_count r < 3
            then r\<lparr>pk_count := count_up 0 (rle_z_count r) (pk_count r),
                   pk_sizes := pk_sizes r @ replicate (rle_z_count r) 0\<rparr>
            else if rle_z_count r \<le> 10
            then r\<lparr>pk_count := count_up 17 1 (pk_count r),
                   pk_sizes := pk_sizes r @ [17, (rle_z_count r - 3) mod 256]\<rparr>
            else r\<lparr>pk_count := count_up 18 1 (pk_count r),
                   pk_sizes := pk_sizes r @ [18, (rle_z_count r - 11) mod 256]\<rparr>)\<lparr>rle_z_count := 0\<rparr>)"

definition pack_code_size :: "nat \<Rightarrow> packing \<Rightarrow> packing" where
  "pack_code_size code_size r =
     (if code_size = 0 then
        let r = TDEFL_RLE_PREV_CODE_SIZE r; r = r\<lparr>rle_z_count := rle_z_count r + 1\<rparr>
        in if rle_z_count r = 138 then TDEFL_RLE_ZERO_CODE_SIZE r else r
      else
        let r = TDEFL_RLE_ZERO_CODE_SIZE r in
        if code_size \<noteq> prev_code_size r then
          let r = TDEFL_RLE_PREV_CODE_SIZE r
          in r\<lparr>pk_count := count_up code_size 1 (pk_count r), pk_sizes := pk_sizes r @ [code_size]\<rparr>
        else
          let r = r\<lparr>rle_repeat_count := rle_repeat_count r + 1\<rparr>
          in if rle_repeat_count r = 6 then TDEFL_RLE_PREV_CODE_SIZE r else r)\<lparr>prev_code_size := code_size\<rparr>"

text \<open>The counts of the third table and the packed sizes.\<close>

definition pack_code_sizes :: "nat list \<Rightarrow> nat list \<Rightarrow> nat list \<times> nat list" where
  "pack_code_sizes code_sizes_to_pack huff_count =
     (let r = fold pack_code_size code_sizes_to_pack
                \<lparr>pk_count = replicate TDEFL_MAX_HUFF_SYMBOLS_2 0 @ drop TDEFL_MAX_HUFF_SYMBOLS_2 huff_count,
                 pk_sizes = [], rle_z_count = 0, rle_repeat_count = 0, prev_code_size = 0xFF\<rparr>;
          r = (if rle_repeat_count r \<noteq> 0 then TDEFL_RLE_PREV_CODE_SIZE r else TDEFL_RLE_ZERO_CODE_SIZE r)
      in (pk_count r, pk_sizes r))"

definition s_tdefl_packed_code_size_syms_swizzle :: "nat list" where
  "s_tdefl_packed_code_size_syms_swizzle = [16, 17, 18, 0, 8, 7, 9, 6, 10, 5, 11, 4, 12, 3, 13, 2, 14, 1, 15]"

text \<open>The length of a table without the zeros at its end, at least \<open>lo\<close>.\<close>

fun trimmed_length :: "nat \<Rightarrow> nat list \<Rightarrow> nat \<Rightarrow> nat" where
  "trimmed_length lo sizes 0 = 0"
| "trimmed_length lo sizes (Suc n) =
     (if lo < Suc n \<and> sizes ! n = 0 then trimmed_length lo sizes n else Suc n)"

fun put_packed :: "nat list \<Rightarrow> tdefl_compressor \<Rightarrow> tdefl_compressor option" where
  "put_packed [] d = Some d"
| "put_packed (sy # rest) d =
     (if TDEFL_MAX_HUFF_SYMBOLS_2 \<le> sy then None
      else TDEFL_PUT_BITS (m_huff_codes d ! 2 ! sy) (m_huff_code_sizes d ! 2 ! sy) d \<bind> (\<lambda>d.
        if sy < 16 then put_packed rest d
        else case rest of
          [] \<Rightarrow> None
        | x # rest' \<Rightarrow> TDEFL_PUT_BITS x ([2, 3, 7] ! (sy - 16)) d \<bind> put_packed rest'))"

definition tdefl_start_dynamic_block :: "tdefl_compressor \<Rightarrow> tdefl_compressor option" where
  "tdefl_start_dynamic_block d = do {
     let d = set_count 0 ((m_huff_count d ! 0)[256 := 1]) d;
     d \<leftarrow> optimize_table 0 TDEFL_MAX_HUFF_SYMBOLS_0 15 False d;
     d \<leftarrow> optimize_table 1 TDEFL_MAX_HUFF_SYMBOLS_1 15 False d;
     let num_lit_codes = trimmed_length 257 (m_huff_code_sizes d ! 0) 286;
     let num_dist_codes = trimmed_length 1 (m_huff_code_sizes d ! 1) 30;
     let (count, packed_code_sizes) =
       pack_code_sizes (take num_lit_codes (m_huff_code_sizes d ! 0) @ take num_dist_codes (m_huff_code_sizes d ! 1))
         (m_huff_count d ! 2);
     (if TDEFL_MAX_HUFF_SYMBOLS_0 + TDEFL_MAX_HUFF_SYMBOLS_1 < length packed_code_sizes then None else Some ());
     d \<leftarrow> optimize_table 2 TDEFL_MAX_HUFF_SYMBOLS_2 7 False (set_count 2 count d);
     d \<leftarrow> put_all [(2, 2), (num_lit_codes - 257, 5), (num_dist_codes - 1, 5)] d;
     let swizzled = map ((!) (m_huff_code_sizes d ! 2)) s_tdefl_packed_code_size_syms_swizzle;
     let num_bit_lengths = max 4 (trimmed_length 0 swizzled 19);
     d \<leftarrow> put_all ((num_bit_lengths - 4, 4) # map (\<lambda>x. (x, 3)) (take num_bit_lengths swizzled)) d;
     put_packed packed_code_sizes d
   }"

section \<open>Blocks with the fixed codes\<close>

definition tdefl_start_static_block :: "tdefl_compressor \<Rightarrow> tdefl_compressor option" where
  "tdefl_start_static_block d = do {
     let d = d\<lparr>m_huff_code_sizes := (m_huff_code_sizes d)
       [0 := replicate 144 8 @ replicate 112 9 @ replicate 24 7 @ replicate 8 8,
        1 := replicate 32 5 @ drop 32 (m_huff_code_sizes d ! 1)]\<rparr>;
     d \<leftarrow> optimize_table 0 288 15 True d;
     d \<leftarrow> optimize_table 1 32 15 True d;
     TDEFL_PUT_BITS 1 2 d
   }"

section \<open>Literals and matches of a block\<close>

definition mz_bitmasks :: "nat \<Rightarrow> nat" where
  "mz_bitmasks n = mask n"

text \<open>The 64-bit buffer and the number of bits in it.\<close>

type_synonym fast_bits = "u64 \<times> nat"

definition TDEFL_PUT_BITS_FAST :: "nat \<Rightarrow> nat \<Rightarrow> fast_bits \<Rightarrow> fast_bits" where
  "TDEFL_PUT_BITS_FAST b l = (\<lambda>(bit_buffer, bits_in). (bit_buffer OR push_bit bits_in (of_nat b), bits_in + l))"

definition lz_match_codes :: "tdefl_compressor \<Rightarrow> nat \<Rightarrow> fast_bits \<Rightarrow> fast_bits option" where
  "lz_match_codes d pLZ_codes w =
     (let match_len = unat (m_lz_code_buf d ! pLZ_codes);
          match_dist = unat (m_lz_code_buf d ! (pLZ_codes + 1)) + 256 * unat (m_lz_code_buf d ! (pLZ_codes + 2));
          len_sym = s_tdefl_len_sym ! match_len; len_extra = s_tdefl_len_extra ! match_len;
          s0 = s_tdefl_small_dist_sym ! (match_dist AND 511); n0 = s_tdefl_small_dist_extra ! (match_dist AND 511);
          s1 = s_tdefl_large_dist_sym ! drop_bit 8 match_dist; n1 = s_tdefl_large_dist_extra ! drop_bit 8 match_dist;
          sym = (if match_dist < 512 then s0 else s1); num_extra_bits = (if match_dist < 512 then n0 else n1)
      in if m_huff_code_sizes d ! 0 ! len_sym = 0 \<or> m_huff_code_sizes d ! 1 ! sym = 0 then None
         else Some (
           TDEFL_PUT_BITS_FAST (match_dist AND mz_bitmasks num_extra_bits) num_extra_bits (
           TDEFL_PUT_BITS_FAST (m_huff_codes d ! 1 ! sym) (m_huff_code_sizes d ! 1 ! sym) (
           TDEFL_PUT_BITS_FAST (match_len AND mz_bitmasks len_extra) len_extra (
           TDEFL_PUT_BITS_FAST (m_huff_codes d ! 0 ! len_sym) (m_huff_code_sizes d ! 0 ! len_sym) w)))))"

definition lz_literal_code :: "tdefl_compressor \<Rightarrow> nat \<Rightarrow> fast_bits \<Rightarrow> fast_bits option" where
  "lz_literal_code d pLZ_codes w =
     (let lit = unat (m_lz_code_buf d ! pLZ_codes)
      in if m_huff_code_sizes d ! 0 ! lit = 0 then None
         else Some (TDEFL_PUT_BITS_FAST (m_huff_codes d ! 0 ! lit) (m_huff_code_sizes d ! 0 ! lit) w))"

text \<open>One match or up to three literals: the flags, the position behind them and the bits.\<close>

definition lz_codes_step :: "tdefl_compressor \<Rightarrow> nat \<Rightarrow> nat \<Rightarrow> fast_bits \<Rightarrow> (nat \<times> nat \<times> fast_bits) option" where
  "lz_codes_step d flags pLZ_codes w =
     (let (flags, pLZ_codes) =
        (if flags = 1 then (unat (m_lz_code_buf d ! pLZ_codes) OR 0x100, pLZ_codes + 1) else (flags, pLZ_codes))
      in if flags AND 1 \<noteq> 0 then lz_match_codes d pLZ_codes w \<bind> (\<lambda>w. Some (flags, pLZ_codes + 3, w))
         else lz_literal_code d pLZ_codes w \<bind> (\<lambda>w.
           if flags AND 2 = 0 \<and> pLZ_codes + 1 < m_pLZ_code_buf d
           then let flags = drop_bit 1 flags in lz_literal_code d (pLZ_codes + 1) w \<bind> (\<lambda>w.
             if flags AND 2 = 0 \<and> pLZ_codes + 2 < m_pLZ_code_buf d
             then let flags = drop_bit 1 flags in lz_literal_code d (pLZ_codes + 2) w \<bind> (\<lambda>w.
               Some (flags, pLZ_codes + 3, w))
             else Some (flags, pLZ_codes + 2, w))
           else Some (flags, pLZ_codes + 1, w)))"

text \<open>The bytes behind \<open>pOutput_buf\<close> that a store of the buffer fixes.\<close>

definition stored_bytes :: "fast_bits \<Rightarrow> byte list" where
  "stored_bytes = (\<lambda>(bit_buffer, bits_in). map (\<lambda>i. ucast (drop_bit (8 * i) bit_buffer)) [0..<drop_bit 3 bits_in])"

lemma lz_codes_step_forward: "lz_codes_step d flags p w = Some (flags', p', w') \<Longrightarrow> p < p'"
  by (auto simp: lz_codes_step_def Let_def bind_eq_Some_conv split: if_splits)

text \<open>The loop over the codes: \<open>Some None\<close> when the output buffer is full.\<close>

function lz_codes_loop :: "tdefl_compressor \<Rightarrow> nat \<Rightarrow> nat \<Rightarrow> byte list \<Rightarrow> fast_bits \<Rightarrow> (byte list \<times> fast_bits) option option" where
  "lz_codes_loop d flags pLZ_codes pOutput_buf w =
     (if m_pLZ_code_buf d \<le> pLZ_codes then Some (Some (pOutput_buf, w))
      else case lz_codes_step d flags pLZ_codes w of
        None \<Rightarrow> None
      | Some (flags', pLZ_codes', w') \<Rightarrow>
          if OUTPUT_END \<le> length pOutput_buf then Some None
          else lz_codes_loop d (drop_bit 1 flags') pLZ_codes' (pOutput_buf @ stored_bytes w')
                 (drop_bit (8 * drop_bit 3 (snd w')) (fst w'), snd w' AND 7))"
  by pat_completeness auto
termination
  by (relation "measure (\<lambda>(d, flags, p, out, w). m_pLZ_code_buf d - p)")
    (auto dest: lz_codes_step_forward)

declare lz_codes_loop.simps [simp del]

function put_rest :: "fast_bits \<Rightarrow> tdefl_compressor \<Rightarrow> tdefl_compressor option" where
  "put_rest (bit_buffer, bits_in) d =
     (if bits_in = 0 then Some d
      else let n = min bits_in 16 in
        case TDEFL_PUT_BITS (unat (ucast bit_buffer :: u32) AND mz_bitmasks n) n d of
          None \<Rightarrow> None
        | Some d' \<Rightarrow> put_rest (drop_bit n bit_buffer, bits_in - n) d')"
  by pat_completeness auto
termination by (relation "measure (\<lambda>(w, d). snd w)") auto

declare put_rest.simps [simp del]

definition tdefl_compress_lz_codes :: "tdefl_compressor \<Rightarrow> (bool \<times> tdefl_compressor) option" where
  "tdefl_compress_lz_codes d =
     (case lz_codes_loop d 1 0 (m_pOutput_buf d) (ucast (m_bit_buffer d), m_bits_in d) of
        None \<Rightarrow> None
      | Some None \<Rightarrow> Some (False, d)
      | Some (Some (out, w)) \<Rightarrow> do {
          d \<leftarrow> put_rest w (d\<lparr>m_pOutput_buf := out, m_bits_in := 0, m_bit_buffer := 0\<rparr>);
          d \<leftarrow> TDEFL_PUT_BITS (m_huff_codes d ! 0 ! 256) (m_huff_code_sizes d ! 0 ! 256) d;
          Some (length (m_pOutput_buf d) < OUTPUT_END, d)
        })"

definition tdefl_compress_block :: "tdefl_compressor \<Rightarrow> bool \<Rightarrow> (bool \<times> tdefl_compressor) option" where
  "tdefl_compress_block d static_block =
     (if static_block then tdefl_start_static_block d else tdefl_start_dynamic_block d) \<bind> tdefl_compress_lz_codes"

end
