(* ===== verification/Tdefl_Compress.thy ===== *)
theory Tdefl_Compress
  imports Tdefl
begin

text \<open>
  The compressor of miniz.c, continued: the end of a block, the search for matches, the parser, and
  \<open>tdefl_compress\<close> itself.
\<close>

section \<open>The end of a block\<close>

definition restore_output :: "tdefl_compressor \<Rightarrow> tdefl_compressor \<Rightarrow> tdefl_compressor" where
  "restore_output saved d =
     d\<lparr>m_pOutput_buf := m_pOutput_buf saved, m_bit_buffer := m_bit_buffer saved, m_bits_in := m_bits_in saved\<rparr>"

definition put_padding :: "tdefl_compressor \<Rightarrow> tdefl_compressor option" where
  "put_padding d = (if m_bits_in d \<noteq> 0 then TDEFL_PUT_BITS 0 (8 - m_bits_in d) d else Some d)"

definition put_raw_block :: "tdefl_compressor \<Rightarrow> tdefl_compressor option" where
  "put_raw_block d = do {
     d \<leftarrow> TDEFL_PUT_BITS 0 2 d;
     d \<leftarrow> put_padding d;
     d \<leftarrow> put_all [(m_total_lz_bytes d AND 0xFFFF, 16), ((m_total_lz_bytes d XOR 0xFFFF) AND 0xFFFF, 16)] d;
     put_all (map (\<lambda>i. (unat (m_dict d ! (m_lz_code_buf_dict_pos d + i AND TDEFL_LZ_DICT_SIZE_MASK)), 8)) [0..<m_total_lz_bytes d]) d
   }"

definition put_flush :: "nat \<Rightarrow> tdefl_compressor \<Rightarrow> tdefl_compressor option" where
  "put_flush flush d =
     (if flush = 0 then Some d
      else if flush = TDEFL_FINISH then
        put_padding d \<bind> (\<lambda>d.
          if tdefl_flag TDEFL_WRITE_ZLIB_HEADER d then
            put_all (map (\<lambda>i. (unat (drop_bit 24 (push_bit (8 * i) (m_adler32 d)) AND 0xFF), 8)) [0..<4]) d
          else Some d)
      else do {
        d \<leftarrow> TDEFL_PUT_BITS 0 3 d;
        d \<leftarrow> put_padding d;
        put_all [(0, 16), (0xFFFF, 16)] d
      })"

text \<open>What the block has written goes to the caller's buffer, directly when there is room for any block.\<close>

definition deliver_output :: "bool \<Rightarrow> tdefl_compressor \<Rightarrow> tdefl_compressor" where
  "deliver_output direct d =
     (let n = length (m_pOutput_buf d) in
      if n = 0 then d
      else if direct then d\<lparr>m_pOut_buf := m_pOut_buf d @ m_pOutput_buf d\<rparr>
      else
        let bytes_to_copy = min n (m_pOut_buf_size d - length (m_pOut_buf d));
            d = d\<lparr>m_output_buf := m_pOutput_buf d, m_pOut_buf := m_pOut_buf d @ take bytes_to_copy (m_pOutput_buf d)\<rparr>;
            n = n - bytes_to_copy
        in if n \<noteq> 0 then d\<lparr>m_output_flush_ofs := bytes_to_copy, m_output_flush_remaining := n\<rparr> else d)"

text \<open>The block after its three header bits: compressed, or raw when that is not longer.\<close>

definition put_block :: "bool \<Rightarrow> tdefl_compressor \<Rightarrow> tdefl_compressor option" where
  "put_block use_raw_block saved =
     (if use_raw_block then Some (False, saved)
      else tdefl_compress_block saved (tdefl_flag TDEFL_FORCE_ALL_STATIC_BLOCKS saved \<or> m_total_lz_bytes saved < 48)) \<bind>
     (\<lambda>(comp_block_succeeded, d).
        if (use_raw_block \<or> m_total_lz_bytes d \<noteq> 0 \<and>
              m_total_lz_bytes d \<le> length (m_pOutput_buf d) - length (m_pOutput_buf saved) + 1) \<and>
            m_lookahead_pos d - m_lz_code_buf_dict_pos d \<le> m_dict_size d
        then put_raw_block (restore_output saved d)
        else if \<not> comp_block_succeeded
        then tdefl_compress_block (restore_output saved d) True \<bind> (\<lambda>(_, d). Some d)
        else Some d)"

definition tdefl_flush_block :: "nat \<Rightarrow> tdefl_compressor \<Rightarrow> (nat \<times> tdefl_compressor) option" where
  "tdefl_flush_block flush d = do {
     let use_raw_block = (tdefl_flag TDEFL_FORCE_ALL_RAW_BLOCKS d \<and> m_lookahead_pos d - m_lz_code_buf_dict_pos d \<le> m_dict_size d);
     let direct = (TDEFL_OUT_BUF_SIZE \<le> m_pOut_buf_size d - length (m_pOut_buf d));
     (if m_output_flush_remaining d \<noteq> 0 then None else Some ());
     let d = d\<lparr>m_pOutput_buf := [], m_output_flush_ofs := 0, m_output_flush_remaining := 0,
               m_lz_code_buf := (m_lz_code_buf d)[m_pLZ_flags d := drop_bit (m_num_flags_left d) (m_lz_code_buf d ! m_pLZ_flags d)],
               m_pLZ_code_buf := m_pLZ_code_buf d - (if m_num_flags_left d = 8 then 1 else 0)\<rparr>;
     d \<leftarrow> (if tdefl_flag TDEFL_WRITE_ZLIB_HEADER d \<and> m_block_index d = 0 then put_all [(0x78, 8), (0x01, 8)] d else Some d);
     d \<leftarrow> TDEFL_PUT_BITS (of_bool (flush = TDEFL_FINISH)) 1 d;
     d \<leftarrow> put_block use_raw_block d;
     d \<leftarrow> put_flush flush d;
     (if OUTPUT_END \<le> length (m_pOutput_buf d) then None else Some ());
     let d = d\<lparr>m_huff_count := (m_huff_count d)
                 [0 := replicate TDEFL_MAX_HUFF_SYMBOLS_0 0 @ drop TDEFL_MAX_HUFF_SYMBOLS_0 (m_huff_count d ! 0),
                  1 := replicate TDEFL_MAX_HUFF_SYMBOLS_1 0 @ drop TDEFL_MAX_HUFF_SYMBOLS_1 (m_huff_count d ! 1)],
               m_pLZ_code_buf := 1, m_pLZ_flags := 0, m_num_flags_left := 8,
               m_lz_code_buf_dict_pos := m_lz_code_buf_dict_pos d + m_total_lz_bytes d,
               m_total_lz_bytes := 0, m_block_index := m_block_index d + 1\<rparr>;
     let d = deliver_output direct d;
     Some (m_output_flush_remaining d, d)
   }"

section \<open>Matches\<close>

text \<open>Two bytes read at once.\<close>

definition TDEFL_READ_UNALIGNED_WORD :: "byte list \<Rightarrow> nat \<Rightarrow> nat option" where
  "TDEFL_READ_UNALIGNED_WORD dict i =
     (if i + 1 < length dict then Some (unat (dict ! i) + 256 * unat (dict ! (i + 1))) else None)"

datatype probe = Give_Up | Probed nat | Candidate nat nat

definition TDEFL_PROBE :: "tdefl_compressor \<Rightarrow> nat \<Rightarrow> nat \<Rightarrow> nat \<Rightarrow> nat \<Rightarrow> nat \<Rightarrow> probe option" where
  "TDEFL_PROBE d lookahead_pos max_dist match_len c01 probe_pos =
     (let next_probe_pos = m_next d ! probe_pos;
          dist = nat ((int lookahead_pos - int next_probe_pos) mod 65536)
      in if next_probe_pos = 0 \<or> max_dist < dist then Some Give_Up
         else let probe_pos = next_probe_pos AND TDEFL_LZ_DICT_SIZE_MASK in
           TDEFL_READ_UNALIGNED_WORD (m_dict d) (probe_pos + match_len - 1) \<bind> (\<lambda>c.
             Some (if c = c01 then Candidate probe_pos dist else Probed probe_pos)))"

fun tdefl_probes :: "nat \<Rightarrow> tdefl_compressor \<Rightarrow> nat \<Rightarrow> nat \<Rightarrow> nat \<Rightarrow> nat \<Rightarrow> nat \<Rightarrow> probe option" where
  "tdefl_probes 0 d lookahead_pos max_dist match_len c01 probe_pos = Some (Probed probe_pos)"
| "tdefl_probes (Suc k) d lookahead_pos max_dist match_len c01 probe_pos =
     TDEFL_PROBE d lookahead_pos max_dist match_len c01 probe_pos \<bind> (\<lambda>r.
       case r of
         Probed probe_pos \<Rightarrow> tdefl_probes k d lookahead_pos max_dist match_len c01 probe_pos
       | _ \<Rightarrow> Some r)"

text \<open>The words behind \<open>p\<close> and \<open>q\<close>, \<open>k\<close> of them: the number of the first that differs, if any does.\<close>

fun differing_word :: "nat \<Rightarrow> nat \<Rightarrow> byte list \<Rightarrow> nat \<Rightarrow> nat \<Rightarrow> nat option option" where
  "differing_word 0 i dict p q = Some None"
| "differing_word (Suc k) i dict p q = do {
     a \<leftarrow> TDEFL_READ_UNALIGNED_WORD dict (p + 2 * i);
     b \<leftarrow> TDEFL_READ_UNALIGNED_WORD dict (q + 2 * i);
     if a = b then differing_word k (i + 1) dict p q else Some (Some i)
   }"

text \<open>The loop over the candidates, with at most \<open>num_probes_left - 1\<close> rounds of three probes each; 32 rounds
  of four words compare the rest of a candidate.\<close>

fun find_match_loop :: "nat \<Rightarrow> tdefl_compressor \<Rightarrow> nat \<Rightarrow> nat \<Rightarrow> nat \<Rightarrow> nat \<Rightarrow> nat \<Rightarrow> nat \<Rightarrow> nat \<Rightarrow> nat \<times> nat \<Rightarrow> (nat \<times> nat) option" where
  "find_match_loop 0 d lookahead_pos max_dist max_match_len c01 s01 match_len probe_pos best = None"
| "find_match_loop (Suc num_probes_left) d lookahead_pos max_dist max_match_len c01 s01 match_len probe_pos best =
     (if num_probes_left = 0 then Some best
      else tdefl_probes 3 d lookahead_pos max_dist match_len c01 probe_pos \<bind> (\<lambda>r.
        case r of
          Give_Up \<Rightarrow> Some best
        | Probed probe_pos \<Rightarrow>
            find_match_loop num_probes_left d lookahead_pos max_dist max_match_len c01 s01 match_len probe_pos best
        | Candidate probe_pos dist \<Rightarrow>
            if dist = 0 then Some best
            else do {
              q01 \<leftarrow> TDEFL_READ_UNALIGNED_WORD (m_dict d) probe_pos;
              if q01 \<noteq> s01 then
                find_match_loop num_probes_left d lookahead_pos max_dist max_match_len c01 s01 match_len probe_pos best
              else do {
                let pos = lookahead_pos AND TDEFL_LZ_DICT_SIZE_MASK;
                w \<leftarrow> differing_word (32 * 4) 1 (m_dict d) pos probe_pos;
                case w of
                  None \<Rightarrow> Some (dist, min max_match_len TDEFL_MAX_MATCH_LEN)
                | Some i \<Rightarrow>
                    let probe_len = i * 2 + of_bool (m_dict d ! (pos + 2 * i) = m_dict d ! (probe_pos + 2 * i)) in
                    if match_len < probe_len then
                      let match_len = min max_match_len probe_len in
                      if match_len = max_match_len then Some (dist, match_len)
                      else do {
                        c01 \<leftarrow> TDEFL_READ_UNALIGNED_WORD (m_dict d) (pos + match_len - 1);
                        find_match_loop num_probes_left d lookahead_pos max_dist max_match_len c01 s01 match_len probe_pos
                          (dist, match_len)
                      }
                    else find_match_loop num_probes_left d lookahead_pos max_dist max_match_len c01 s01 match_len probe_pos best
              }
            }))"

definition tdefl_find_match :: "tdefl_compressor \<Rightarrow> nat \<Rightarrow> nat \<Rightarrow> nat \<Rightarrow> nat \<Rightarrow> nat \<Rightarrow> (nat \<times> nat) option" where
  "tdefl_find_match d lookahead_pos max_dist max_match_len match_dist match_len = do {
     let pos = lookahead_pos AND TDEFL_LZ_DICT_SIZE_MASK;
     let num_probes_left = m_max_probes d ! (if 32 \<le> match_len then 1 else 0);
     c01 \<leftarrow> TDEFL_READ_UNALIGNED_WORD (m_dict d) (pos + match_len - 1);
     s01 \<leftarrow> TDEFL_READ_UNALIGNED_WORD (m_dict d) pos;
     (if TDEFL_MAX_MATCH_LEN < max_match_len then None else Some ());
     if max_match_len \<le> match_len then Some (match_dist, match_len)
     else find_match_loop num_probes_left d lookahead_pos max_dist max_match_len c01 s01 match_len pos (match_dist, match_len)
   }"

section \<open>Recording literals and matches\<close>

definition lz_store :: "nat \<Rightarrow> byte list \<Rightarrow> tdefl_compressor \<Rightarrow> tdefl_compressor option" where
  "lz_store i bs d =
     (if i + length bs \<le> length (m_lz_code_buf d)
      then Some (d\<lparr>m_lz_code_buf := take i (m_lz_code_buf d) @ bs @ drop (i + length bs) (m_lz_code_buf d)\<rparr>)
      else None)"

definition lz_flag :: "byte \<Rightarrow> tdefl_compressor \<Rightarrow> tdefl_compressor option" where
  "lz_flag high d = do {
     d \<leftarrow> lz_store (m_pLZ_flags d) [drop_bit 1 (m_lz_code_buf d ! m_pLZ_flags d) OR high] d;
     let d = d\<lparr>m_num_flags_left := m_num_flags_left d - 1\<rparr>;
     Some (if m_num_flags_left d = 0
           then d\<lparr>m_num_flags_left := 8, m_pLZ_flags := m_pLZ_code_buf d, m_pLZ_code_buf := m_pLZ_code_buf d + 1\<rparr> else d)
   }"

definition tdefl_record_literal :: "byte \<Rightarrow> tdefl_compressor \<Rightarrow> tdefl_compressor option" where
  "tdefl_record_literal lit d = do {
     let d = d\<lparr>m_total_lz_bytes := m_total_lz_bytes d + 1\<rparr>;
     d \<leftarrow> lz_store (m_pLZ_code_buf d) [lit] d;
     d \<leftarrow> lz_flag 0 (d\<lparr>m_pLZ_code_buf := m_pLZ_code_buf d + 1\<rparr>);
     Some (set_count 0 (count_up (unat lit) 1 (m_huff_count d ! 0)) d)
   }"

definition tdefl_record_match :: "nat \<Rightarrow> nat \<Rightarrow> tdefl_compressor \<Rightarrow> tdefl_compressor option" where
  "tdefl_record_match match_len match_dist d =
     (if \<not> (TDEFL_MIN_MATCH_LEN \<le> match_len \<and> 1 \<le> match_dist \<and> match_dist \<le> TDEFL_LZ_DICT_SIZE) then None
      else do {
        let d = d\<lparr>m_total_lz_bytes := m_total_lz_bytes d + match_len\<rparr>;
        let dist = match_dist - 1;
        d \<leftarrow> lz_store (m_pLZ_code_buf d)
              [of_nat (match_len - TDEFL_MIN_MATCH_LEN), of_nat (dist AND 0xFF), of_nat (drop_bit 8 dist)] d;
        d \<leftarrow> lz_flag 0x80 (d\<lparr>m_pLZ_code_buf := m_pLZ_code_buf d + 3\<rparr>);
        let s0 = s_tdefl_small_dist_sym ! (dist AND 511);
        let s1 = s_tdefl_large_dist_sym ! (drop_bit 8 dist AND 127);
        let d = set_count 1 (count_up (if dist < 512 then s0 else s1) 1 (m_huff_count d ! 1)) d;
        Some (set_count 0 (count_up (s_tdefl_len_sym ! (match_len - TDEFL_MIN_MATCH_LEN)) 1 (m_huff_count d ! 0)) d)
      })"

section \<open>The parser\<close>

text \<open>A byte goes into the dictionary, whose beginning is repeated behind its end.\<close>

definition dict_store :: "nat \<Rightarrow> byte \<Rightarrow> tdefl_compressor \<Rightarrow> tdefl_compressor" where
  "dict_store dst_pos c d =
     d\<lparr>m_dict := (let dict = (m_dict d)[dst_pos := c] in
         if dst_pos < TDEFL_MAX_MATCH_LEN - 1 then dict[TDEFL_LZ_DICT_SIZE + dst_pos := c] else dict)\<rparr>"

definition hash_insert :: "nat \<Rightarrow> nat \<Rightarrow> tdefl_compressor \<Rightarrow> tdefl_compressor" where
  "hash_insert hash ins_pos d =
     d\<lparr>m_next := (m_next d)[ins_pos AND TDEFL_LZ_DICT_SIZE_MASK := m_hash d ! hash],
       m_hash := (m_hash d)[hash := ins_pos mod 65536]\<rparr>"

fun insert_bytes :: "byte list \<Rightarrow> nat \<Rightarrow> nat \<Rightarrow> nat \<Rightarrow> tdefl_compressor \<Rightarrow> tdefl_compressor" where
  "insert_bytes [] dst_pos ins_pos hash d = d"
| "insert_bytes (c # cs) dst_pos ins_pos hash d =
     (let hash = (push_bit TDEFL_LZ_HASH_SHIFT hash XOR unat c) AND (TDEFL_LZ_HASH_SIZE - 1)
      in insert_bytes cs (dst_pos + 1 AND TDEFL_LZ_DICT_SIZE_MASK) (ins_pos + 1) hash
           (hash_insert hash ins_pos (dict_store dst_pos c d)))"

fun insert_first_bytes :: "byte list \<Rightarrow> tdefl_compressor \<Rightarrow> tdefl_compressor" where
  "insert_first_bytes [] d = d\<lparr>m_pSrc := []\<rparr>"
| "insert_first_bytes (c # cs) d =
     (if m_lookahead_size d < TDEFL_MAX_MATCH_LEN then
        let d = dict_store (m_lookahead_pos d + m_lookahead_size d AND TDEFL_LZ_DICT_SIZE_MASK) c d;
            d = d\<lparr>m_lookahead_size := m_lookahead_size d + 1\<rparr>
        in insert_first_bytes cs
             (if TDEFL_MIN_MATCH_LEN \<le> m_lookahead_size d + m_dict_size d then
                let ins_pos = m_lookahead_pos d + (m_lookahead_size d - 1) - 2;
                    hash = ((push_bit (TDEFL_LZ_HASH_SHIFT * 2) (unat (m_dict d ! (ins_pos AND TDEFL_LZ_DICT_SIZE_MASK))) XOR
                             push_bit TDEFL_LZ_HASH_SHIFT (unat (m_dict d ! (ins_pos + 1 AND TDEFL_LZ_DICT_SIZE_MASK)))) XOR unat c)
                           AND (TDEFL_LZ_HASH_SIZE - 1)
                in hash_insert hash ins_pos d
              else d)
      else d\<lparr>m_pSrc := c # cs\<rparr>)"

definition fill_lookahead :: "tdefl_compressor \<Rightarrow> tdefl_compressor" where
  "fill_lookahead d =
     (let d = (if TDEFL_MIN_MATCH_LEN - 1 \<le> m_lookahead_size d + m_dict_size d then
        let dst_pos = m_lookahead_pos d + m_lookahead_size d AND TDEFL_LZ_DICT_SIZE_MASK;
            ins_pos = m_lookahead_pos d + m_lookahead_size d - 2;
            hash = push_bit TDEFL_LZ_HASH_SHIFT (unat (m_dict d ! (ins_pos AND TDEFL_LZ_DICT_SIZE_MASK))) XOR
                   unat (m_dict d ! (ins_pos + 1 AND TDEFL_LZ_DICT_SIZE_MASK));
            num_bytes_to_process = min (length (m_pSrc d)) (TDEFL_MAX_MATCH_LEN - m_lookahead_size d)
        in insert_bytes (take num_bytes_to_process (m_pSrc d)) dst_pos ins_pos hash
             (d\<lparr>m_lookahead_size := m_lookahead_size d + num_bytes_to_process, m_pSrc := drop num_bytes_to_process (m_pSrc d)\<rparr>)
      else insert_first_bytes (m_pSrc d) d)
      in d\<lparr>m_dict_size := min (TDEFL_LZ_DICT_SIZE - m_lookahead_size d) (m_dict_size d)\<rparr>)"

fun run_length :: "nat \<Rightarrow> nat \<Rightarrow> byte \<Rightarrow> tdefl_compressor \<Rightarrow> nat" where
  "run_length 0 pos c d = 0"
| "run_length (Suc k) pos c d = (if m_dict d ! pos \<noteq> c then 0 else Suc (run_length k (pos + 1) c d))"

text \<open>The match at the current position: distance and length.\<close>

definition current_match :: "tdefl_compressor \<Rightarrow> (nat \<times> nat) option" where
  "current_match d = do {
     let cur_match_len = (if m_saved_match_len d \<noteq> 0 then m_saved_match_len d else TDEFL_MIN_MATCH_LEN - 1);
     let cur_pos = m_lookahead_pos d AND TDEFL_LZ_DICT_SIZE_MASK;
     (cur_match_dist, cur_match_len) \<leftarrow>
       (if tdefl_flag (TDEFL_RLE_MATCHES OR TDEFL_FORCE_ALL_RAW_BLOCKS) d then
          (if m_dict_size d \<noteq> 0 \<and> \<not> tdefl_flag TDEFL_FORCE_ALL_RAW_BLOCKS d then
             let c = m_dict d ! (cur_pos + TDEFL_LZ_DICT_SIZE - 1 AND TDEFL_LZ_DICT_SIZE_MASK);
                 len = run_length (m_lookahead_size d) cur_pos c d
             in Some (if len < TDEFL_MIN_MATCH_LEN then (0, 0) else (1, len))
           else Some (0, cur_match_len))
        else tdefl_find_match d (m_lookahead_pos d) (m_dict_size d) (m_lookahead_size d) 0 cur_match_len);
     Some (if cur_match_len = TDEFL_MIN_MATCH_LEN \<and> 8 * 1024 \<le> cur_match_dist \<or> cur_pos = cur_match_dist \<or>
              tdefl_flag TDEFL_FILTER_MATCHES d \<and> cur_match_len \<le> 5
           then (0, 0) else (cur_match_dist, cur_match_len))
   }"

text \<open>One step of the lazy or greedy parser; its first result is the number of bytes it moves on.\<close>

definition parse_step :: "tdefl_compressor \<Rightarrow> (nat \<times> tdefl_compressor) option" where
  "parse_step d = do {
     let cur_pos = m_lookahead_pos d AND TDEFL_LZ_DICT_SIZE_MASK;
     (cur_match_dist, cur_match_len) \<leftarrow> current_match d;
     if m_saved_match_len d \<noteq> 0 then
       (if m_saved_match_len d < cur_match_len then do {
          d \<leftarrow> tdefl_record_literal (m_saved_lit d) d;
          if 128 \<le> cur_match_len then do {
            d \<leftarrow> tdefl_record_match cur_match_len cur_match_dist d;
            Some (cur_match_len, d\<lparr>m_saved_match_len := 0\<rparr>)
          }
          else Some (1, d\<lparr>m_saved_lit := m_dict d ! cur_pos, m_saved_match_dist := cur_match_dist, m_saved_match_len := cur_match_len\<rparr>)
        }
        else do {
          d \<leftarrow> tdefl_record_match (m_saved_match_len d) (m_saved_match_dist d) d;
          Some (m_saved_match_len d - 1, d\<lparr>m_saved_match_len := 0\<rparr>)
        })
     else if cur_match_dist = 0 then do {
       d \<leftarrow> tdefl_record_literal (m_dict d ! min cur_pos (length (m_dict d) - 1)) d;
       Some (1, d)
     }
     else if m_greedy_parsing d \<or> tdefl_flag TDEFL_RLE_MATCHES d \<or> 128 \<le> cur_match_len then do {
       d \<leftarrow> tdefl_record_match cur_match_len cur_match_dist d;
       Some (cur_match_len, d)
     }
     else Some (1, d\<lparr>m_saved_lit := m_dict d ! min cur_pos (length (m_dict d) - 1),
                     m_saved_match_dist := cur_match_dist, m_saved_match_len := cur_match_len\<rparr>)
   }"

definition move_lookahead :: "nat \<Rightarrow> tdefl_compressor \<Rightarrow> tdefl_compressor option" where
  "move_lookahead len_to_move d =
     (if m_lookahead_size d < len_to_move then None
      else Some (d\<lparr>m_lookahead_pos := m_lookahead_pos d + len_to_move, m_lookahead_size := m_lookahead_size d - len_to_move,
                   m_dict_size := min (m_dict_size d + len_to_move) TDEFL_LZ_DICT_SIZE\<rparr>))"

definition time_to_flush :: "tdefl_compressor \<Rightarrow> bool" where
  "time_to_flush d \<longleftrightarrow> TDEFL_LZ_CODE_BUF_SIZE - 8 < m_pLZ_code_buf d \<or>
     31 * 1024 < m_total_lz_bytes d \<and>
       (m_total_lz_bytes d \<le> drop_bit 7 (m_pLZ_code_buf d * 115) \<or> tdefl_flag TDEFL_FORCE_ALL_RAW_BLOCKS d)"

text \<open>The loop; a step that did not move on would repeat for ever. The result is never false here, since
  only a \<open>m_pPut_buf_func\<close> can fail.\<close>

function tdefl_compress_normal :: "tdefl_compressor \<Rightarrow> tdefl_compressor option" where
  "tdefl_compress_normal d =
     (if m_pSrc d \<noteq> [] \<or> m_flush d \<noteq> 0 \<and> m_lookahead_size d \<noteq> 0 then
        let d1 = fill_lookahead d in
        if m_flush d1 = 0 \<and> m_lookahead_size d1 < TDEFL_MAX_MATCH_LEN then Some d1
        else case parse_step d1 \<bind> (\<lambda>(len_to_move, d). move_lookahead len_to_move d) of
          None \<Rightarrow> None
        | Some d2 \<Rightarrow>
            if length (m_pSrc d) + m_lookahead_size d \<le> length (m_pSrc d2) + m_lookahead_size d2 then None
            else if time_to_flush d2 then
              (case tdefl_flush_block 0 d2 of
                 None \<Rightarrow> None
               | Some (n, d3) \<Rightarrow>
                   if n \<noteq> 0 then Some d3
                   else if length (m_pSrc d) + m_lookahead_size d \<le> length (m_pSrc d3) + m_lookahead_size d3 then None
                   else tdefl_compress_normal d3)
            else tdefl_compress_normal d2
      else Some d)"
  by pat_completeness auto
termination by (relation "measure (\<lambda>d. length (m_pSrc d) + m_lookahead_size d)") auto

declare tdefl_compress_normal.simps [simp del]

section \<open>The interface\<close>

definition tdefl_flush_output_buffer :: "tdefl_compressor \<Rightarrow> int \<times> tdefl_compressor" where
  "tdefl_flush_output_buffer d =
     (let n = min (m_pOut_buf_size d - length (m_pOut_buf d)) (m_output_flush_remaining d);
          d = d\<lparr>m_pOut_buf := m_pOut_buf d @ take n (drop (m_output_flush_ofs d) (m_output_buf d)),
                m_output_flush_ofs := m_output_flush_ofs d + n,
                m_output_flush_remaining := m_output_flush_remaining d - n\<rparr>
      in (if m_finished d \<and> m_output_flush_remaining d = 0 then TDEFL_STATUS_DONE else TDEFL_STATUS_OKAY, d))"

definition set_status :: "int \<times> tdefl_compressor \<Rightarrow> int \<times> tdefl_compressor" where
  "set_status = (\<lambda>(st, d). (st, d\<lparr>m_prev_return_status := st\<rparr>))"

text \<open>A call on the whole input \<open>pIn_buf\<close> and an output buffer of \<open>out_size\<close> bytes: the status, the number of
  bytes taken and the bytes written.\<close>

definition tdefl_compress :: "tdefl_compressor \<Rightarrow> byte list \<Rightarrow> nat \<Rightarrow> nat \<Rightarrow> (int \<times> nat \<times> byte list \<times> tdefl_compressor) option" where
  "tdefl_compress d pIn_buf out_size flush =
     (let d = d\<lparr>m_pOut_buf := [], m_pOut_buf_size := out_size, m_pSrc := pIn_buf, m_flush := flush\<rparr>;
          finish = (\<lambda>d. let (st, d) = set_status (tdefl_flush_output_buffer d)
                        in Some (st, length pIn_buf - length (m_pSrc d), m_pOut_buf d, d))
      in if m_prev_return_status d \<noteq> TDEFL_STATUS_OKAY \<or> m_wants_to_finish d \<and> flush \<noteq> TDEFL_FINISH
         then Some (TDEFL_STATUS_BAD_PARAM, 0, [], d\<lparr>m_prev_return_status := TDEFL_STATUS_BAD_PARAM\<rparr>)
         else
           let d = d\<lparr>m_wants_to_finish := m_wants_to_finish d \<or> flush = TDEFL_FINISH\<rparr> in
           if m_output_flush_remaining d \<noteq> 0 \<or> m_finished d then finish d
           else if m_flags d AND TDEFL_MAX_PROBES_MASK = 1 \<and> tdefl_flag TDEFL_GREEDY_PARSING_FLAG d \<and>
             \<not> tdefl_flag (TDEFL_FILTER_MATCHES OR TDEFL_FORCE_ALL_RAW_BLOCKS OR TDEFL_RLE_MATCHES) d then None
           else do {
             d \<leftarrow> tdefl_compress_normal d;
             let d = (if tdefl_flag (TDEFL_WRITE_ZLIB_HEADER OR TDEFL_COMPUTE_ADLER32) d
                      then d\<lparr>m_adler32 := ucast (mz_adler32 (ucast (m_adler32 d))
                               (Some (take (length pIn_buf - length (m_pSrc d)) pIn_buf)))\<rparr> else d);
             if flush \<noteq> 0 \<and> m_lookahead_size d = 0 \<and> m_pSrc d = [] \<and> m_output_flush_remaining d = 0 then do {
               (n, d) \<leftarrow> tdefl_flush_block flush d;
               let d = d\<lparr>m_finished := (flush = TDEFL_FINISH)\<rparr>;
               let d = (if flush = TDEFL_FULL_FLUSH
                        then d\<lparr>m_hash := replicate TDEFL_LZ_HASH_SIZE 0, m_next := replicate TDEFL_LZ_DICT_SIZE 0, m_dict_size := 0\<rparr>
                        else d);
               finish d
             }
             else finish d
           })"

text \<open>The state that \<open>tdefl_init\<close> prepares in memory that holds \<open>d\<close>.\<close>

definition tdefl_init :: "u32 \<Rightarrow> tdefl_compressor \<Rightarrow> tdefl_compressor" where
  "tdefl_init flags d =
     d\<lparr>m_flags := flags,
       m_max_probes := [1 + (unat (flags AND 0xFFF) + 2) div 3, 1 + (drop_bit 2 (unat (flags AND 0xFFF)) + 2) div 3],
       m_greedy_parsing := flags AND TDEFL_GREEDY_PARSING_FLAG \<noteq> 0,
       m_hash := (if flags AND TDEFL_NONDETERMINISTIC_PARSING_FLAG = 0 then replicate TDEFL_LZ_HASH_SIZE 0 else m_hash d),
       m_lookahead_pos := 0, m_lookahead_size := 0, m_dict_size := 0, m_total_lz_bytes := 0, m_lz_code_buf_dict_pos := 0, m_bits_in := 0,
       m_output_flush_ofs := 0, m_output_flush_remaining := 0, m_finished := False, m_block_index := 0, m_bit_buffer := 0,
       m_wants_to_finish := False, m_pLZ_code_buf := 1, m_pLZ_flags := 0, m_num_flags_left := 8, m_pOutput_buf := [],
       m_prev_return_status := TDEFL_STATUS_OKAY, m_saved_match_dist := 0, m_saved_match_len := 0, m_saved_lit := 0,
       m_adler32 := 1, m_pOut_buf := [], m_pOut_buf_size := 0, m_flush := TDEFL_NO_FLUSH, m_pSrc := [],
       m_dict := (if flags AND TDEFL_NONDETERMINISTIC_PARSING_FLAG = 0
                  then replicate (TDEFL_LZ_DICT_SIZE + TDEFL_MAX_MATCH_LEN - 1) 0 else m_dict d),
       m_huff_count := (m_huff_count d)
         [0 := replicate TDEFL_MAX_HUFF_SYMBOLS_0 0 @ drop TDEFL_MAX_HUFF_SYMBOLS_0 (m_huff_count d ! 0),
          1 := replicate TDEFL_MAX_HUFF_SYMBOLS_1 0 @ drop TDEFL_MAX_HUFF_SYMBOLS_1 (m_huff_count d ! 1)]\<rparr>"

end
