(* ===== verification/Huffman_Sort.thy ===== *)
theory Huffman_Sort
  imports Tdefl_Huffman "HOL-Library.Multiset"
begin

text \<open>
  The radix sort of the compressor: one pass distributes the symbols over their byte, in order, and
  the passes together sort them by their 16-bit counts.
\<close>

section \<open>One pass\<close>

definition buckets :: "('a \<Rightarrow> nat) \<Rightarrow> nat \<Rightarrow> 'a list \<Rightarrow> 'a list" where
  "buckets f k xs = concat (map (\<lambda>b. filter (\<lambda>x. f x = b) xs) [0..<k])"

lemma buckets_Suc: "buckets f (Suc k) xs = buckets f k xs @ filter (\<lambda>x. f x = k) xs"
  by (simp add: buckets_def)

lemma mset_buckets: "mset (buckets f k xs) = filter_mset (\<lambda>x. f x < k) (mset xs)"
proof (induction k)
  case (Suc k)
  have "filter_mset (\<lambda>x. f x < Suc k) (mset xs) = filter_mset (\<lambda>x. f x < k) (mset xs) + filter_mset (\<lambda>x. f x = k) (mset xs)"
    by (induction xs) (auto simp: less_Suc_eq)
  then show ?case using Suc by (simp add: buckets_Suc)
qed (simp add: buckets_def)

lemma mset_buckets_all: "\<forall>x \<in> set xs. f x < k \<Longrightarrow> mset (buckets f k xs) = mset xs"
  by (simp add: mset_buckets filter_mset_eq_conv)

lemma length_buckets: "length (buckets f k xs) = length (filter (\<lambda>x. f x < k) xs)"
  using arg_cong [OF mset_buckets [of f k xs], of size] by (simp flip: mset_filter)

lemma length_buckets_le: "b \<le> k \<Longrightarrow> length (buckets f b xs) \<le> length (buckets f k xs)"
  by (induction k) (auto simp: buckets_Suc le_Suc_eq)

lemma length_buckets_all: "\<forall>x \<in> set xs. f x < k \<Longrightarrow> length (buckets f k xs) = length xs"
  by (simp add: length_buckets)

text \<open>The offsets of a pass: where each bucket begins.\<close>

lemma radix_offsets_nth:
  assumes "\<forall>b < 256. pHist ! b = length (filter (\<lambda>x. f x = b) xs)"
  shows "length (radix_offsets pHist) = 256 \<and> (\<forall>b < 256. radix_offsets pHist ! b = length (buckets f b xs))"
proof -
  let ?g = "\<lambda>i (offsets, cur_ofs). (offsets[i := cur_ofs], cur_ofs + pHist ! i)"
  have "\<exists>offs. fold ?g [0..<k] (replicate 256 0, 0) = (offs, length (buckets f k xs)) \<and> length offs = 256 \<and>
      (\<forall>b < k. offs ! b = length (buckets f b xs))" if "k \<le> 256" for k
    using that
  proof (induction k)
    case 0
    then show ?case by (simp add: buckets_def)
  next
    case (Suc k)
    then obtain offs where "fold ?g [0..<k] (replicate 256 0, 0) = (offs, length (buckets f k xs))" "length offs = 256"
      "\<forall>b < k. offs ! b = length (buckets f b xs)" by auto
    then show ?case using Suc.prems assms by (auto simp: buckets_Suc nth_list_update less_Suc_eq)
  qed
  from this [of 256] show ?thesis by (auto simp: radix_offsets_def)
qed

text \<open>Part of the input distributed: every bucket holds those of its members that have come, in order.\<close>

definition distributed :: "('a \<Rightarrow> nat) \<Rightarrow> 'a list \<Rightarrow> 'a list \<Rightarrow> nat list \<Rightarrow> 'a list \<Rightarrow> bool" where
  "distributed f xs ys offs new \<longleftrightarrow> length offs = 256 \<and> length xs \<le> length new \<and>
     (\<forall>b < 256. offs ! b = length (buckets f b xs) + length (filter (\<lambda>x. f x = b) ys) \<and>
        (\<forall>k < length (filter (\<lambda>x. f x = b) ys). new ! (length (buckets f b xs) + k) = filter (\<lambda>x. f x = b) ys ! k))"

lemma bucket_inside:
  assumes "b < 256" and "j < length (filter (\<lambda>x. f x = b) xs)" and "\<forall>x \<in> set xs. f x < 256"
  shows "length (buckets f b xs) + j < length (buckets f (Suc b) xs)" and "length (buckets f b xs) + j < length xs"
proof -
  show "length (buckets f b xs) + j < length (buckets f (Suc b) xs)" using assms(2) by (simp add: buckets_Suc)
  also have "\<dots> \<le> length (buckets f 256 xs)" using assms(1) by (intro length_buckets_le) simp
  finally show "length (buckets f b xs) + j < length xs" using length_buckets_all [OF assms(3)] by simp
qed

lemma distributed_step:
  assumes d: "distributed f xs ys offs new" and xs: "xs = ys @ s # zs" and f: "\<forall>x \<in> set xs. f x < 256"
  shows "distributed f xs (ys @ [s]) (offs[f s := offs ! f s + 1]) (new[offs ! f s := s])"
    and "f s < length offs" and "offs ! f s < length new"
proof -
  let ?S = "\<lambda>b. length (buckets f b xs)" and ?F = "\<lambda>b zs. filter (\<lambda>x. f x = b) zs"
  have fs: "f s < 256" using f xs by simp
  have o: "offs ! f s = ?S (f s) + length (?F (f s) ys)" using d fs by (simp add: distributed_def)
  have lt: "length (?F b ys) \<le> length (?F b xs)" for b by (simp add: xs)
  have "length (?F (f s) ys) < length (?F (f s) xs)" by (simp add: xs)
  note in_s = bucket_inside [OF fs this f]
  show "f s < length offs" "offs ! f s < length new" using d fs in_s o by (simp_all add: distributed_def)
  have "new[offs ! f s := s] ! (?S b + k) = ?F b (ys @ [s]) ! k"
    if b: "b < 256" and k: "k < length (?F b (ys @ [s]))" for b k
  proof (cases "b = f s \<and> k = length (?F b ys)")
    case True
    have "offs ! f s < length new" using in_s o d by (simp add: distributed_def)
    then show ?thesis using True o by (simp add: nth_append)
  next
    case False
    then have k': "k < length (?F b ys)" using k by (auto simp: less_Suc_eq split: if_splits)
    then have old: "new ! (?S b + k) = ?F b ys ! k" using d b by (simp add: distributed_def)
    have "?S b + k \<noteq> offs ! f s"
    proof (cases b "f s" rule: linorder_cases)
      case less
      have "?S b + k < ?S (Suc b)" using bucket_inside(1) [OF b _ f] k' lt less_le_trans by blast
      also have "\<dots> \<le> ?S (f s)" using less by (intro length_buckets_le) simp
      finally show ?thesis using o by simp
    next
      case greater
      have "offs ! f s < ?S (Suc (f s))" using in_s(1) o by simp
      also have "\<dots> \<le> ?S b" using greater by (intro length_buckets_le) simp
      finally show ?thesis by simp
    qed (use k' o in simp)
    then show ?thesis using old k' by (simp add: nth_append)
  qed
  then show "distributed f xs (ys @ [s]) (offs[f s := offs ! f s + 1]) (new[offs ! f s := s])"
    using d fs o by (auto simp: distributed_def nth_list_update)
qed

lemma fold_distributes:
  assumes "\<And>s offs new. f s < length offs \<Longrightarrow> offs ! f s < length new \<Longrightarrow>
      g s (offs, new) = Some (offs[f s := offs ! f s + 1], new[offs ! f s := s])"
    and "distributed f xs ys offs new" and "xs = ys @ zs" and "\<forall>x \<in> set xs. f x < 256"
  shows "\<exists>offs' new'. for_each g zs (offs, new) = Some (offs', new') \<and> distributed f xs xs offs' new' \<and> length new' = length new"
  using assms(2,3)
proof (induction zs arbitrary: ys offs new)
  case (Cons s zs)
  have "distributed f xs (ys @ [s]) (offs[f s := offs ! f s + 1]) (new[offs ! f s := s])"
    using distributed_step(1) [OF Cons.prems assms(4)] .
  from Cons.IH [OF this] Cons.prems(2) show ?case
    using distributed_step(2,3) [OF Cons.prems assms(4)] by (simp add: assms(1))
qed auto

lemma distributed_all:
  assumes "distributed f xs xs offs new" and "\<forall>x \<in> set xs. f x < 256"
  shows "take (length xs) new = buckets f 256 xs"
proof -
  have "take (length (buckets f k xs)) new = buckets f k xs" if "k \<le> 256" for k
    using that
  proof (induction k)
    case (Suc k)
    let ?F = "filter (\<lambda>x. f x = k) xs"
    have "take (length (buckets f (Suc k) xs)) new = take (length (buckets f k xs)) new @ take (length ?F) (drop (length (buckets f k xs)) new)"
      by (simp add: buckets_Suc take_add)
    moreover have "length (buckets f (Suc k) xs) \<le> length new"
      using length_buckets_le [of "Suc k" 256 f xs] length_buckets_all [OF assms(2)] Suc.prems assms(1) by (simp add: distributed_def)
    then have "take (length ?F) (drop (length (buckets f k xs)) new) = ?F"
      using assms(1) Suc.prems by (intro nth_equalityI) (auto simp: distributed_def buckets_Suc)
    ultimately show ?case using Suc by (simp add: buckets_Suc)
  qed (simp add: buckets_def)
  from this [of 256] show ?thesis using length_buckets_all [OF assms(2)] by simp
qed

definition key_byte :: "nat \<Rightarrow> tdefl_sym_freq \<Rightarrow> nat" where
  "key_byte shift s = drop_bit shift (m_key s) AND 0xFF"

lemma key_byte_less: "key_byte shift s < 256"
  unfolding key_byte_def using take_bit_eq_mask [of 8 "drop_bit shift (m_key s)"] take_bit_nat_less_exp [of 8 "drop_bit shift (m_key s)"]
  by (simp add: mask_eq_exp_minus_1)

lemma key_byte_mod: "key_byte 0 s = m_key s mod 256" "key_byte 8 s = m_key s div 256 mod 256"
  using take_bit_eq_mask [of 8 "m_key s"] take_bit_eq_mask [of 8 "drop_bit 8 (m_key s)"]
  by (simp_all add: key_byte_def mask_eq_exp_minus_1 take_bit_eq_mod drop_bit_eq_div)

lemma radix_pass_buckets:
  assumes "n \<le> length cur" and "n \<le> length new" and "\<forall>b < 256. pHist ! b = length (filter (\<lambda>x. key_byte shift x = b) (take n cur))"
  shows "\<exists>sorted. radix_pass n shift pHist (cur, new) = Some (sorted, cur) \<and> length sorted = length new \<and>
    take n sorted = buckets (key_byte shift) 256 (take n cur)"
proof -
  let ?xs = "take n cur" and ?f = "key_byte shift"
  have l: "length ?xs = n" using assms(1) by simp
  have f: "\<forall>x \<in> set ?xs. ?f x < 256" by (simp add: key_byte_less)
  have "distributed ?f ?xs [] (radix_offsets pHist) new"
    using radix_offsets_nth [OF assms(3)] assms(2) l by (simp add: distributed_def)
  moreover have "radix_move shift s (offs, new) = Some (offs[?f s := offs ! ?f s + 1], new[offs ! ?f s := s])"
    if "?f s < length offs" "offs ! ?f s < length new" for s offs new
    using that by (simp add: radix_move_def key_byte_def Let_def key_at_def set_key_def)
  ultimately obtain offs' new' where "for_each (radix_move shift) ?xs (radix_offsets pHist, new) = Some (offs', new')"
      "distributed ?f ?xs ?xs offs' new'" "length new' = length new"
    using fold_distributes [of ?f "radix_move shift" ?xs "[]" _ _ ?xs] f by force
  then show ?thesis
    using distributed_all [of ?f ?xs offs' new'] f l assms(1) by (simp add: radix_pass_def)
qed

lemma radix_hist_nth:
  "length (radix_hist xs) = 512 \<and> (\<forall>b < 256. radix_hist xs ! b = length (filter (\<lambda>x. key_byte 0 x = b) xs) \<and>
     radix_hist xs ! (256 + b) = length (filter (\<lambda>x. key_byte 8 x = b) xs))"
proof -
  let ?g = "\<lambda>s hist. let freq = m_key s; lo = freq AND 0xFF; hi = 256 + (drop_bit 8 freq AND 0xFF);
      hist = hist[lo := hist ! lo + 1] in hist[hi := hist ! hi + 1]"
  have g: "?g s h = (h[key_byte 0 s := h ! key_byte 0 s + 1])[256 + key_byte 8 s := h[key_byte 0 s := h ! key_byte 0 s + 1] ! (256 + key_byte 8 s) + 1]"
    for s h by (simp add: key_byte_def Let_def)
  have "length (fold ?g xs h) = 512 \<and> (\<forall>b < 256. fold ?g xs h ! b = h ! b + length (filter (\<lambda>x. key_byte 0 x = b) xs) \<and>
      fold ?g xs h ! (256 + b) = h ! (256 + b) + length (filter (\<lambda>x. key_byte 8 x = b) xs))" if "length h = 512" for h :: "nat list"
    using that
  proof (induction xs arbitrary: h)
    case (Cons s xs)
    have "length (?g s h) = 512" using Cons.prems by (simp add: Let_def)
    moreover have "?g s h ! b = h ! b + of_bool (key_byte 0 s = b)" "?g s h ! (256 + b) = h ! (256 + b) + of_bool (key_byte 8 s = b)"
      if "b < 256" for b
      unfolding g using that Cons.prems key_byte_less [of 0 s] key_byte_less [of 8 s] by (auto simp: nth_list_update)
    ultimately show ?case using Cons.IH [of "?g s h"] by (simp only: fold.simps o_apply filter.simps) auto
  qed simp
  from this [of "replicate 512 0"] show ?thesis by (simp add: radix_hist_def)
qed

section \<open>Both passes\<close>

lemma sorted_buckets:
  assumes "sorted_wrt (\<lambda>x y. g x \<le> g y) xs"
  shows "sorted_wrt (\<lambda>x y. f x < f y \<or> f x = f y \<and> g x \<le> (g y :: nat)) (buckets f k xs)"
proof (induction k)
  case (Suc k)
  have "sorted_wrt (\<lambda>x y. g x \<le> g y) (filter (\<lambda>x. f x = k) xs)" by (rule sorted_wrt_filter [OF assms])
  then have "sorted_wrt (\<lambda>x y. f x < f y \<or> f x = f y \<and> g x \<le> g y) (filter (\<lambda>x. f x = k) xs)"
    by (rule sorted_wrt_mono_rel [rotated]) auto
  moreover have "f x < k" if "x \<in> set (buckets f k xs)" for x using that by (auto simp: buckets_def)
  ultimately show ?case using Suc by (auto simp: buckets_Suc sorted_wrt_append)
qed (simp add: buckets_def)

lemma length_filter_mset: "mset xs = mset ys \<Longrightarrow> length (filter P xs) = length (filter P ys)"
  by (metis mset_filter size_mset)

lemma radix_sort_sorts:
  assumes "n \<le> length s0" and "n \<le> length s1" and "\<forall>s \<in> set (take n s0). m_key s < 65536"
  shows "\<exists>r. tdefl_radix_sort_syms n s0 s1 = Some r \<and> n \<le> length r \<and> mset (take n r) = mset (take n s0) \<and>
    sorted (map m_key (take n r))"
proof -
  let ?xs = "take n s0" and ?lo = "key_byte 0" and ?hi = "key_byte 8"
  note h = radix_hist_nth [of ?xs]
  have lo: "\<forall>b < 256. take 256 (radix_hist ?xs) ! b = length (filter (\<lambda>x. ?lo x = b) ?xs)" using h by simp
  obtain p where p: "take n p = buckets ?lo 256 ?xs" "length p = length s1"
      "radix_pass n 0 (take 256 (radix_hist ?xs)) (s0, s1) = Some (p, s0)"
    using radix_pass_buckets [OF assms(1,2) lo] by blast
  let ?ys = "take n p"
  have ys: "mset ?ys = mset ?xs" unfolding p(1) by (rule mset_buckets_all) (simp add: key_byte_less)
  have sw: "sorted_wrt (\<lambda>x y. ?lo x \<le> ?lo y) ?ys"
    unfolding p(1) using sorted_buckets [of "\<lambda>_. 0" ?xs ?lo 256] by (auto elim: sorted_wrt_mono_rel [rotated])
  have key: "m_key s = 256 * ?hi s + ?lo s" if "s \<in> set ?ys" for s
  proof -
    have "s \<in> set ?xs" using that ys by (metis set_mset_mset)
    then have "m_key s < 65536" using assms(3) by simp
    then have "m_key s div 256 mod 256 = m_key s div 256" by simp
    then show ?thesis by (simp add: key_byte_mod)
  qed
  show ?thesis
  proof (cases "n = radix_hist ?xs ! 256")
    case True
    then have r: "tdefl_radix_sort_syms n s0 s1 = Some p" using assms(1) p(3) by (simp add: tdefl_radix_sort_syms_def Let_def)
    have "radix_hist ?xs ! (256 + 0) = length (filter (\<lambda>x. ?hi x = 0) ?xs)"
      using conjunct2 [OF h, THEN spec, of 0] by simp
    then have "length (filter (\<lambda>x. ?hi x = 0) ?xs) = length ?xs" using True assms(1) by simp
    then have "filter (\<lambda>x. ?hi x = 0) ?xs = ?xs" by (metis length_filter_less filter_True less_irrefl)
    then have "\<forall>x \<in> set ?xs. ?hi x = 0" by (simp only: filter_id_conv)
    then have "\<forall>x \<in> set ?ys. m_key x = ?lo x" using key ys mset_eq_setD [OF ys] by simp
    then have "sorted (map m_key ?ys)" using sw by (auto simp: sorted_map intro: sorted_wrt_mono_rel)
    then show ?thesis unfolding r using ys p(2) assms(2) by simp
  next
    case False
    have hi: "\<forall>b < 256. drop 256 (radix_hist ?xs) ! b = length (filter (\<lambda>x. ?hi x = b) ?ys)"
      using h length_filter_mset [OF ys] by simp
    have "n \<le> length p" using p(2) assms(2) by simp
    then obtain q where q: "take n q = buckets ?hi 256 ?ys" "length q = length s0"
        "radix_pass n 8 (drop 256 (radix_hist ?xs)) (p, s0) = Some (q, p)"
      using radix_pass_buckets [OF _ assms(1) hi] by blast
    have r: "tdefl_radix_sort_syms n s0 s1 = Some q"
      using False assms(1) p(3) q(3) by (simp add: tdefl_radix_sort_syms_def Let_def)
    have m: "mset (take n q) = mset ?xs" unfolding q(1) using mset_buckets_all [of ?ys ?hi 256] ys by (simp add: key_byte_less)
    have "sorted_wrt (\<lambda>x y. ?hi x < ?hi y \<or> ?hi x = ?hi y \<and> ?lo x \<le> ?lo y) (take n q)"
      unfolding q(1) by (rule sorted_buckets [OF sw])
    then have "sorted_wrt (\<lambda>x y. m_key x \<le> m_key y) (take n q)"
    proof (rule sorted_wrt_mono_rel [rotated])
      fix x y assume "x \<in> set (take n q)" "y \<in> set (take n q)" and o: "?hi x < ?hi y \<or> ?hi x = ?hi y \<and> ?lo x \<le> ?lo y"
      then have "x \<in> set ?ys" "y \<in> set ?ys" using m ys by (metis set_mset_mset)+
      then show "m_key x \<le> m_key y" using key o key_byte_less [of 0 x] by fastforce
    qed
    then show ?thesis using m q(2) assms(1) r by (simp add: sorted_map)
  qed
qed

end
