(* ===== verification/Huffman_Lengths.thy ===== *)
theory Huffman_Lengths
  imports Tdefl_Huffman "HOL-Library.Multiset"
begin

text \<open>
  The code lengths that the in-place algorithm of the compressor finds. The array is read as parts:
  parents of the inner nodes that have one, weights of those that have none yet, a gap, leaves. The
  lengths fill the code exactly, and none is longer than the weights allow (the Fibonacci bound).
\<close>

section \<open>One step on the array\<close>

text \<open>A step that takes two of the lightest nodes stays in the array, so that it is the plain function
  on the array that the rest of this theory reads.\<close>

definition pair_up :: "nat \<Rightarrow> nat \<Rightarrow> nat list \<times> nat \<times> nat \<Rightarrow> nat list \<times> nat \<times> nat" where
  "pair_up n next = (\<lambda>(A, root, leaf).
     let (A, root, leaf) =
       (if n \<le> leaf \<or> A ! root < A ! leaf then (A[next := A ! root, root := next], root + 1, leaf)
        else (A[next := A ! leaf], root, leaf + 1))
     in if n \<le> leaf \<or> (root < next \<and> A ! root < A ! leaf)
        then (A[next := (A ! next + A ! root) mod 65536, root := next], root + 1, leaf)
        else (A[next := (A ! next + A ! leaf) mod 65536], root, leaf + 1))"

lemma mr_pair_eq:
  assumes "root < next" and "next < n" and "n \<le> length A"
  shows "mr_pair n next (A, root, leaf) = Some (pair_up n next (A, root, leaf))"
proof -
  have r: "root < length A" "next < length A" "Suc root < length A" using assms by simp_all
  have l: "leaf < length A" if "\<not> n \<le> leaf" for leaf using that assms(3) by simp
  show ?thesis
  proof (cases "n \<le> leaf \<or> A ! root < A ! leaf")
    case True
    then show ?thesis using r l [of leaf] by (auto simp: mr_pair_def pair_up_def key_at_def set_key_def Let_def)
  next
    case False
    then show ?thesis using r assms(1) l [of leaf] l [of "Suc leaf"]
      by (auto simp: mr_pair_def pair_up_def key_at_def set_key_def Let_def)
  qed
qed

lemma mr_depth_steps:
  assumes "m \<le> length A" and "\<forall>i < m. A ! i < length A"
  shows "for_each mr_depth (rev [0..<m]) A = Some (fold (\<lambda>next A. A[next := (A ! (A ! next) + 1) mod 65536]) (rev [0..<m]) A)"
  using assms
proof (induction m arbitrary: A)
  case (Suc m)
  let ?B = "A[m := (A ! (A ! m) + 1) mod 65536]"
  have "mr_depth m A = Some ?B" using Suc.prems by (simp add: mr_depth_def key_at_def set_key_def)
  moreover have "for_each mr_depth (rev [0..<m]) ?B = Some (fold (\<lambda>next A. A[next := (A ! (A ! next) + 1) mod 65536]) (rev [0..<m]) ?B)"
    using Suc.prems by (intro Suc.IH) simp_all
  ultimately show ?case by simp
qed simp

section \<open>Merging the two lightest nodes\<close>

fun pick :: "nat \<Rightarrow> nat list \<times> nat list \<times> nat list \<Rightarrow> nat \<times> nat list \<times> nat list \<times> nat list" where
  "pick m (P, Q, L) =
     (if L = [] \<or> Q \<noteq> [] \<and> hd Q < hd L then (hd Q, P @ [m], tl Q, L) else (hd L, P, Q, tl L))"

definition merge_two :: "nat \<Rightarrow> nat list \<times> nat list \<times> nat list \<Rightarrow> nat list \<times> nat list \<times> nat list" where
  "merge_two m s = (let (u, s) = pick m s; (v, P, Q, L) = pick m s in (P, Q @ [(u + v) mod 65536], L))"

text \<open>The array of the algorithm, with \<open>Z\<close> behind its \<open>n\<close> entries.\<close>

definition holds_queues :: "nat \<Rightarrow> nat \<Rightarrow> nat list \<Rightarrow> nat list \<times> nat list \<times> nat list \<Rightarrow> nat list \<times> nat \<times> nat \<Rightarrow> bool" where
  "holds_queues n m Z = (\<lambda>(P, Q, L) (A, root, leaf). \<exists>J. A = P @ Q @ J @ L @ Z \<and> length (P @ Q @ J @ L) = n \<and>
     length (P @ Q) = m \<and> root = length P \<and> leaf = length (P @ Q @ J))"

lemma split_updates:
  "length P = k \<Longrightarrow> (P @ q # Q)[k := w] = P @ w # Q" "length P = k \<Longrightarrow> (P @ q # Q) ! k = q"
  by auto

lemma mr_pair_merges:
  assumes h: "holds_queues n m Z (P, Q, L) (A, root, leaf)" and Q: "Q \<noteq> []" and gap: "m < leaf" and two: "2 \<le> length Q + length L"
  shows "holds_queues n (Suc m) Z (merge_two m (P, Q, L)) (pair_up n m (A, root, leaf))"
proof -
  obtain J where J: "A = P @ Q @ J @ L @ Z" "length (P @ Q @ J @ L) = n" "length (P @ Q) = m" "root = length P" "leaf = length (P @ Q @ J)"
    using h by (auto simp: holds_queues_def)
  obtain a K where K: "J = a # K" using J(3,5) gap by (cases J) auto
  obtain q Q1 where Q1: "Q = q # Q1" using Q by (cases Q) auto
  have root: "A ! root = q" using J Q1 by simp
  have leaf: "L = l # L1 \<Longrightarrow> A ! leaf = l" for l L1 using split_updates(2) [of "P @ Q @ J" leaf l "L1 @ Z"] J by simp
  have nl: "n \<le> leaf \<longleftrightarrow> L = []" using J by auto
  show ?thesis
  proof (cases "L = [] \<or> q < hd L")
    case True
    let ?B = "A[m := q, root := m]"
    have B: "?B = (P @ [m]) @ Q1 @ q # K @ L @ Z"
      using split_updates(1) [of "P @ Q" m a "K @ L @ Z" q] split_updates(1) [of P root q "Q1 @ q # K @ L @ Z" m] J Q1 K by simp
    have c: "n \<le> leaf \<or> A ! root < A ! leaf" using True nl root leaf by (cases L) auto
    have leaf': "L = l # L1 \<Longrightarrow> ?B ! leaf = l" for l L1
      unfolding B using split_updates(2) [of "(P @ [m]) @ Q1 @ q # K" leaf l "L1 @ Z"] J Q1 K by simp
    have root': "Q1 = r # Q2 \<Longrightarrow> ?B ! Suc root = r" for r Q2
      unfolding B using split_updates(2) [of "P @ [m]" "Suc root" r "Q2 @ q # K @ L @ Z"] J by simp
    have rm: "Suc root < m \<longleftrightarrow> Q1 \<noteq> []" using J Q1 by (cases Q1) auto
    have mB: "?B ! m = q" unfolding B using split_updates(2) [of "(P @ [m]) @ Q1" m q "K @ L @ Z"] J Q1 by simp
    show ?thesis
    proof (cases "L = [] \<or> Q1 \<noteq> [] \<and> hd Q1 < hd L")
      case c2: True
      then obtain r Q2 where Q2: "Q1 = r # Q2" using two Q1 by (cases Q1) auto
      have "n \<le> leaf \<or> Suc root < m \<and> ?B ! Suc root < ?B ! leaf"
        using c2 nl rm root' [OF Q2] leaf' Q2 by (cases L) auto
      then have e: "pair_up n m (A, root, leaf) = (?B[m := (q + r) mod 65536, Suc root := m], Suc (Suc root), leaf)"
        using c root root' [OF Q2] mB by (simp add: pair_up_def Let_def)
      have "?B[m := (q + r) mod 65536, Suc root := m] = (P @ [m, m]) @ (Q2 @ [(q + r) mod 65536]) @ K @ L @ Z"
        unfolding B Q2
        using split_updates(1) [of "P @ m # r # Q2" m q "K @ L @ Z" "(q + r) mod 65536"]
          split_updates(1) [of "P @ [m]" "Suc root" r "Q2 @ (q + r) mod 65536 # K @ L @ Z" m] J Q1 Q2 by simp
      moreover have "merge_two m (P, Q, L) = (P @ [m, m], Q2 @ [(q + r) mod 65536], L)"
        using True c2 Q1 Q2 by (simp add: merge_two_def)
      ultimately show ?thesis using J Q1 Q2 K unfolding holds_queues_def e by (auto intro!: exI [of _ K])
    next
      case c2: False
      then obtain l L1 where L1: "L = l # L1" by (cases L) auto
      have "\<not> (n \<le> leaf \<or> Suc root < m \<and> ?B ! Suc root < ?B ! leaf)"
        using c2 nl rm root' leaf' L1 by (cases Q1) auto
      then have e: "pair_up n m (A, root, leaf) = (?B[m := (q + l) mod 65536], Suc root, Suc leaf)"
        using c root leaf' [OF L1] mB by (simp add: pair_up_def Let_def)
      have "?B[m := (q + l) mod 65536] = (P @ [m]) @ (Q1 @ [(q + l) mod 65536]) @ (K @ [l]) @ L1 @ Z"
        unfolding B L1 using split_updates(1) [of "P @ m # Q1" m q "K @ l # L1 @ Z" "(q + l) mod 65536"] J Q1 by simp
      moreover have "merge_two m (P, Q, L) = (P @ [m], Q1 @ [(q + l) mod 65536], L1)"
        using True c2 Q1 L1 by (auto simp: merge_two_def)
      ultimately show ?thesis using J Q1 K L1 unfolding holds_queues_def e by (auto intro!: exI [of _ "K @ [l]"])
    qed
  next
    case False
    then obtain l L1 where L1: "L = l # L1" "l \<le> q" by (cases L) auto
    let ?B = "A[m := l]"
    have B: "?B = P @ (q # Q1) @ l # (K @ [l]) @ L1 @ Z"
      using split_updates(1) [of "P @ Q" m a "K @ L @ Z" l] J Q1 K L1 by simp
    have c: "\<not> (n \<le> leaf \<or> A ! root < A ! leaf)" using False nl root leaf L1 by auto
    have nl': "n \<le> Suc leaf \<longleftrightarrow> L1 = []" using J L1 by (cases L1) auto
    have leaf': "L1 = l' # L2 \<Longrightarrow> ?B ! Suc leaf = l'" for l' L2
      unfolding B using split_updates(2) [of "P @ (q # Q1) @ l # K @ [l]" "Suc leaf" l' "L2 @ Z"] J Q1 K by simp
    have root': "?B ! root = q" unfolding B using J by simp
    have rm: "root < m" using J Q1 by simp
    have mB: "?B ! m = l" unfolding B using split_updates(2) [of "P @ q # Q1" m l "K @ l # L1 @ Z"] J Q1 by simp
    show ?thesis
    proof (cases "L1 = [] \<or> q < hd L1")
      case c2: True
      have "n \<le> Suc leaf \<or> root < m \<and> ?B ! root < ?B ! Suc leaf"
        using c2 nl' rm root' leaf' by (cases L1) auto
      then have e: "pair_up n m (A, root, leaf) = (?B[m := (l + q) mod 65536, root := m], Suc root, Suc leaf)"
        using c leaf [OF L1(1)] root' mB by (simp add: pair_up_def Let_def)
      have "?B[m := (l + q) mod 65536, root := m] = (P @ [m]) @ (Q1 @ [(l + q) mod 65536]) @ (K @ [l]) @ L1 @ Z"
        unfolding B using split_updates(1) [of "P @ q # Q1" m l "K @ l # L1 @ Z" "(l + q) mod 65536"]
          split_updates(1) [of P root q "Q1 @ (l + q) mod 65536 # K @ l # L1 @ Z" m] J Q1 by simp
      moreover have "merge_two m (P, Q, L) = (P @ [m], Q1 @ [(l + q) mod 65536], L1)"
        using False c2 Q1 L1 by (auto simp: merge_two_def)
      ultimately show ?thesis using J Q1 K L1 unfolding holds_queues_def e by (auto intro!: exI [of _ "K @ [l]"])
    next
      case c2: False
      then obtain l' L2 where L2: "L1 = l' # L2" by (cases L1) auto
      have "\<not> (n \<le> Suc leaf \<or> root < m \<and> ?B ! root < ?B ! Suc leaf)"
        using c2 nl' rm root' leaf' L2 by auto
      then have e: "pair_up n m (A, root, leaf) = (?B[m := (l + l') mod 65536], root, Suc (Suc leaf))"
        using c leaf [OF L1(1)] leaf' [OF L2] mB by (simp add: pair_up_def Let_def)
      have "?B[m := (l + l') mod 65536] = P @ ((q # Q1) @ [(l + l') mod 65536]) @ (K @ [l, l']) @ L2 @ Z"
        unfolding B L2 using split_updates(1) [of "P @ q # Q1" m l "K @ l # l' # L2 @ Z" "(l + l') mod 65536"] J Q1 by simp
      moreover have "merge_two m (P, Q, L) = (P, (q # Q1) @ [(l + l') mod 65536], L2)"
        using False c2 Q1 L1 L2 by (auto simp: merge_two_def)
      ultimately show ?thesis using J Q1 K L1 L2 unfolding holds_queues_def e by (auto intro!: exI [of _ "K @ [l, l']"])
    qed
  qed
qed

section \<open>Weights and heights\<close>

text \<open>\<open>fibo (h + 2)\<close> is the least weight of a node of height \<open>h\<close>.\<close>

fun fibo :: "nat \<Rightarrow> nat" where
  "fibo 0 = 0"
| "fibo (Suc 0) = 1"
| "fibo (Suc (Suc k)) = fibo (Suc k) + fibo k"

lemma fibo_mono: "i \<le> j \<Longrightarrow> fibo i \<le> fibo j"
proof (induction j)
  case (Suc j)
  have "fibo j \<le> fibo (Suc j)" by (cases j) simp_all
  then show ?case using Suc by (cases "i = Suc j") auto
qed simp

text \<open>The queues before node \<open>m\<close> is made: \<open>H\<close> are the heights of the nodes so far, \<open>T\<close> is the weight of all
  leaves.\<close>

definition available :: "nat list \<times> nat list \<times> nat list \<Rightarrow> nat set" where
  "available = (\<lambda>(P, Q, L). set Q \<union> set L)"

definition weights_ok :: "nat \<Rightarrow> nat \<Rightarrow> nat list \<Rightarrow> nat list \<times> nat list \<times> nat list \<Rightarrow> bool" where
  "weights_ok T m H = (\<lambda>(P, Q, L). sorted Q \<and> sorted L \<and> sum_list Q + sum_list L = T \<and> (\<forall>l \<in> set L. 1 \<le> l) \<and>
     length H = m \<and> length P + length Q = m \<and>
     (\<forall>i < length Q. fibo (H ! (length P + i) + 2) \<le> Q ! i) \<and>
     (\<forall>y \<in> set Q \<union> set L. \<forall>h \<in> set H. fibo (h + 1) \<le> y) \<and>
     (Q \<noteq> [] \<longrightarrow> (\<forall>y \<in> set Q \<union> set L. last Q \<le> 2 * y)))"

text \<open>The parents: each node lies below its own, in order, and none has more than two below it.\<close>

definition parents_ok :: "nat \<Rightarrow> nat list \<Rightarrow> nat list \<Rightarrow> bool" where
  "parents_ok m H P \<longleftrightarrow> sorted P \<and> (\<forall>i < length P. i < P ! i \<and> P ! i < m \<and> H ! i < H ! (P ! i)) \<and> (\<forall>v. count_list P v \<le> 2)"

definition picked_height :: "nat list \<Rightarrow> nat list \<times> nat list \<times> nat list \<Rightarrow> nat" where
  "picked_height H = (\<lambda>(P, Q, L). if L = [] \<or> Q \<noteq> [] \<and> hd Q < hd L then H ! length P else 0)"

lemma picked:
  assumes "pick m (P, Q, L) = (u, P', Q', L')" and "Q \<noteq> [] \<or> L \<noteq> []" and "sorted Q" and "sorted L"
  shows "(P' = P @ [m] \<and> Q = u # Q' \<and> L' = L \<and> picked_height H (P, Q, L) = H ! length P \<or>
      P' = P \<and> Q' = Q \<and> L = u # L' \<and> picked_height H (P, Q, L) = 0)"
    and "\<forall>y \<in> set Q \<union> set L. u \<le> y" and "sorted Q'" and "sorted L'"
  using assms by (cases Q; cases L; force simp: picked_height_def split: if_splits)+

lemma tail_heights:
  assumes "\<forall>i < length (q # Q). f (k + i) \<le> (q # Q) ! i"
  shows "\<forall>i < length Q. f (Suc k + i) \<le> Q ! i"
proof (intro allI impI)
  fix i assume "i < length Q"
  then have "f (k + Suc i) \<le> (q # Q) ! Suc i" using assms by (metis Suc_less_eq length_Cons)
  then show "f (Suc k + i) \<le> Q ! i" by simp
qed

text \<open>Two nodes are picked and their parent is made.\<close>

lemma merge_weights:
  assumes w: "weights_ok T m H (P, Q, L)" and T: "T < 65536" and Q: "Q \<noteq> []" and two: "2 \<le> length Q + length L"
    and u: "pick m (P, Q, L) = (u, P1, Q1, L1)" and v: "pick m (P1, Q1, L1) = (v, P2, Q2, L2)"
  shows "weights_ok T (Suc m) (H @ [1 + max (picked_height H (P, Q, L)) (picked_height H (P1, Q1, L1))]) (P2, Q2 @ [u + v], L2)"
    and "merge_two m (P, Q, L) = (P2, Q2 @ [u + v], L2)"
proof -
  have s: "sorted Q" "sorted L" and sum: "sum_list Q + sum_list L = T" and pos: "\<forall>l \<in> set L. 1 \<le> l" and lH: "length H = m"
    and lP: "length P + length Q = m" and f2: "\<forall>i < length Q. fibo (H ! (length P + i) + 2) \<le> Q ! i"
    and f1: "\<forall>y \<in> set Q \<union> set L. \<forall>h \<in> set H. fibo (h + 1) \<le> y" and last: "\<forall>y \<in> set Q \<union> set L. last Q \<le> 2 * y"
    using w Q by (simp_all add: weights_ok_def)
  let ?hu = "picked_height H (P, Q, L)" and ?hv = "picked_height H (P1, Q1, L1)"
  note pu1 = picked(1) [OF u disjI1 [OF Q] s, of H] and pu = picked(2-4) [OF u disjI1 [OF Q] s]
  have two': "Q1 \<noteq> [] \<or> L1 \<noteq> []" using pu1 two by auto
  note pv1 = picked(1) [OF v two' pu(2,3), of H] and pv = picked(2-4) [OF v two' pu(2,3)]
  have sub: "set Q1 \<union> set L1 \<subseteq> set Q \<union> set L" "set Q2 \<union> set L2 \<subseteq> set Q1 \<union> set L1" using pu1 pv1 by auto
  have uin: "u \<in> set Q \<union> set L" and vin: "v \<in> set Q1 \<union> set L1" using pu1 pv1 by auto
  have uv: "u \<le> v" "\<forall>y \<in> set Q2 \<union> set L2. v \<le> y" using pu(1) pv(1) vin sub by auto
  have sum2: "u + v + sum_list Q2 + sum_list L2 = T" using pu1 pv1 sum by auto
  then show m2: "merge_two m (P, Q, L) = (P2, Q2 @ [u + v], L2)" using u v T by (simp add: merge_two_def)
  have "last Q \<le> 2 * u" using last uin by blast
  then have old: "last Q \<le> u + v" using uv(1) by simp
  have "x \<le> last Q" if "x \<in> set Q" for x using s(1) that by (induction Q) auto
  moreover have "set Q2 \<subseteq> set Q" using pu1 pv1 by auto
  ultimately have srt: "sorted (Q2 @ [u + v])" using pv(2) old by (auto simp: sorted_append intro: order_trans)
  have hin: "?hu = 0 \<or> ?hu \<in> set H" "?hv = 0 \<or> ?hv \<in> set H" using pu1 pv1 lH lP by auto
  have fu: "fibo (?hu + 2) \<le> u"
    using pu1 f2 pos by (auto simp: numeral_2_eq_2 intro: Suc_leI)
  let ?f = "\<lambda>i. fibo (H ! i + 2)"
  have f2': "\<forall>i < length Q1. ?f (length P1 + i) \<le> Q1 ! i" "\<forall>l \<in> set L1. 1 \<le> l"
    using pu1 f2 tail_heights [of u Q1 ?f "length P"] pos by auto
  have f2'': "\<forall>i < length Q2. ?f (length P2 + i) \<le> Q2 ! i"
    using pv1 f2'(1) tail_heights [of v Q2 ?f "length P1"] by auto
  have fv: "fibo (?hv + 2) \<le> v"
    using pv1 f2' by (auto simp: numeral_2_eq_2 intro: Suc_leI)
  have gu: "fibo (?hv + 1) \<le> u" and gv: "fibo (?hu + 1) \<le> v"
    using hin f1 uin vin sub(1) fu fv uv(1) fibo_mono [of 1 "?hu + 2"] by (auto simp: numeral_2_eq_2 intro: order_trans)
  let ?h = "1 + max ?hu ?hv"
  have new: "fibo (?h + 2) \<le> u + v"
  proof (cases "?hv \<le> ?hu")
    case True
    then have "fibo (?h + 2) = fibo (?hu + 2) + fibo (?hu + 1)" by (simp add: max_def numeral_2_eq_2)
    then show ?thesis using fu gv by simp
  next
    case False
    then have "fibo (?h + 2) = fibo (?hv + 2) + fibo (?hv + 1)" by (simp add: max_def numeral_2_eq_2)
    then show ?thesis using fv gu by simp
  qed
  have hv: "fibo (?h + 1) \<le> v" using fu fv uv(1) by (simp add: max_def numeral_2_eq_2)
  have len: "length P2 + length Q2 = m" using pu1 pv1 lP by auto
  have "fibo ((H @ [?h]) ! (length P2 + i) + 2) \<le> (Q2 @ [u + v]) ! i" if "i < length (Q2 @ [u + v])" for i
  proof (cases "i = length Q2")
    case True
    then show ?thesis using new lH len by (simp add: nth_append)
  next
    case False
    then have i: "i < length Q2" using that by simp
    then have "fibo (H ! (length P2 + i) + 2) \<le> Q2 ! i" using f2'' by simp
    then show ?thesis using i lH len by (simp add: nth_append)
  qed
  moreover have "fibo (h + 1) \<le> y" if y: "y \<in> set (Q2 @ [u + v]) \<union> set L2" and h: "h \<in> set (H @ [?h])" for y h
  proof -
    have yv: "v \<le> y" using y uv by auto
    then have yu: "u \<le> y" using uv(1) by simp
    show ?thesis
    proof (cases "h = ?h")
      case False
      then have "h \<in> set H" using h by simp
      then have "fibo (h + 1) \<le> u" using f1 uin by simp
      then show ?thesis using yu by simp
    qed (use hv yv in simp)
  qed
  moreover have pos1: "\<forall>l \<in> set L2. 1 \<le> l" using f2'(2) pv1 by auto
  moreover have "last (Q2 @ [u + v]) \<le> 2 * y" if y: "y \<in> set (Q2 @ [u + v]) \<union> set L2" for y
  proof -
    have "v \<le> y \<or> y = u + v" using y uv by auto
    then show ?thesis using uv(1) by auto
  qed
  ultimately show "weights_ok T (Suc m) (H @ [?h]) (P2, Q2 @ [u + v], L2)"
    unfolding weights_ok_def prod.case using srt pv(3) sum2 pos1 lH len by simp
qed

lemma merge_parents:
  assumes p: "parents_ok m H P" and lH: "length H = m" and lP: "length P + length Q = m" and Q: "Q \<noteq> []" and two: "2 \<le> length Q + length L"
    and s: "sorted Q" "sorted L"
    and u: "pick m (P, Q, L) = (u, P1, Q1, L1)" and v: "pick m (P1, Q1, L1) = (v, P2, Q2, L2)"
  shows "parents_ok (Suc m) (H @ [1 + max (picked_height H (P, Q, L)) (picked_height H (P1, Q1, L1))]) P2"
proof -
  let ?hu = "picked_height H (P, Q, L)" and ?hv = "picked_height H (P1, Q1, L1)"
  let ?h = "1 + max ?hu ?hv"
  note pu1 = picked(1) [OF u disjI1 [OF Q] s, of H] and pu = picked(2-4) [OF u disjI1 [OF Q] s]
  have two': "Q1 \<noteq> [] \<or> L1 \<noteq> []" using pu1 two by auto
  note pv1 = picked(1) [OF v two' pu(2,3), of H]
  have P: "sorted P" "\<And>i. i < length P \<Longrightarrow> i < P ! i \<and> P ! i < m \<and> H ! i < H ! (P ! i)" "\<And>x. count_list P x \<le> 2"
    using p by (simp_all add: parents_ok_def)
  have below: "x < m" if "x \<in> set P" for x using that P(2) by (auto simp: in_set_conv_nth)
  then have m0: "count_list P m = 0" by (metis count_notin less_irrefl)
  consider (none) "P2 = P" | (one) "P2 = P @ [m]" "length P < m" "H ! length P < ?h"
    | (both) "P2 = P @ [m, m]" "Suc (length P) < m" "H ! length P < ?h" "H ! Suc (length P) < ?h"
    using pu1 pv1 lP by (auto simp: less_Suc_eq_le)
  then show ?thesis
  proof cases
    case none
    have "i < P ! i \<and> P ! i < Suc m \<and> (H @ [?h]) ! i < (H @ [?h]) ! (P ! i)" if "i < length P" for i
      using P(2) [OF that] lH by (simp add: nth_append)
    then show ?thesis unfolding none using P by (simp add: parents_ok_def)
  next
    case one
    have "i < (P @ [m]) ! i \<and> (P @ [m]) ! i < Suc m \<and> (H @ [?h]) ! i < (H @ [?h]) ! ((P @ [m]) ! i)" if "i < length (P @ [m])" for i
      using that P(2) [of i] one(2,3) lH by (cases "i < length P") (auto simp: nth_append less_Suc_eq)
    then show ?thesis unfolding one using P(1,3) m0 below by (auto simp: parents_ok_def sorted_append intro: less_imp_le)
  next
    case both
    have "i < (P @ [m, m]) ! i \<and> (P @ [m, m]) ! i < Suc m \<and> (H @ [?h]) ! i < (H @ [?h]) ! ((P @ [m, m]) ! i)"
      if i: "i < length (P @ [m, m])" for i
    proof -
      consider "i < length P" | "i = length P" | "i = Suc (length P)" using i by auto linarith
      then show ?thesis using P(2) [of i] both(2-4) lH by cases (auto simp: nth_append)
    qed
    then show ?thesis unfolding both using P(1,3) m0 below by (auto simp: parents_ok_def sorted_append intro: less_imp_le)
  qed
qed

lemma merge_step:
  assumes q: "holds_queues n m Z (P, Q, L) (A, root, leaf)" and w: "weights_ok T m H (P, Q, L)" and p: "parents_ok m H P"
    and T: "T < 65536" and Q: "Q \<noteq> []" and len: "length Q + length L = n - m" and m: "Suc m < n"
  shows "\<exists>P' Q' L' H'. holds_queues n (Suc m) Z (P', Q', L') (pair_up n m (A, root, leaf)) \<and> weights_ok T (Suc m) H' (P', Q', L') \<and>
    parents_ok (Suc m) H' P' \<and> Q' \<noteq> [] \<and> length Q' + length L' = n - Suc m"
proof -
  have two: "2 \<le> length Q + length L" using len m by simp
  have "m < leaf" using q len Q m by (cases Q) (auto simp: holds_queues_def)
  note h = mr_pair_merges [OF q Q this two]
  obtain u P1 Q1 L1 where u: "pick m (P, Q, L) = (u, P1, Q1, L1)" by (metis prod_cases4)
  obtain v P2 Q2 L2 where v: "pick m (P1, Q1, L1) = (v, P2, Q2, L2)" by (metis prod_cases4)
  have s: "sorted Q" "sorted L" and l: "length H = m" "length P + length Q = m" using w by (simp_all add: weights_ok_def)
  note mw = merge_weights [OF w T Q two u v] and mp = merge_parents [OF p l Q two s u v]
  note pu1 = picked(1) [OF u disjI1 [OF Q] s, of H] and pu = picked(3-4) [OF u disjI1 [OF Q] s]
  have two': "Q1 \<noteq> [] \<or> L1 \<noteq> []" using pu1 two by auto
  note pv1 = picked(1) [OF v two' pu, of H]
  have "length (Q2 @ [u + v]) + length L2 = n - Suc m" using pu1 pv1 len m by auto
  then show ?thesis using h mw mp by (intro exI [of _ P2] exI [of _ "Q2 @ [u + v]"] exI [of _ L2] exI conjI) simp_all
qed

lemma parents_found:
  assumes K: "sorted K" "\<forall>k \<in> set K. 1 \<le> k" "sum_list K < 65536" and n: "length K = n" "2 \<le> n"
  obtains P H w x where "mr_parents n (K @ Z) = Some (P @ [w, x] @ Z)" and "length P = n - 2" and "parents_ok (n - 1) H P" and "length H = n - 1"
    and "fibo (H ! (n - 2) + 2) < 65536"
proof -
  let ?T = "sum_list K"
  obtain a b K2 where ab: "K = a # b # K2" using n by (cases K; cases "tl K") auto
  let ?A = "(K @ Z)[0 := ((K @ Z) ! 0 + (K @ Z) ! 1) mod 65536]"
  have A: "?A = [] @ [a + b] @ [b] @ K2 @ Z" using K(3) ab by simp
  have "holds_queues n 1 Z ([], [a + b], K2) (?A, 0, 2)"
    unfolding A using n ab by (auto simp: holds_queues_def intro!: exI [of _ "[b]"])
  moreover have "weights_ok ?T 1 [1] ([], [a + b], K2)" using K ab by (fastforce simp: weights_ok_def numeral_2_eq_2)
  moreover have "parents_ok 1 [1] []" by (simp add: parents_ok_def)
  moreover have "length [a + b] + length K2 = n - 1" using n ab by simp
  ultimately have start: "\<exists>P Q L H. holds_queues n 1 Z (P, Q, L) (?A, 0, 2) \<and> weights_ok ?T 1 H (P, Q, L) \<and> parents_ok 1 H P \<and> Q \<noteq> [] \<and>
      length Q + length L = n - 1" by blast
  let ?loop = "\<lambda>k. for_each (mr_pair n) [1..<k] (?A, 0, 2)"
  have "\<exists>P Q L H R. ?loop (Suc k) = Some R \<and> holds_queues n (Suc k) Z (P, Q, L) R \<and> weights_ok ?T (Suc k) H (P, Q, L) \<and>
      parents_ok (Suc k) H P \<and> Q \<noteq> [] \<and> length Q + length L = n - Suc k" if "Suc k < n" for k
    using that
  proof (induction k)
    case 0
    then show ?case using start by simp
  next
    case (Suc k)
    then obtain P Q L H A root leaf where f: "?loop (Suc k) = Some (A, root, leaf)"
        and i: "holds_queues n (Suc k) Z (P, Q, L) (A, root, leaf)" "weights_ok ?T (Suc k) H (P, Q, L)"
        "parents_ok (Suc k) H P" "Q \<noteq> []" "length Q + length L = n - Suc k" by auto
    have "root < Suc k" "n \<le> length A" using i(1,4) by (cases Q; auto simp: holds_queues_def)+
    then have "mr_pair n (Suc k) (A, root, leaf) = Some (pair_up n (Suc k) (A, root, leaf))"
      using Suc.prems by (intro mr_pair_eq) simp_all
    moreover have "[1..<Suc (Suc k)] = [1..<Suc k] @ [Suc k]" by simp
    ultimately have "?loop (Suc (Suc k)) = Some (pair_up n (Suc k) (A, root, leaf))"
      using f by (simp only: for_each_append for_each.simps option.case)
    then show ?case
      using merge_step [OF i(1-3) K(3) i(4,5)] Suc.prems by fastforce
  qed
  from this [of "n - 2"] n obtain P Q L H A root leaf where f: "?loop (n - 1) = Some (A, root, leaf)"
      and i: "holds_queues n (n - 1) Z (P, Q, L) (A, root, leaf)" "weights_ok ?T (n - 1) H (P, Q, L)" "parents_ok (n - 1) H P" "Q \<noteq> []" "length Q + length L = 1"
    by (auto simp: Suc_diff_Suc numeral_2_eq_2)
  obtain w where Q: "Q = [w]" "L = []" using i(4,5) by (cases Q) auto
  obtain J where J: "A = P @ Q @ J @ L @ Z" "length (P @ Q @ J @ L) = n" "length (P @ Q) = n - 1"
    using i(1) by (auto simp: holds_queues_def)
  then obtain x where x: "J = [x]" using n Q by (cases J) auto
  have lP: "length P = n - 2" using J(3) Q n by simp
  have "fibo (H ! length P + 2) \<le> w" and "w = ?T" and "length H = n - 1" using i(2) Q by (auto simp: weights_ok_def)
  moreover have "mr_parents n (K @ Z) = Some A"
    using f n ab by (simp add: mr_parents_def key_at_def set_key_def)
  ultimately show thesis
    using that [of P w x H] J x Q lP i(3) K(3) by simp
qed

section \<open>Depths of the inner nodes\<close>

text \<open>A list of depths, the deepest first, of nodes that hang below each other, two at most below each.\<close>

definition depths_ok :: "nat list \<Rightarrow> bool" where
  "depths_ok D \<longleftrightarrow> sorted_wrt (\<ge>) D \<and> (\<forall>d. count_list D (Suc d) \<le> 2 * count_list D d) \<and> count_list D 0 = 1 \<and> (\<forall>d \<in> set D. d \<le> 22)"

lemma fibo_add5: "fibo (n + 5) = 5 * fibo (n + 1) + 3 * fibo n \<and> fibo (n + 6) = 8 * fibo (n + 1) + 5 * fibo n"
  by (simp add: eval_nat_numeral)

lemma fibo_25: "65536 \<le> fibo 25"
proof -
  have "fibo 0 = 0" "fibo 1 = 1" by simp_all
  then have "fibo 5 = 5" "fibo 6 = 8" using fibo_add5 [of 0] by simp_all
  then have "fibo 10 = 55" "fibo 11 = 89" using fibo_add5 [of 5] by simp_all
  then have "fibo 15 = 610" "fibo 16 = 987" using fibo_add5 [of 10] by simp_all
  then have "fibo 20 = 6765" "fibo 21 = 10946" using fibo_add5 [of 15] by simp_all
  then show ?thesis using fibo_add5 [of 20] by simp
qed

lemma fibo_bound:
  assumes "fibo (h + 2) < 65536"
  shows "h \<le> 22"
proof (rule ccontr)
  assume "\<not> h \<le> 22"
  then have "fibo 25 \<le> fibo (h + 2)" by (intro fibo_mono) simp
  moreover have "65536 \<le> fibo 25" by (rule fibo_25)
  ultimately show False using assms by simp
qed

lemma depths_by_parents:
  assumes p: "parents_ok (Suc m) H P" and P: "length P = m" and h: "H ! m \<le> 22" and j: "j \<le> m"
  shows "\<exists>D. fold (\<lambda>next A. A[next := (A ! (A ! next) + 1) mod 65536]) (rev [j..<m]) (P @ 0 # Z) = take j P @ D @ 0 # Z \<and>
    length D = m - j \<and> (\<forall>i < m - j. (D @ [0]) ! i = (D @ [0]) ! (P ! (j + i) - j) + 1 \<and> (D @ [0]) ! i + H ! (j + i) \<le> H ! m)"
  using j
proof (induction "m - j" arbitrary: j)
  case 0
  then show ?case using P by simp
next
  case (Suc k)
  then have j: "j < m" "k = m - Suc j" "Suc j \<le> m" by auto
  let ?f = "\<lambda>next A. A[next := (A ! (A ! next) + 1) mod 65536]"
  obtain D where D: "fold ?f (rev [Suc j..<m]) (P @ 0 # Z) = take (Suc j) P @ D @ 0 # Z" "length D = m - Suc j"
      "\<And>i. i < m - Suc j \<Longrightarrow> (D @ [0]) ! i = (D @ [0]) ! (P ! (Suc j + i) - Suc j) + 1 \<and> (D @ [0]) ! i + H ! (Suc j + i) \<le> H ! m"
    using Suc.hyps(1) [OF j(2,3)] by blast
  have pj: "j < P ! j" "P ! j \<le> m" "H ! j < H ! (P ! j)" using p j P by (auto simp: parents_ok_def less_Suc_eq_le)
  let ?q = "P ! j - Suc j"
  let ?d = "(D @ [0]) ! ?q"
  have q: "?q \<le> length D" using pj D(2) by simp
  have dq: "?d + H ! (P ! j) \<le> H ! m"
  proof (cases "P ! j = m")
    case True
    then show ?thesis using D(2) by (simp add: nth_append)
  next
    case False
    then have "?q < m - Suc j" "Suc j + ?q = P ! j" using pj by auto
    then show ?thesis using D(3) [of ?q] by simp
  qed
  let ?A = "take (Suc j) P @ D @ 0 # Z"
  have "?A ! (P ! j) = ?d" using q pj P j D(2) by (auto simp: nth_append min_def)
  moreover have "?A ! j = P ! j" using j P by (simp add: nth_append)
  moreover have "?A[j := x] = take j P @ (x # D) @ 0 # Z" for x
    using j P by (simp add: take_Suc_conv_app_nth list_update_append)
  ultimately have "?f j ?A = take j P @ ((?d + 1) # D) @ 0 # Z" using dq h by simp
  moreover have "rev [j..<m] = rev [Suc j..<m] @ [j]" using j by (simp add: upt_conv_Cons)
  ultimately have e: "fold ?f (rev [j..<m]) (P @ 0 # Z) = take j P @ ((?d + 1) # D) @ 0 # Z" using D(1) by simp
  have new: "(((?d + 1) # D) @ [0]) ! i = (((?d + 1) # D) @ [0]) ! (P ! (j + i) - j) + 1 \<and> (((?d + 1) # D) @ [0]) ! i + H ! (j + i) \<le> H ! m"
    if i: "i < m - j" for i
  proof (cases i)
    case 0
    have "P ! j - j = Suc ?q" using pj by simp
    then show ?thesis using 0 pj dq by simp
  next
    case (Suc i')
    then have "j + i < P ! (j + i)" using p i P by (simp add: parents_ok_def)
    then have "P ! (j + i) - j = Suc (P ! (j + i) - Suc j)" using Suc by simp
    moreover have "i' < m - Suc j" using i Suc by simp
    ultimately show ?thesis using D(3) [of i'] Suc by simp
  qed
  have "length ((?d + 1) # D) = m - j" using D(2) j by simp
  then show ?case using e new by blast
qed

lemma count_map_sum:
  "set xs \<subseteq> {..<n} \<Longrightarrow> count_list (map f xs) d = (\<Sum>v\<in>{v. v < n \<and> f v = d}. count_list xs v)" for n :: nat
proof (induction xs)
  case (Cons x xs)
  have "(\<Sum>v\<in>{v. v < n \<and> f v = d}. count_list (x # xs) v) =
      (\<Sum>v\<in>{v. v < n \<and> f v = d}. if x = v then 1 else 0) + (\<Sum>v\<in>{v. v < n \<and> f v = d}. count_list xs v)"
    unfolding sum.distrib [symmetric] by (intro sum.cong) auto
  then show ?case using Cons by simp
qed simp

lemma count_list_card: "count_list xs d = card {v. v < length xs \<and> xs ! v = d}"
  by (simp add: count_list_eq_length_filter length_filter_conv_card eq_commute)

lemma depths_from_parents:
  assumes p: "parents_ok (Suc m) H P" and P: "length P = m" and h: "H ! m \<le> 22"
  shows "\<exists>D. length D = m \<and> fold (\<lambda>next A. A[next := (A ! (A ! next) + 1) mod 65536]) (rev [0..<m]) (P @ 0 # Z) = D @ 0 # Z \<and> depths_ok (D @ [0])"
proof -
  obtain D where D: "fold (\<lambda>next A. A[next := (A ! (A ! next) + 1) mod 65536]) (rev [0..<m]) (P @ 0 # Z) = D @ 0 # Z" "length D = m"
      "\<And>i. i < m \<Longrightarrow> (D @ [0]) ! i = (D @ [0]) ! (P ! i) + 1 \<and> (D @ [0]) ! i + H ! i \<le> H ! m"
    using depths_by_parents [OF p P h, of 0 Z] by auto
  let ?E = "D @ [0]"
  have pi: "i < P ! i \<and> P ! i \<le> m" if "i < m" for i using p that P by (auto simp: parents_ok_def less_Suc_eq_le)
  have srt: "sorted P" and two: "\<And>v. count_list P v \<le> 2" using p by (auto simp: parents_ok_def)
  have mono: "?E ! j \<le> ?E ! i" if "i \<le> j" "j \<le> m" for i j
    using that
  proof (induction "m - i" arbitrary: i j rule: less_induct)
    case less
    show ?case
    proof (cases "j = m")
      case True
      then show ?thesis using D(2) by (simp add: nth_append)
    next
      case False
      then have ij: "i < m" "j < m" using less.prems by auto
      have "P ! i \<le> P ! j" using srt less.prems(1) ij P by (simp add: sorted_nth_mono)
      then have "?E ! (P ! j) \<le> ?E ! (P ! i)" using less.hyps [of "P ! i" "P ! j"] pi [OF ij(1)] pi [OF ij(2)] ij by (metis diff_less_mono2 le_trans order.strict_trans2)
      then show ?thesis using D(3) [OF ij(1)] D(3) [OF ij(2)] by simp
    qed
  qed
  have srtE: "sorted_wrt (\<ge>) ?E" unfolding sorted_wrt_iff_nth_less using mono D(2) by simp
  have Dm: "D = map (\<lambda>p. Suc (?E ! p)) P"
    using D(2,3) P by (intro nth_equalityI) (auto simp: nth_append)
  have cnt: "count_list ?E (Suc d) \<le> 2 * count_list ?E d" for d
  proof -
    have "count_list ?E (Suc d) = count_list (map (\<lambda>p. Suc (?E ! p)) P) (Suc d)" using Dm by simp
    also have "\<dots> = (\<Sum>v\<in>{v. v < Suc m \<and> Suc (?E ! v) = Suc d}. count_list P v)"
      using pi P by (intro count_map_sum) (auto simp: in_set_conv_nth less_Suc_eq_le)
    also have "\<dots> \<le> (\<Sum>v\<in>{v. v < Suc m \<and> ?E ! v = d}. 2)" using sum_mono [of "{v. v < Suc m \<and> ?E ! v = d}" "count_list P" "\<lambda>_. 2"] two by simp
    also have "\<dots> = 2 * count_list ?E d" unfolding count_list_card using D(2) by simp
    finally show ?thesis .
  qed
  have "0 \<notin> set D" using Dm by (metis (no_types, lifting) imageE list.set_map old.nat.distinct(1))
  then have "count_list ?E 0 = 1" by (simp add: count_list_0_iff)
  moreover have "d \<le> 22" if dE: "d \<in> set ?E" for d
  proof -
    consider "d = 0" | "d \<in> set D" using dE by auto
    then show ?thesis
    proof cases
      case 2
      then obtain i where i: "i < m" "D ! i = d" using D(2) by (auto simp: in_set_conv_nth)
      have "?E ! i + H ! i \<le> H ! m" by (rule conjunct2 [OF D(3) [OF i(1)]])
      then show ?thesis using i h D(2) by (simp add: nth_append)
    qed simp
  qed
  ultimately show ?thesis using D(1,2) srtE cnt by (intro exI [of _ D]) (simp add: depths_ok_def)
qed

section \<open>Lengths of the leaves\<close>

lemma mr_used_block: "take (length E + k) A = E @ replicate k d \<Longrightarrow> \<forall>e \<in> set E. e \<noteq> d \<Longrightarrow>
    length E + k \<le> length A \<Longrightarrow> mr_used A d (length E + k) u = Some (u + k, length E)"
proof (induction k arbitrary: u)
  case 0
  show ?case
  proof (cases E rule: rev_cases)
    case (snoc E' e)
    then have "A ! length E' = e" using 0(1) by (metis add.right_neutral append_Nil2 length_append_singleton lessI nth_append_length nth_take replicate_0)
    then show ?thesis using snoc 0(2,3) by simp
  qed simp
next
  case (Suc k)
  have "A ! (length E + k) = (E @ replicate (Suc k) d) ! (length E + k)" using Suc.prems(1) by (metis add_Suc_right lessI nth_take)
  then have "A ! (length E + k) = d" by (simp add: nth_append del: replicate_Suc)
  moreover have "take (length E + k) A = E @ replicate k d"
    using arg_cong [OF Suc.prems(1), of "take (length E + k)"] by (simp add: min_def take_replicate del: replicate_Suc)
  ultimately show ?case using Suc.IH [of "u + 1"] Suc.prems(2,3) by simp
qed

lemma mr_leaves_block: "mr_leaves (length J) d (X @ J @ W) (length X + length J) = Some (X @ replicate (length J) (d mod 65536) @ W, length X)"
proof (induction J arbitrary: W rule: rev_induct)
  case (snoc j J)
  have "(X @ (J @ [j]) @ W)[length X + length J := x] = X @ J @ x # W" for x
    by (simp add: list_update_append)
  then show ?case using snoc [of "(d mod 65536) # W"]
    by (simp add: replicate_append_same flip: replicate_Suc)
qed simp

text \<open>What the leaves take of the code space, in units of a leaf at depth 32.\<close>

definition space :: "nat list \<Rightarrow> nat" where
  "space R = sum_list (map (\<lambda>l. 2 ^ (32 - l)) R)"

lemma filter_level:
  "sorted_wrt (\<ge>) D \<Longrightarrow> filter (\<lambda>e. d \<le> e) D = filter (\<lambda>e. Suc d \<le> e) D @ replicate (count_list D d) d" for d :: nat
proof (induction D)
  case (Cons a D)
  then have IH: "filter (\<lambda>e. d \<le> e) D = filter (\<lambda>e. Suc d \<le> e) D @ replicate (count_list D d) d" by simp
  show ?case
  proof (cases "Suc d \<le> a")
    case False
    then have "filter (\<lambda>e. Suc d \<le> e) D = []" using Cons.prems by (auto simp: filter_empty_conv)
    then show ?thesis using IH False Cons.prems by auto
  qed (use IH in auto)
qed simp

lemma levels_fill:
  assumes D: "depths_ok D"
  shows "length J = 2 * count_list D d \<Longrightarrow> d \<le> 22 \<Longrightarrow> \<exists>R. length R = length (filter (\<lambda>e. Suc d \<le> e) D) + length J \<and>
    (\<forall>l \<in> set R. Suc d \<le> l \<and> l \<le> 23) \<and> space R = length J * 2 ^ (31 - d) \<and>
    mr_levels (filter (\<lambda>e. Suc d \<le> e) D @ J @ W) (length J) (length (filter (\<lambda>e. Suc d \<le> e) D)) (Suc d)
      (length (filter (\<lambda>e. Suc d \<le> e) D) + length J) = Some (R @ W)"
proof (induction "22 - d" arbitrary: d J W)
  case 0
  then have "filter (\<lambda>e. Suc d \<le> e) D = []" using D by (force simp: depths_ok_def filter_empty_conv)
  moreover have "d = 22" using 0 by simp
  moreover have "mr_levels (J @ W) (length J) 0 23 (length J) = Some (replicate (length J) 23 @ W)"
    using mr_leaves_block [of J 23 "[]" W] by (simp add: mr_levels.simps [of _ "length J"] mr_levels.simps [of _ 0])
  ultimately show ?case by (intro exI [of _ "replicate (length J) 23"]) (simp add: space_def sum_list_replicate)
next
  case (Suc k)
  let ?F = "filter (\<lambda>e. Suc d \<le> e) D" and ?G = "filter (\<lambda>e. Suc (Suc d) \<le> e) D" and ?k = "count_list D (Suc d)"
  have d: "d \<le> 21" "k = 22 - Suc d" using Suc by simp_all
  have F: "?F = ?G @ replicate ?k (Suc d)" using filter_level [of D "Suc d"] D by (simp add: depths_ok_def)
  have kJ: "?k \<le> length J" using D Suc.prems(1) by (simp add: depths_ok_def)
  show ?case
  proof (cases "J = []")
    case True
    have z: "count_list D (d + j) = 0" for j
    proof (induction j)
      case 0
      then show ?case using True Suc.prems(1) by simp
    next
      case (Suc j)
      then show ?case using D unfolding depths_ok_def by (metis add_Suc_right le_zero_eq mult_0_right)
    qed
    have "e < Suc d" if "e \<in> set D" for e
      using z [of "e - d"] that by (cases "d \<le> e") (auto simp: count_list_0_iff)
    then have "?F = []" by (force simp: filter_empty_conv)
    then show ?thesis using True by (intro exI [of _ "[]"]) (simp add: space_def mr_levels.simps)
  next
    case False
    let ?J1 = "take ?k J" and ?J2 = "drop ?k J"
    let ?J' = "replicate ?k (Suc d) @ ?J1" and ?m = "length J - ?k"
    have u: "mr_used (?F @ J @ W) (Suc d) (length ?F) 0 = Some (?k, length ?G)"
      using mr_used_block [of ?G ?k "?F @ J @ W" "Suc d" 0] F by (auto simp: F)
    have lv: "mr_leaves ?m (Suc d) (?F @ J @ W) (length ?F + length J) = Some ((?F @ ?J1) @ replicate ?m (Suc d) @ W, length (?F @ ?J1))"
    proof -
      have "length (?F @ ?J1) + length ?J2 = length ?F + length J" and "length ?J2 = ?m" using kJ by simp_all
      moreover have "(?F @ ?J1) @ ?J2 @ W = ?F @ J @ W" by (metis append.assoc append_take_drop_id)
      moreover have "Suc d mod 65536 = Suc d" using d by simp
      ultimately show ?thesis using mr_leaves_block [of ?J2 "Suc d" "?F @ ?J1" W] by metis
    qed
    have "length ?J' = 2 * ?k" using kJ by simp
    then obtain R where R: "length R = length ?G + length ?J'" "\<forall>l \<in> set R. Suc (Suc d) \<le> l \<and> l \<le> 23" "space R = length ?J' * 2 ^ (31 - Suc d)"
        "mr_levels (?G @ ?J' @ replicate ?m (Suc d) @ W) (length ?J') (length ?G) (Suc (Suc d)) (length ?G + length ?J') =
          Some (R @ replicate ?m (Suc d) @ W)"
      using Suc.hyps(1) [OF d(2), of ?J' "replicate ?m (Suc d) @ W"] d by (auto simp del: length_append)
    have "mr_levels (?F @ J @ W) (length J) (length ?F) (Suc d) (length ?F + length J) = Some ((R @ replicate ?m (Suc d)) @ W)"
      using R(4) u lv False kJ F by (subst mr_levels.simps) (simp add: mult_2 add.assoc)
    moreover have "space (R @ replicate ?m (Suc d)) = length J * 2 ^ (31 - d)"
    proof -
      have "(2::nat) ^ (31 - d) = 2 * 2 ^ (31 - Suc d)" using d by (simp add: Suc_diff_Suc flip: power_Suc)
      then have "space R = ?k * 2 ^ (31 - d)" using R(3) kJ by simp
      moreover have "space (replicate ?m (Suc d)) = ?m * 2 ^ (31 - d)" by (simp add: space_def sum_list_replicate)
      moreover have "length J = ?k + ?m" using kJ by simp
      ultimately show ?thesis by (metis add_mult_distrib map_append space_def sum_list_append)
    qed
    moreover have "length (R @ replicate ?m (Suc d)) = length ?F + length J" using R(1) F kJ by simp
    moreover have "\<forall>l \<in> set (R @ replicate ?m (Suc d)). Suc d \<le> l \<and> l \<le> 23" using R(2) d by auto
    ultimately show ?thesis by blast
  qed
qed

lemma redundancy_lengths:
  assumes K: "sorted K" "\<forall>k \<in> set K. 1 \<le> k" "sum_list K < 65536" and n: "length K = n" "2 \<le> n"
  shows "\<exists>R. tdefl_calculate_minimum_redundancy (K @ Z) n = Some (R @ Z) \<and> length R = n \<and> (\<forall>l \<in> set R. 1 \<le> l \<and> l \<le> 23) \<and> space R = 2 ^ 32"
proof -
  obtain P H w x where P: "mr_parents n (K @ Z) = Some (P @ [w, x] @ Z)" "length P = n - 2" "parents_ok (n - 1) H P" "length H = n - 1"
      "fibo (H ! (n - 2) + 2) < 65536"
    by (rule parents_found [OF K n, of Z])
  obtain m where m: "n = Suc (Suc m)" using n(2) by (cases n; cases "n - 1") auto
  have "H ! m \<le> 22" using fibo_bound P(5) m by simp
  then obtain D where D: "length D = m" "depths_ok (D @ [0])"
      "fold (\<lambda>next A. A[next := (A ! (A ! next) + 1) mod 65536]) (rev [0..<m]) (P @ 0 # x # Z) = D @ 0 # x # Z"
    using depths_from_parents [of m H P "x # Z"] P m by auto
  have "\<forall>i < m. (P @ 0 # x # Z) ! i < length (P @ 0 # x # Z)"
    using P(2,3) m by (auto simp: parents_ok_def nth_append less_Suc_eq_le intro: le_less_trans)
  from mr_depth_steps [OF _ this] have dp: "mr_depths n (P @ [w, x] @ Z) = Some (D @ 0 # x # Z)"
    using P(2) m D(3) by (simp add: mr_depths_def set_key_def list_update_append)
  let ?E = "D @ [0]"
  have z: "count_list ?E 0 = 1" and srt: "sorted_wrt (\<ge>) ?E" using D(2) by (simp_all add: depths_ok_def)
  have "filter (\<lambda>e. 0 \<le> e) ?E = filter (\<lambda>e. Suc 0 \<le> e) ?E @ replicate 1 0" using filter_level [OF srt, of 0] unfolding z .
  then have F: "filter (\<lambda>e. Suc 0 \<le> e) ?E = D" by simp
  then have "\<forall>e \<in> set D. Suc 0 \<le> e" by (metis (no_types, lifting) filter_is_subset mem_Collect_eq set_filter)
  then have "\<forall>e \<in> set D. e \<noteq> 0" by force
  then have u: "mr_used (D @ 0 # x # Z) 0 (Suc m) 0 = Some (1, m)" using mr_used_block [of D 1 "D @ 0 # x # Z" 0 0] D(1) by simp
  obtain R where R: "length R = length D + 2" "\<forall>l \<in> set R. Suc 0 \<le> l \<and> l \<le> 23" "space R = 2 * 2 ^ 31"
      "mr_levels (D @ 0 # x # Z) (Suc (Suc 0)) (length D) (Suc 0) (Suc (Suc (length D))) = Some (R @ Z)"
    using levels_fill [OF D(2), of "[0, x]" 0 Z] z F by auto
  have "mr_levels (D @ 0 # x # Z) 1 (Suc m) 0 n = Some (R @ Z)"
    using R(4) u D(1) m by (subst mr_levels.simps) (simp add: numeral_2_eq_2)
  then have "tdefl_calculate_minimum_redundancy (K @ Z) n = Some (R @ Z)"
    using P(1) dp m by (simp add: tdefl_calculate_minimum_redundancy_def)
  then show ?thesis using R m D(1) by auto
qed

end
