(* ===== verification/Huffman_Codes.thy ===== *)
theory Huffman_Codes
  imports Huffman_Sort Huffman_Lengths Inflate_Blocks
begin

text \<open>
  The code that the compressor makes of its counts is one that the decoder accepts: the sizes are
  within the limit, every symbol that occurs has one, they fill the code space, and the codes are the
  canonical ones of the sizes, the first bit lowest.
\<close>

section \<open>Limiting the lengths\<close>

text \<open>The code space that \<open>c\<close> codes of each size take, in units of a code of \<open>m\<close> bits, and their number.\<close>

definition taken :: "nat \<Rightarrow> nat list \<Rightarrow> nat" where
  "taken m c = (\<Sum>i\<in>{1..m}. 2 ^ (m - i) * c ! i)"

definition number :: "nat \<Rightarrow> nat list \<Rightarrow> nat" where
  "number m c = (\<Sum>i\<in>{1..m}. c ! i)"

lemma sum_update:
  fixes w :: "nat \<Rightarrow> nat"
  assumes "k \<in> {1..m}" and "m < length c"
  shows "(\<Sum>i\<in>{1..m}. w i * c[k := v] ! i) + w k * c ! k = (\<Sum>i\<in>{1..m}. w i * c ! i) + w k * v"
proof -
  have "(\<Sum>i\<in>{1..m} - {k}. w i * c[k := v] ! i) = (\<Sum>i\<in>{1..m} - {k}. w i * c ! i)"
    by (intro sum.cong) auto
  then show ?thesis using assms sum.remove [of "{1..m}" k "\<lambda>i. w i * c[k := v] ! i"] sum.remove [of "{1..m}" k "\<lambda>i. w i * c ! i"] by simp
qed

lemma taken_update: "k \<in> {1..m} \<Longrightarrow> m < length c \<Longrightarrow> taken m (c[k := v]) + 2 ^ (m - k) * c ! k = taken m c + 2 ^ (m - k) * v"
  unfolding taken_def by (rule sum_update)

lemma number_update: "k \<in> {1..m} \<Longrightarrow> m < length c \<Longrightarrow> number m (c[k := v]) + c ! k = number m c + v"
  using sum_update [of k m c "\<lambda>_. 1" v] by (simp add: number_def)

lemma enforce_split_one:
  "\<exists>k \<in> {1..i}. c ! k \<noteq> 0 \<Longrightarrow> \<exists>k \<in> {1..i}. c ! k \<noteq> 0 \<and> enforce_split i c = c[k := c ! k - 1, Suc k := c ! Suc k + 2]"
proof (induction i c rule: enforce_split.induct)
  case (2 i c)
  show ?case
  proof (cases "c ! Suc i = 0")
    case True
    then have "\<exists>k \<in> {1..i}. c ! k \<noteq> 0" using 2(2) by (metis atLeastAtMost_iff le_Suc_eq)
    then show ?thesis using 2(1) True by (fastforce simp del: One_nat_def)
  qed force
qed simp

text \<open>One round shortens the total by one and keeps the number of codes.\<close>

lemma enforce_step:
  assumes m: "1 \<le> m" "m < length c" and t: "taken m c = Suc t" "2 ^ m \<le> t" "Suc t \<le> 2 ^ m + c ! m" and n: "number m c \<le> 2 ^ m"
  shows "let d = enforce_split (m - 1) (c[m := c ! m - 1]) in
    taken m d = t \<and> t \<le> 2 ^ m + d ! m \<and> number m d = number m c \<and> length d = length c"
proof -
  let ?b = "c[m := c ! m - 1]"
  have cm: "0 < c ! m" using t by simp
  have mm: "m \<in> {1..m}" using m by simp
  have tb: "Suc (taken m ?b) = Suc t" using taken_update [OF mm m(2), of "c ! m - 1"] cm t(1) by (cases "c ! m") auto
  have nb: "Suc (number m ?b) = number m c" using number_update [OF mm m(2), of "c ! m - 1"] cm by simp
  have "\<exists>k \<in> {1..m - 1}. ?b ! k \<noteq> 0"
  proof (rule ccontr)
    assume a: "\<not> ?thesis"
    have "taken m c = number m c"
      unfolding taken_def number_def
    proof (rule sum.cong [OF refl])
      fix i assume i: "i \<in> {1..m}"
      show "2 ^ (m - i) * c ! i = c ! i"
      proof (cases "i = m")
        case False
        then have "?b ! i = 0" using a i by (metis atLeastAtMost_iff le_eq_less_or_eq less_Suc_eq_le Suc_pred' m(1) less_le_trans zero_less_one)
        then show ?thesis using False by simp
      qed simp
    qed
    then show False using t n by simp
  qed
  then obtain k where k: "k \<in> {1..m - 1}" "?b ! k \<noteq> 0" "enforce_split (m - 1) ?b = ?b[k := ?b ! k - 1, Suc k := ?b ! Suc k + 2]"
    using enforce_split_one by blast
  let ?e = "?b[k := ?b ! k - 1]"
  let ?d = "?e[Suc k := ?b ! Suc k + 2]"
  have kk: "k \<in> {1..m}" "Suc k \<in> {1..m}" and l: "m < length ?b" "m < length ?e" using k(1) m by auto
  have "m - k = Suc (m - Suc k)" using k(1) by auto
  then have p: "(2::nat) ^ (m - k) = 2 * 2 ^ (m - Suc k)" by simp
  have eS: "?e ! Suc k = ?b ! Suc k" by simp
  obtain y where y: "?b ! k = Suc y" using k(2) by (cases "?b ! k") auto
  have "taken m ?d = taken m ?b"
    using taken_update [OF kk(1) l(1), of "?b ! k - 1"] taken_update [OF kk(2) l(2), of "?b ! Suc k + 2"] y
    unfolding eS p by (simp add: algebra_simps del: nth_list_update)
  moreover have "number m ?d = Suc (number m ?b)"
    using number_update [OF kk(1) l(1), of "?b ! k - 1"] number_update [OF kk(2) l(2), of "?b ! Suc k + 2"] y
    unfolding eS by (simp del: nth_list_update)
  moreover have "?b ! m \<le> ?d ! m" using k(1) m by (cases "Suc k = m") auto
  moreover have "?b ! m = c ! m - 1" using m by simp
  moreover have "t \<le> 2 ^ m + (c ! m - 1)" using t(3) cm by simp
  ultimately have "taken m ?d = t \<and> t \<le> 2 ^ m + ?d ! m \<and> number m ?d = number m c" using tb nb by linarith
  then show ?thesis using k(3) by (simp add: Let_def)
qed

lemma enforce_loop_ends:
  assumes m: "1 \<le> m" and c: "m < length c" "taken m c = tot" "2 ^ m \<le> tot" "tot \<le> 2 ^ m + c ! m" "number m c \<le> 2 ^ m"
  shows "\<exists>d. enforce_loop m tot c = Some d \<and> taken m d = 2 ^ m \<and> number m d = number m c \<and> length d = length c"
  using c
proof (induction tot arbitrary: c)
  case (Suc t)
  show ?case
  proof (cases "Suc t = 2 ^ m")
    case False
    then have t: "2 ^ m \<le> t" using Suc.prems(3) by simp
    then have "c ! m \<noteq> 0" using Suc.prems(4) by simp
    then show ?thesis
      using enforce_step [OF m Suc.prems(1,2) t Suc.prems(4,5)] Suc.IH [of "enforce_split (m - 1) (c[m := c ! m - 1])"] False t Suc.prems
      by (simp add: Let_def)
  next
    case True
    have "enforce_loop m (Suc t) c = Some c" by (subst enforce_loop.simps) (simp add: True)
    then show ?thesis using trans [OF Suc.prems(2) True] by blast
  qed
qed simp

lemma fold_add: "fold (\<lambda>i t. t + f i) xs a = a + sum_list (map f xs)" for f :: "'a \<Rightarrow> nat"
  by (induction xs arbitrary: a) (simp_all add: add.assoc)

lemma fold_gather:
  "m < length c \<Longrightarrow> m \<notin> set is \<Longrightarrow>
    fold (\<lambda>i c. c[m := c ! m + c ! i]) is c = c[m := c ! m + sum_list (map ((!) c) is)]" for c :: "nat list"
proof (induction "is" arbitrary: c)
  case (Cons i "is")
  have e: "map ((!) (c[m := c ! m + c ! i])) is = map ((!) c) is" using Cons.prems by (intro map_cong) (auto simp: nth_list_update)
  show ?case using Cons.IH [of "c[m := c ! m + c ! i]"] Cons.prems unfolding e by (simp add: add.assoc)
qed simp

lemma sum_list_upt: "sum_list (map f [a..<b]) = (\<Sum>i\<in>{a..<b}. f i)" for f :: "nat \<Rightarrow> nat"
  by (simp add: interv_sum_list_conv_sum_set_nat)

lemma total_taken: "fold (\<lambda>i total. total + push_bit (m - i) (b ! i)) (rev [1..<m + 1]) 0 = taken m b"
proof -
  have "{1..<m + 1} = {1..m}" by auto
  then show ?thesis unfolding fold_add rev_map [symmetric] sum_list_rev sum_list_upt taken_def by (simp add: push_bit_eq_mult mult.commute)
qed

lemma enforce_fills:
  assumes c: "length c = 33" and m: "1 \<le> m" "m \<le> 32" and n: "number 32 c \<le> 2 ^ m" "2 \<le> n" and full: "taken 32 c = 2 ^ 32"
  shows "\<exists>d. tdefl_huffman_enforce_max_code_size c n m = Some d \<and> taken m d = 2 ^ m \<and> number m d = number 32 c \<and> length d = 33"
proof -
  let ?x = "\<Sum>i\<in>{m + 1..32}. c ! i"
  let ?b = "c[m := c ! m + ?x]"
  let ?s = "taken m c"
  have split: "(\<Sum>i\<in>{1..32}. f i) = (\<Sum>i\<in>{1..m}. f i) + (\<Sum>i\<in>{m + 1..32}. f i)" for f :: "nat \<Rightarrow> nat"
    using sum.union_disjoint [of "{1..m}" "{m + 1..32}" f] m ivl_disj_un_two(8) [of 1 m 32]
    by (metis Suc_eq_plus1 atLeastSucAtMost_greaterThanAtMost finite_atLeastAtMost ivl_disj_int_two(8))
  have mm: "m \<in> {1..m}" "m < length c" using m c by auto
  have tb: "taken m ?b = ?s + ?x" using taken_update [OF mm, of "c ! m + ?x"] by simp
  have nb: "number m ?b = number 32 c" using number_update [OF mm, of "c ! m + ?x"] split [of "(!) c"] by (simp add: number_def)
  let ?u = "(2::nat) ^ (32 - m)"
  have "2 ^ (32 - i) * c ! i = ?u * (2 ^ (m - i) * c ! i)" if "i \<in> {1..m}" for i
    using that m by (simp flip: power_add)
  then have low: "(\<Sum>i\<in>{1..m}. 2 ^ (32 - i) * c ! i) = ?u * ?s" unfolding taken_def sum_distrib_left by (rule sum.cong [OF refl])
  have high: "(\<Sum>i\<in>{m + 1..32}. 2 ^ (32 - i) * c ! i) \<le> ?u * ?x"
    unfolding sum_distrib_left by (intro sum_mono mult_right_mono power_increasing) auto
  have tot: "?u * ?s + (\<Sum>i\<in>{m + 1..32}. 2 ^ (32 - i) * c ! i) = ?u * 2 ^ m"
    using full split [of "\<lambda>i. 2 ^ (32 - i) * c ! i"] low m by (simp add: taken_def flip: power_add)
  then have "?u * ?s \<le> ?u * 2 ^ m" by linarith
  then have s: "?s \<le> 2 ^ m" unfolding mult_le_cancel1 by simp
  have "?u * 2 ^ m \<le> ?u * (?s + ?x)" using tot high unfolding distrib_left by linarith
  then have sx: "2 ^ m \<le> ?s + ?x" unfolding mult_le_cancel1 by simp
  have bm: "?b ! m = c ! m + ?x" using mm by simp
  have "\<exists>d. enforce_loop m (?s + ?x) ?b = Some d \<and> taken m d = 2 ^ m \<and> number m d = number m ?b \<and> length d = length ?b"
    using m(1) mm(2) tb sx s bm n(1) nb by (intro enforce_loop_ends) simp_all
  moreover have "fold (\<lambda>i c. c[m := c ! m + c ! i]) [m + 1..<TDEFL_MAX_SUPPORTED_HUFF_CODESIZE + 1] c = ?b"
    using fold_gather [of m c "[m + 1..<33]"] c m
    by (simp add: TDEFL_MAX_SUPPORTED_HUFF_CODESIZE_def sum_list_upt atLeastLessThanSuc_atLeastAtMost numeral_eq_Suc)
  moreover have "fold (\<lambda>i total. total + push_bit (m - i) (?b ! i)) (rev [1..<m + 1]) 0 = ?s + ?x"
    unfolding tb [symmetric] by (rule total_taken)
  ultimately show ?thesis using n(2) nb c by (simp add: tdefl_huffman_enforce_max_code_size_def Let_def)
qed

section \<open>The sizes\<close>

lemma count_codes_fold:
  "\<forall>k \<in> set ks. k < length c \<Longrightarrow> count_codes ks c = Some (fold (\<lambda>k c. c[k := c ! k + 1]) ks c)"
  by (induction ks c rule: count_codes.induct) auto

lemma count_codes_zeros:
  assumes "\<forall>k \<in> set ks. k < n"
  shows "\<exists>c. count_codes ks (replicate n 0) = Some c \<and> length c = n \<and> (\<forall>i < n. c ! i = count_list ks i)"
  using assms count_codes_fold [of ks "replicate n 0"] fold_counts [of ks "replicate n 0"] by simp

lemma space_taken:
  assumes "\<forall>l \<in> set R. 1 \<le> l \<and> l \<le> 32" and "\<forall>i < 33. c ! i = count_list R i"
  shows "taken 32 c = space R" and "number 32 c = length R"
proof -
  have s: "set R \<subseteq> {1..32}" using assms(1) by auto
  have "space R = (\<Sum>i\<in>{1..32}. count_list R i * 2 ^ (32 - i))"
    unfolding space_def by (rule sum_list_map_eq_sum_count2 [OF s]) simp
  then show "taken 32 c = space R" using assms(2) by (simp add: taken_def mult.commute)
  have "sum_list (map (\<lambda>_. 1) R) = (\<Sum>i\<in>{1..32}. count_list R i * 1)"
    by (rule sum_list_map_eq_sum_count2 [OF s]) simp
  then show "number 32 c = length R" using assms(2) by (simp add: number_def sum_list_triv)
qed

text \<open>The sizes are dealt out to symbols that differ.\<close>

lemma count_list_update:
  "x < length z \<Longrightarrow> z ! x = 0 \<Longrightarrow> w \<noteq> 0 \<Longrightarrow> count_list (z[x := v]) w = count_list z w + count_list [v] w" for z :: "nat list"
proof (induction z arbitrary: x)
  case (Cons a z)
  then show ?case by (cases x) auto
qed simp

lemma assign_sizes_some:
  assumes "distinct (map m_sym_index (take (length L) S))" and "length L \<le> length S" and "\<forall>s \<in> set (take (length L) S). m_sym_index s < length z"
    and "\<forall>v \<in> set L. v \<noteq> 0 \<and> v < 256" and "\<forall>s \<in> set (take (length L) S). z ! m_sym_index s = 0"
  shows "\<exists>z'. assign_sizes L S (length L) z = Some z' \<and> length z' = length z \<and>
    (\<forall>v. v \<noteq> 0 \<longrightarrow> count_list z' v = count_list z v + count_list L v) \<and>
    (\<forall>x < length z. z' ! x \<noteq> 0 \<longleftrightarrow> z ! x \<noteq> 0 \<or> x \<in> m_sym_index ` set (take (length L) S)) \<and>
    set z' \<subseteq> set z \<union> set L"
  using assms
proof (induction L arbitrary: z)
  case (Cons v L)
  let ?j = "length L"
  let ?x = "m_sym_index (S ! ?j)"
  have t: "take (Suc ?j) S = take ?j S @ [S ! ?j]" using Cons.prems(2) by (simp add: take_Suc_conv_app_nth)
  have x: "?x < length z" "z ! ?x = 0" "?x \<notin> m_sym_index ` set (take ?j S)" using Cons.prems(1,3,5) by (simp_all add: t)
  have z': "\<forall>s \<in> set (take ?j S). z[?x := v] ! m_sym_index s = 0"
    using x Cons.prems(5) by (auto simp: t nth_list_update)
  obtain z' where z: "assign_sizes L S ?j (z[?x := v]) = Some z'" "length z' = length z"
      "\<forall>w. w \<noteq> 0 \<longrightarrow> count_list z' w = count_list (z[?x := v]) w + count_list L w"
      "\<forall>y < length z. z' ! y \<noteq> 0 \<longleftrightarrow> z[?x := v] ! y \<noteq> 0 \<or> y \<in> m_sym_index ` set (take ?j S)" "set z' \<subseteq> set (z[?x := v]) \<union> set L"
    using Cons.IH [of "z[?x := v]"] Cons.prems z' by (auto simp: t)
  have c: "count_list (z[?x := v]) w = count_list z w + count_list [v] w" if "w \<noteq> 0" for w
    using count_list_update [of ?x z w v] x(1,2) that by simp
  have "assign_sizes (v # L) S (length (v # L)) z = Some z'"
    using z(1) Cons.prems(2,4) x(1) by (simp add: key_at_def set_key_def)
  moreover have "\<forall>w. w \<noteq> 0 \<longrightarrow> count_list z' w = count_list z w + count_list (v # L) w" using z(3) c by simp
  moreover have "\<forall>y < length z. z' ! y \<noteq> 0 \<longleftrightarrow> z ! y \<noteq> 0 \<or> y \<in> m_sym_index ` set (take (length (v # L)) S)"
    using z(4) x Cons.prems(4) by (auto simp: t nth_list_update)
  moreover have "set z' \<subseteq> set z \<union> set (v # L)" using z(5) set_update_subset_insert [of z ?x v] by auto
  ultimately show ?case using z(2) by blast
qed auto

lemma sizes_in_order:
  fixes d :: "nat list" and m :: nat
  defines "L \<equiv> concat (map (\<lambda>i. replicate (d ! i) i) [1..<m + 1])"
  shows "length L = number m d" and "v \<in> set L \<Longrightarrow> 1 \<le> v \<and> v \<le> m" and "1 \<le> v \<Longrightarrow> v \<le> m \<Longrightarrow> count_list L v = d ! v"
proof -
  have r: "{1..<m + 1} = {1..m}" by auto
  have "length L = sum_list (map (\<lambda>i. d ! i) [1..<m + 1])" unfolding L_def length_concat map_map by (simp add: comp_def del: upt_Suc)
  then show "length L = number m d" unfolding sum_list_upt number_def r .
  show "1 \<le> v \<and> v \<le> m" if "v \<in> set L" using that by (auto simp: L_def simp del: upt_Suc split: if_splits)
  have "count_list (replicate k i) v = (if i = v then k else 0)" for k and i :: nat by (induction k) auto
  moreover have "count_list (concat (map f is)) v = sum_list (map (\<lambda>i. count_list (f i) v) is)" for f and "is" :: "nat list"
    by (induction "is") auto
  ultimately have "count_list L v = sum_list (map (\<lambda>i. if i = v then d ! i else 0) [1..<m + 1])" by (simp add: L_def del: upt_Suc)
  also have "\<dots> = (\<Sum>i\<in>{1..m}. if i = v then d ! i else 0)" unfolding sum_list_upt r ..
  finally show "count_list L v = d ! v" if "1 \<le> v" "v \<le> m" using that by simp
qed

text \<open>The symbols that occur, sorted.\<close>

lemma used_syms:
  assumes "tn \<le> 288" and "tn \<le> length cnt" and "sum_list (take tn cnt) < 65536"
  defines "U \<equiv> used_syms_of tn cnt"
  shows "distinct (map m_sym_index U)" and "m_sym_index ` set U = {i. i < tn \<and> cnt ! i \<noteq> 0}" and "\<forall>s \<in> set U. 1 \<le> m_key s \<and> m_key s < 65536"
    and "sum_list (map m_key U) < 65536" and "length U \<le> tn"
proof -
  have e: "cnt ! i mod 65536 = cnt ! i" "i mod 65536 = i" "cnt ! i < 65536" if "i < tn" for i
  proof -
    have "cnt ! i \<in> set (take tn cnt)" using that assms(2) by (auto simp: in_set_conv_nth intro!: exI [of _ i])
    then have "cnt ! i \<le> sum_list (take tn cnt)" by (rule member_le_sum_list) simp
    then show "cnt ! i mod 65536 = cnt ! i" "i mod 65536 = i" "cnt ! i < 65536" using assms(1,3) that by simp_all
  qed
  have U: "U = map (\<lambda>i. \<lparr>m_key = cnt ! i, m_sym_index = i\<rparr>) (filter (\<lambda>i. cnt ! i \<noteq> 0) [0..<tn])"
    unfolding U_def used_syms_of_def using e by (intro map_cong) auto
  show "distinct (map m_sym_index U)" by (simp add: U comp_def)
  show "m_sym_index ` set U = {i. i < tn \<and> cnt ! i \<noteq> 0}" by (force simp: U)
  show "\<forall>s \<in> set U. 1 \<le> m_key s \<and> m_key s < 65536" using e(3) by (auto simp: U)
  have "sum_list (map f (filter (\<lambda>i. f i \<noteq> 0) xs)) = sum_list (map f xs)" for f :: "nat \<Rightarrow> nat" and xs by (induction xs) auto
  then have "sum_list (map m_key U) = sum_list (map ((!) cnt) [0..<tn])" by (simp add: U comp_def)
  also have "map ((!) cnt) [0..<tn] = take tn cnt" using assms(2) by (intro nth_equalityI) auto
  finally show "sum_list (map m_key U) < 65536" using assms(3) by simp
  show "length U \<le> tn" using length_filter_le [of _ "[0..<tn]"] by (simp add: U)
qed

lemma redundancy_some:
  assumes "sorted K" "\<forall>k \<in> set K. 1 \<le> k" "sum_list K < 65536"
  shows "\<exists>R. tdefl_calculate_minimum_redundancy (K @ Z) (length K) = Some (R @ Z) \<and> length R = length K \<and>
    (\<forall>l \<in> set R. 1 \<le> l \<and> l \<le> 32) \<and> (if 2 \<le> length K then space R = 2 ^ 32 else \<forall>l \<in> set R. l = 1)"
proof -
  consider "K = []" | k where "K = [k]" | "2 \<le> length K" by (cases K; cases "tl K") auto
  then show ?thesis
  proof cases
    case 3
    then show ?thesis using redundancy_lengths [OF assms refl 3, of Z] by fastforce
  next
    case 2
    then show ?thesis by (intro exI [of _ "[1]"]) (simp add: tdefl_calculate_minimum_redundancy_def set_key_def)
  qed (simp add: tdefl_calculate_minimum_redundancy_def)
qed

lemma optimal_sizes_ok:
  assumes len: "tn \<le> 288" "tn \<le> length cnt" and few: "sum_list (take tn cnt) < 65536" and m: "1 \<le> m" "m \<le> 15" "tn \<le> 2 ^ m"
  shows "\<exists>d z. optimal_sizes tn m cnt = Some (d, z) \<and> length d = 33 \<and> length z = 288 \<and> (\<forall>x < 288. z ! x \<noteq> 0 \<longleftrightarrow> x < tn \<and> cnt ! x \<noteq> 0) \<and>
    (\<forall>v \<in> set z. v \<le> m) \<and> (\<forall>i. 1 \<le> i \<and> i \<le> m \<longrightarrow> d ! i = count_list z i) \<and> (taken m d = 2 ^ m \<or> number m d \<le> 1)"
proof -
  let ?U = "used_syms_of tn cnt"
  let ?n = "length ?U"
  note U = used_syms [OF len few]
  have n: "?n \<le> 288" using U(5) len by simp
  let ?s0 = "?U @ replicate (288 - ?n) sym_zero" and ?s1 = "replicate 288 sym_zero"
  have t: "take ?n ?s0 = ?U" by simp
  have "\<forall>s \<in> set ?U. m_key s < 65536" using U(3) by simp
  then obtain S where r: "tdefl_radix_sort_syms ?n ?s0 ?s1 = Some S"
      and S: "mset (take ?n S) = mset ?U" "sorted (map m_key (take ?n S))" "?n \<le> length S"
    using radix_sort_sorts [of ?n ?s0 ?s1] n t by auto
  have setS: "set (take ?n S) = set ?U" using S(1) by (metis set_mset_mset)
  let ?K = "map m_key (take ?n S)" and ?Z = "map m_key (drop ?n S)"
  have KZ: "map m_key S = ?K @ ?Z" by (metis append_take_drop_id map_append)
  have lK: "length ?K = ?n" using S(3) by simp
  have "mset ?K = mset (map m_key ?U)" using S(1) by simp
  then have "sum_list ?K = sum_list (map m_key ?U)" by (metis sum_mset_sum_list)
  then have K: "sorted ?K" "\<forall>k \<in> set ?K. 1 \<le> k" "sum_list ?K < 65536" using S(2) U(3,4) setS by auto
  obtain R where R: "tdefl_calculate_minimum_redundancy (map m_key S) ?n = Some (R @ ?Z)" "length R = ?n"
      "\<forall>l \<in> set R. 1 \<le> l \<and> l \<le> 32" "if 2 \<le> ?n then space R = 2 ^ 32 else \<forall>l \<in> set R. l = 1"
    using redundancy_some [OF K, of ?Z] unfolding KZ lK by blast
  have "\<forall>k \<in> set R. k < 33" using R(3) by auto
  from count_codes_zeros [OF this] obtain c where c: "count_codes R (replicate 33 0) = Some c" "length c = 33" "\<forall>i < 33. c ! i = count_list R i"
    by blast
  note sp = space_taken [OF R(3) c(3)]
  have "\<exists>d. tdefl_huffman_enforce_max_code_size c ?n m = Some d \<and> length d = 33 \<and> number m d = ?n \<and> (taken m d = 2 ^ m \<or> number m d \<le> 1)"
  proof (cases "2 \<le> ?n")
    case True
    have "?n \<le> 2 ^ m" using U(5) m(3) by simp
    then show ?thesis using enforce_fills [of c m ?n] c(2) m True sp R(2,4) by auto
  next
    case False
    then have "set R \<subseteq> {1..m}" using R(4) m by auto
    then have "sum_list (map (\<lambda>_. 1) R) = (\<Sum>i\<in>{1..m}. count_list R i * 1)"
      by (rule sum_list_map_eq_sum_count2) simp
    then have "number m c = ?n" using c(3) m R(2) by (simp add: number_def sum_list_triv)
    then show ?thesis using False c(2) by (simp add: tdefl_huffman_enforce_max_code_size_def)
  qed
  then obtain d where d: "tdefl_huffman_enforce_max_code_size c ?n m = Some d" "length d = 33" "number m d = ?n" "taken m d = 2 ^ m \<or> number m d \<le> 1"
    by blast
  define L where "L = concat (map (\<lambda>i. replicate (d ! i) i) [1..<m + 1])"
  note Ls = sizes_in_order [where d = d and m = m, folded L_def]
  have lL: "length L = ?n" using Ls(1) d(3) by simp
  have "mset (map m_sym_index (take ?n S)) = mset (map m_sym_index ?U)" using S(1) by simp
  then have dst: "distinct (map m_sym_index (take ?n S))" using U(1) mset_eq_imp_distinct_iff by blast
  have idx: "\<forall>s \<in> set (take ?n S). m_sym_index s < 288"
  proof
    fix s assume "s \<in> set (take ?n S)"
    then have "m_sym_index s \<in> {i. i < tn \<and> cnt ! i \<noteq> 0}" unfolding setS U(2) [symmetric] by (rule imageI)
    then show "m_sym_index s < 288" using len by simp
  qed
  have nz: "\<forall>v \<in> set L. v \<noteq> 0 \<and> v < 256"
  proof
    fix v assume "v \<in> set L"
    then show "v \<noteq> 0 \<and> v < 256" using Ls(2) m by fastforce
  qed
  have zz: "\<forall>s \<in> set (take ?n S). replicate 288 (0 :: nat) ! m_sym_index s = 0" using idx by simp
  note as = assign_sizes_some [of L S "replicate 288 0", unfolded lL length_replicate, OF dst S(3) idx nz zz]
  then obtain z where z: "assign_sizes L S ?n (replicate 288 0) = Some z" "length z = 288"
      "\<forall>v. v \<noteq> 0 \<longrightarrow> count_list z v = count_list (replicate 288 0) v + count_list L v"
      "\<forall>x < 288. z ! x \<noteq> 0 \<longleftrightarrow> replicate 288 (0 :: nat) ! x \<noteq> 0 \<or> x \<in> m_sym_index ` set (take ?n S)"
      "set z \<subseteq> set (replicate 288 0) \<union> set L"
    by (elim exE conjE)
  have z3: "count_list z v = count_list L v" if "v \<noteq> 0" for v using z(3) that by (simp add: count_list_0_iff)
  have z4: "z ! x \<noteq> 0 \<longleftrightarrow> x < tn \<and> cnt ! x \<noteq> 0" if "x < 288" for x
    using z(4) that U(2) unfolding setS by (metis (mono_tags, lifting) mem_Collect_eq nth_replicate)
  have "optimal_sizes tn m cnt = Some (d, z)"
  proof -
    have "take ?n (R @ ?Z) = R" "1 + 32 = (33 :: nat)" using R(2) by simp_all
    then show ?thesis
      by (simp only: optimal_sizes_def Let_def TDEFL_MAX_HUFF_SYMBOLS_def TDEFL_MAX_SUPPORTED_HUFF_CODESIZE_def r R(1) c(1) d(1) z(1)
          Option.bind.bind_lunit L_def [symmetric])
  qed
  moreover have "\<forall>v \<in> set z. v \<le> m" using z(5) Ls(2) by auto
  moreover have "\<forall>i. 1 \<le> i \<and> i \<le> m \<longrightarrow> d ! i = count_list z i" using z3 Ls(3) by auto
  moreover note z4
  ultimately show ?thesis using z(2) d(2,4) by blast
qed

section \<open>The codes\<close>

lemma first_code_sum: "first_code sizes (Suc l) = (\<Sum>i\<in>{1..l}. 2 ^ (Suc l - i) * count_list sizes i)"
proof (induction l)
  case (Suc l)
  have "2 * (\<Sum>i\<in>{1..l}. 2 ^ (Suc l - i) * count_list sizes i) = (\<Sum>i\<in>{1..l}. 2 ^ (Suc (Suc l) - i) * count_list sizes i)"
    unfolding sum_distrib_left by (intro sum.cong) (auto simp: Suc_diff_le)
  then show ?case using Suc.IH by simp
qed simp

lemma kraft_taken:
  assumes d: "\<forall>i. 1 \<le> i \<and> i \<le> m \<longrightarrow> d ! i = count_list sizes i" and m: "m \<le> 15" and v: "\<forall>v \<in> set sizes. v \<le> m"
    and full: "taken m d = 2 ^ m \<or> number m d \<le> 1"
  shows "kraft sizes"
proof -
  have z: "count_list sizes i = 0" if "m < i" for i using v that by (auto simp: count_list_0_iff)
  have split: "(\<Sum>i\<in>{1..15}. f i) = (\<Sum>i\<in>{1..m}. f i)" if "\<And>i. m < i \<Longrightarrow> f i = 0" for f :: "nat \<Rightarrow> nat"
    using m that by (intro sum.mono_neutral_right) auto
  have "first_code sizes 16 = (\<Sum>i\<in>{1..m}. 2 ^ (16 - i) * count_list sizes i)"
    using first_code_sum [of sizes 15] split [of "\<lambda>i. 2 ^ (16 - i) * count_list sizes i"] z by simp
  also have "\<dots> = (\<Sum>i\<in>{1..m}. 2 ^ (16 - m) * (2 ^ (m - i) * d ! i))"
    using d m by (intro sum.cong) (auto simp flip: power_add)
  also have "\<dots> = 2 ^ (16 - m) * taken m d" by (simp add: taken_def sum_distrib_left)
  finally have f: "first_code sizes 16 = 2 ^ (16 - m) * taken m d" .
  have "{1..<16} = {1..15 :: nat}" by auto
  then have "(\<Sum>i\<in>{1..<16}. count_list sizes i) = number m d"
    using split [of "count_list sizes"] z d by (simp add: number_def)
  then show ?thesis using full f m by (auto simp: kraft_def simp flip: power_add)
qed

lemma first_codes_nth:
  assumes d: "\<forall>i. 1 \<le> i \<and> i \<le> m \<longrightarrow> d ! i = count_list sizes i" and m: "m \<le> 15"
  shows "length (first_codes m d) = 33 \<and> (\<forall>i. 1 \<le> i \<and> i \<le> m \<longrightarrow> first_codes m d ! i = first_code sizes i)"
proof -
  let ?f = "\<lambda>i (next_code, j). let j = 2 * (j + d ! (i - 1)) in (next_code[i := j], j)"
  have "\<exists>nc. fold ?f [2..<Suc k] (replicate 33 0, 0) = (nc, first_code sizes k) \<and> length nc = 33 \<and>
      (\<forall>i. 1 \<le> i \<and> i \<le> k \<longrightarrow> nc ! i = first_code sizes i)" if "1 \<le> k" "k \<le> m" for k
    using that
  proof (induction k)
    case (Suc k)
    show ?case
    proof (cases "k = 0")
      case False
      then obtain nc where "fold ?f [2..<Suc k] (replicate 33 0, 0) = (nc, first_code sizes k)" "length nc = 33"
          "\<forall>i. 1 \<le> i \<and> i \<le> k \<longrightarrow> nc ! i = first_code sizes i"
        using Suc by auto
      moreover have "[2..<Suc (Suc k)] = [2..<Suc k] @ [Suc k]" using False by simp
      ultimately show ?thesis using d Suc.prems(2) m False by (auto simp: Let_def nth_list_update le_Suc_eq)
    qed (auto simp: le_Suc_eq)
  qed simp
  from this [of m] show ?thesis
    by (cases m) (auto simp: first_codes_def TDEFL_MAX_SUPPORTED_HUFF_CODESIZE_def simp del: upt_Suc)
qed

lemma give_codes:
  assumes z: "n \<le> length z" "length cs = length z" and m: "\<forall>v \<in> set (take n z). v \<le> m" "m \<le> 15" and k: "kraft (take n z)"
    and nc: "length nc = 33" "\<forall>i. 1 \<le> i \<and> i \<le> m \<longrightarrow> nc ! i = first_code (take n z) i"
  shows "k \<le> n \<Longrightarrow> \<exists>nc' cs'. fold (give_code z) [0..<k] (nc, cs) = (nc', cs') \<and> length nc' = 33 \<and> length cs' = length z \<and>
    (\<forall>i. 1 \<le> i \<and> i \<le> m \<longrightarrow> nc' ! i = first_code (take n z) i + count_list (take k z) i) \<and>
    (\<forall>x < k. z ! x \<noteq> 0 \<longrightarrow> cs' ! x = rev_code (z ! x) (snd (code_of (take n z) x))) \<and>
    (\<forall>x < length z. k \<le> x \<or> z ! x = 0 \<longrightarrow> cs' ! x = cs ! x)"
proof (induction k)
  case (Suc k)
  then obtain nc' cs' where i: "fold (give_code z) [0..<k] (nc, cs) = (nc', cs')" "length nc' = 33" "length cs' = length z"
      "\<forall>i. 1 \<le> i \<and> i \<le> m \<longrightarrow> nc' ! i = first_code (take n z) i + count_list (take k z) i"
      "\<forall>x < k. z ! x \<noteq> 0 \<longrightarrow> cs' ! x = rev_code (z ! x) (snd (code_of (take n z) x))"
      "\<forall>x < length z. k \<le> x \<or> z ! x = 0 \<longrightarrow> cs' ! x = cs ! x" by auto
  have kz: "k < length z" using Suc.prems z by simp
  then have t: "take (Suc k) z = take k z @ [z ! k]" by (simp add: take_Suc_conv_app_nth)
  have "z ! k \<in> set (take n z)" using Suc.prems z by (auto simp: in_set_conv_nth intro!: exI [of _ k])
  then have zk: "z ! k \<le> m" using m(1) by blast
  show ?case
  proof (cases "z ! k = 0")
    case True
    then have "fold (give_code z) [0..<Suc k] (nc, cs) = (nc', cs')" using i(1) by (simp add: give_code_def)
    then show ?thesis using i(2-6) True by (auto simp: t less_Suc_eq)
  next
    case False
    let ?c = "nc' ! (z ! k)"
    have c: "?c = snd (code_of (take n z) k)"
      using i(4) False zk Suc.prems by (simp add: code_of_def min_def)
    have "rev_bits (z ! k) ?c 0 mod 65536 = rev_code (z ! k) ?c"
    proof -
      have "rev_code (z ! k) ?c < 2 ^ (z ! k)" by (rule rev_code_less)
      also have "(2::nat) ^ (z ! k) \<le> 2 ^ 16" using zk m by (intro power_increasing) auto
      finally show ?thesis by (simp add: rev_bits_eq)
    qed
    then have "fold (give_code z) [0..<Suc k] (nc, cs) = (nc'[z ! k := ?c + 1], cs'[k := rev_code (z ! k) ?c])"
      using i(1) False by (simp add: give_code_def Let_def)
    then show ?thesis using i(2-6) False zk m(2) kz c by (auto simp: t nth_list_update less_Suc_eq)
  qed
qed (use assms in auto)

text \<open>A table of the compressor: its sizes and codes are those of the decoder for the first \<open>n\<close> sizes.\<close>

definition coder :: "nat \<Rightarrow> nat list \<times> nat list \<Rightarrow> bool" where
  "coder n = (\<lambda>(z, cs). n \<le> 288 \<and> length z = 288 \<and> length cs = 288 \<and> (\<forall>v \<in> set (take n z). v \<le> 15) \<and> kraft (take n z) \<and>
     (\<forall>x < n. z ! x \<noteq> 0 \<longrightarrow> cs ! x = rev_code (z ! x) (snd (code_of (take n z) x))))"

lemma coder_bits:
  assumes "coder n (z, cs)" and "x < n" and "z ! x \<noteq> 0"
  shows "nat_bits (z ! x) (cs ! x) = code_bits (take n z) x" and "z ! x \<le> 15" and "cs ! x < 2 ^ (z ! x)"
proof -
  have c: "cs ! x = rev_code (z ! x) (snd (code_of (take n z) x))" and l: "x < length z"
    using assms by (auto simp: coder_def)
  have "z ! x \<in> set (take n z)" using assms(2) l by (auto simp: in_set_conv_nth intro!: exI [of _ x])
  then show "z ! x \<le> 15" using assms(1) by (simp add: coder_def)
  show "cs ! x < 2 ^ (z ! x)" unfolding c by (rule rev_code_less)
  have "bit (rev_code (z ! x) c) i = odd (c div 2 ^ (z ! x - Suc i))" if "i < z ! x" for i c
    using rev_code_bit [OF that, of c] by (simp add: bit_iff_odd odd_iff_mod_2_eq_one)
  then show "nat_bits (z ! x) (cs ! x) = code_bits (take n z) x"
    unfolding c using assms(2) by (simp add: nat_bits_def code_bits_def code_of_def)
qed

lemma optimize_table_coder:
  assumes "n \<le> 288" "n \<le> length cnt" and "sum_list (take n cnt) < 65536" and "1 \<le> m" "m \<le> 15" "n \<le> 2 ^ m"
  shows "\<exists>z cs. tdefl_optimize_huffman_table n m False cnt sc = Some (z, cs) \<and> coder n (z, cs) \<and> (\<forall>v \<in> set z. v \<le> m) \<and>
    (\<forall>x < 288. z ! x \<noteq> 0 \<longleftrightarrow> x < n \<and> cnt ! x \<noteq> 0)"
proof -
  obtain d z where d: "optimal_sizes n m cnt = Some (d, z)" "length d = 33" "length z = 288" "\<forall>x < 288. z ! x \<noteq> 0 \<longleftrightarrow> x < n \<and> cnt ! x \<noteq> 0"
      "\<forall>v \<in> set z. v \<le> m" "\<forall>i. 1 \<le> i \<and> i \<le> m \<longrightarrow> d ! i = count_list z i" "taken m d = 2 ^ m \<or> number m d \<le> 1"
    using optimal_sizes_ok [OF assms] by blast
  have "z ! (n + i) = 0" if "n + i < 288" for i using d(4) that by (metis not_add_less1)
  then have "\<forall>x \<in> set (drop n z). x = 0" using d(3) by (auto simp: in_set_conv_nth)
  then have "count_list (drop n z) i = 0" if "i \<noteq> 0" for i using that by (auto simp: count_list_0_iff)
  then have "count_list z i = count_list (take n z) i" if "i \<noteq> 0" for i
    using that by (metis add.right_neutral append_take_drop_id count_list_append)
  then have c: "\<forall>i. 1 \<le> i \<and> i \<le> m \<longrightarrow> d ! i = count_list (take n z) i" using d(6) by simp
  have v: "\<forall>v \<in> set (take n z). v \<le> m" using d(5) by (meson in_set_takeD)
  note k = kraft_taken [OF c assms(5) v d(7)]
  note f = first_codes_nth [OF c assms(5)]
  obtain nc' cs' where g: "fold (give_code z) [0..<n] (first_codes m d, replicate 288 0) = (nc', cs')" "length cs' = length z"
      "\<forall>x < n. z ! x \<noteq> 0 \<longrightarrow> cs' ! x = rev_code (z ! x) (snd (code_of (take n z) x))"
    using give_codes [of n z "replicate 288 0" m "first_codes m d" n] d(3) v assms(1,5) k f by auto
  have "tdefl_optimize_huffman_table n m False cnt sc = Some (z, cs')"
    using d(1) g(1) by (cases sc) (simp add: tdefl_optimize_huffman_table_def TDEFL_MAX_HUFF_SYMBOLS_def del: replicate.simps)
  moreover have "\<forall>v \<in> set (take n z). v \<le> 15" using v assms(5) by auto
  ultimately show ?thesis using g(2,3) d(3,4,5) k assms(1) by (auto simp: coder_def)
qed

text \<open>C7: For any counts of at most 288 symbols, fewer than 65536 in all, and any limit that leaves room for
  them, the compressor finds a Huffman code: exactly the symbols that occur get a size, no size exceeds
  the limit, the code is one that the decompressor accepts (complete, or a single code), and the bits
  written for a symbol are its canonical code, first bit first. No assertion fails, no array is left
  and no loop runs on.\<close>

theorem compressor_codes:
  assumes "n \<le> 288" and "n \<le> length cnt" and "sum_list (take n cnt) < 65536" and "1 \<le> m" and "m \<le> 15" and "n \<le> 2 ^ m"
  shows "\<exists>sizes cs. tdefl_optimize_huffman_table n m False cnt sc = Some (sizes, cs) \<and> length sizes = 288 \<and> length cs = 288 \<and>
    (\<forall>x < 288. sizes ! x \<noteq> 0 \<longleftrightarrow> x < n \<and> cnt ! x \<noteq> 0) \<and> (\<forall>v \<in> set sizes. v \<le> m) \<and>
    sizes_ok (take n sizes) \<and> kraft (take n sizes) \<and>
    (\<forall>x < n. sizes ! x \<noteq> 0 \<longrightarrow> nat_bits (sizes ! x) (cs ! x) = code_bits (take n sizes) x)"
proof -
  obtain z cs where t: "tdefl_optimize_huffman_table n m False cnt sc = Some (z, cs)" "coder n (z, cs)" "\<forall>v \<in> set z. v \<le> m"
      "\<forall>x < 288. z ! x \<noteq> 0 \<longleftrightarrow> x < n \<and> cnt ! x \<noteq> 0"
    using optimize_table_coder [OF assms] by blast
  have "sizes_ok (take n z)" using t(2,3) assms by (force simp: sizes_ok_def coder_def dest: in_set_takeD)
  then show ?thesis using t coder_bits(1) [OF t(2)] by (auto simp: coder_def)
qed

theorem compressor_codes_witness:
  "\<exists>sizes cs. tdefl_optimize_huffman_table 4 7 False [5, 1, 0, 2] ([], []) = Some (sizes, cs) \<and> kraft (take 4 sizes) \<and>
    sizes ! 0 \<noteq> 0 \<and> sizes ! 2 = 0 \<and> nat_bits (sizes ! 0) (cs ! 0) = code_bits (take 4 sizes) 0"
proof -
  have side: "(4 :: nat) \<le> 288" "4 \<le> length [5, 1, 0, 2 :: nat]" "(1 :: nat) \<le> 7" "(7 :: nat) \<le> 15" "(4 :: nat) \<le> 2 ^ 7" by simp_all
  have few: "sum_list (take 4 [5, 1, 0, 2 :: nat]) < 65536" by simp
  obtain sizes cs where c: "tdefl_optimize_huffman_table 4 7 False [5, 1, 0, 2] ([], []) = Some (sizes, cs)"
      "\<forall>x < 288. sizes ! x \<noteq> 0 \<longleftrightarrow> x < 4 \<and> [5, 1, 0, 2 :: nat] ! x \<noteq> 0" "kraft (take 4 sizes)"
      "\<forall>x < 4. sizes ! x \<noteq> 0 \<longrightarrow> nat_bits (sizes ! x) (cs ! x) = code_bits (take 4 sizes) x"
    using compressor_codes [OF side(1,2) few side(3-5), of "([], [])"] by (elim exE conjE)
  have "sizes ! 0 \<noteq> 0" "sizes ! 2 = 0" using c(2) [THEN spec, of 0] c(2) [THEN spec, of 2] by simp_all
  then show ?thesis using c(1,3) c(4) [THEN spec, of 0] by (intro exI [of _ sizes] exI [of _ cs]) simp
qed

end
